(* ===== verification/Chain_Prelude.thy ===== *)
theory Chain_Prelude
  imports Main "HOL-Library.Word"
begin

text \<open>
  Shared vocabulary of the development: the fixed-width integer types of the C++ sources, the
  result type by which an \<^verbatim>\<open>EOS_ASSERT\<close> or \<^verbatim>\<open>EOS_THROW\<close> is a value, sequencing of fallible steps,
  and the collections of rewrite rules the component theories add to.
\<close>

section \<open>Integer types\<close>

text \<open>
  \<^verbatim>\<open>uint8_t\<close> to \<^verbatim>\<open>uint64_t\<close> and the compiler's \<^verbatim>\<open>uint128_t\<close> are words, so that arithmetic on them
  wraps as it does in the sources.
\<close>

type_synonym u8 = "8 word"
type_synonym u16 = "16 word"
type_synonym u32 = "32 word"
type_synonym u64 = "64 word"
type_synonym u128 = "128 word"

text \<open>\<^verbatim>\<open>int64_t\<close> is a word that is read with \<^const>\<open>sint\<close>.\<close>

type_synonym i64 = "64 word"

text \<open>\<^verbatim>\<open>std::numeric_limits<T>::max()\<close> of an unsigned type.\<close>

abbreviation numeric_max :: "'a::len word" where
  "numeric_max \<equiv> - 1"

section \<open>Bits of a word and its unsigned value\<close>

lemma bit_word_iff_odd_unat: "bit (w :: 'a::len word) i \<longleftrightarrow> odd (unat w div 2 ^ i)"
proof -
  have "bit w i \<longleftrightarrow> bit (unat w) i"
    by (simp add: bit_unsigned_iff bit_imp_le_length)
  then show ?thesis
    by (simp add: bit_iff_odd)
qed

lemma not_bit_above: "unat (w :: 'a::len word) < 2 ^ k \<Longrightarrow> k \<le> i \<Longrightarrow> \<not> bit w i"
  by (metis bit_word_iff_odd_unat div_less even_zero less_le_trans one_le_numeral power_increasing)

lemma bit_highest:
  assumes "2 ^ k \<le> unat (w :: 'a::len word)" and "unat w < 2 ^ Suc k"
  shows "bit w k"
proof -
  have "unat w div 2 ^ k = 1"
    using assms by (simp add: div_nat_eqI)
  then show ?thesis
    by (simp add: bit_word_iff_odd_unat)
qed

lemma unat_plus_1:
  assumes "w < (v :: 'a::len word)"
  shows "unat (w + 1) = Suc (unat w)"
proof -
  have "unat v < 2 ^ LENGTH('a)"
    by (rule unsigned_less)
  with assms have "unat w + 1 < 2 ^ LENGTH('a)"
    unfolding word_less_nat_alt by linarith
  then show ?thesis
    by (simp add: unat_word_ariths)
qed

lemma unat_plus_le: "unat (w + v :: 'a::len word) \<le> unat w + unat v"
  by (simp add: unat_word_ariths)

lemma unat_plus_exact:
  "unat w + unat v < 2 ^ LENGTH('a) \<Longrightarrow> unat (w + v :: 'a::len word) = unat w + unat v"
  by (simp add: unat_word_ariths)

lemma unat_ucast_16_32 [simp]: "unat (ucast (w :: u16) :: u32) = unat w"
proof -
  have "unat w < 2 ^ 16"
    using unsigned_less [of w] by simp
  then show ?thesis
    by (simp add: unsigned_ucast_eq take_bit_nat_eq_self_iff)
qed

section \<open>Exact arithmetic\<close>

text \<open>When the operations of a width agree with those of the natural numbers and integers.\<close>

lemma unat_ucast_up: "LENGTH('a) \<le> LENGTH('b) \<Longrightarrow> unat (ucast (w :: 'a::len word) :: 'b::len word) = unat w"
proof -
  assume "LENGTH('a) \<le> LENGTH('b)"
  moreover have "unat w < 2 ^ LENGTH('a)" by (rule unsigned_less)
  ultimately have "unat w < 2 ^ LENGTH('b)" by (meson less_le_trans one_le_numeral power_increasing)
  then show ?thesis by (simp add: unsigned_ucast_eq take_bit_nat_eq_self_iff)
qed

lemma unat_ucast_simps [simp]:
  "unat (ucast (w32 :: u32) :: u64) = unat w32"
  "unat (ucast (w32 :: u32) :: u128) = unat w32"
  "unat (ucast (w64 :: u64) :: u128) = unat w64"
  by (simp_all add: unat_ucast_up)

lemma unat_lt_32: "unat (w :: u32) < 4294967296"
  using unsigned_less [of w, where ?'a = nat] by simp

lemma unat_lt_64: "unat (w :: u64) < 18446744073709551616"
  using unsigned_less [of w, where ?'a = nat] by simp

lemma unat_mult_exact: "unat w * unat v < 2 ^ LENGTH('a) \<Longrightarrow> unat (w * v :: 'a::len word) = unat w * unat v"
  by (simp add: unat_word_ariths)

lemma unat_numeric_max: "unat (numeric_max :: 'a::len word) = 2 ^ LENGTH('a) - 1"
  by (simp add: unsigned_minus_1_eq_mask mask_eq_exp_minus_1)

lemma le_numeric_max_minus_iff:
  "u \<le> numeric_max - (v :: 'a::len word) \<longleftrightarrow> unat v + unat u < 2 ^ LENGTH('a)"
proof -
  have "unat (numeric_max - v) = 2 ^ LENGTH('a) - 1 - unat v"
    by (simp add: unat_sub unat_numeric_max)
  moreover have "unat v < 2 ^ LENGTH('a)" by (rule unsigned_less)
  ultimately show ?thesis
    unfolding word_le_nat_alt by linarith
qed

lemma le_numeric_max_div_iff:
  assumes "n \<noteq> 0"
  shows "v \<le> numeric_max div (n :: 'a::len word) \<longleftrightarrow> unat v * unat n < 2 ^ LENGTH('a)"
proof -
  have "0 < unat n" using assms by (simp add: unat_gt_0)
  then have "unat v \<le> (2 ^ LENGTH('a) - 1) div unat n \<longleftrightarrow> unat v * unat n \<le> 2 ^ LENGTH('a) - 1"
    by (rule less_eq_div_iff_mult_less_eq)
  moreover have "unat v * unat n \<le> 2 ^ LENGTH('a) - 1 \<longleftrightarrow> unat v * unat n < 2 ^ LENGTH('a)"
    using zero_less_power [of "2 :: nat" "LENGTH('a)"] by linarith
  ultimately show ?thesis
    unfolding word_le_nat_alt unat_div unat_numeric_max by simp
qed

definition ceil_div :: "nat \<Rightarrow> nat \<Rightarrow> nat" where
  "ceil_div n d = (n + d - 1) div d"

lemma ceil_div_eq: "0 < d \<Longrightarrow> ceil_div n d = n div d + (if 0 < n mod d then 1 else 0)"
proof -
  assume d: "0 < d"
  have n: "n = d * (n div d) + n mod d" by simp
  have "n + d - 1 = d * (n div d) + (n mod d + d - 1)" using d by (subst n) simp
  then have "ceil_div n d = (d * (n div d) + (n mod d + d - 1)) div d"
    by (simp only: ceil_div_def)
  also have "\<dots> = n div d + (n mod d + d - 1) div d"
    using d by (intro div_mult_self4) simp
  finally have "ceil_div n d = n div d + (n mod d + d - 1) div d" .
  moreover have "(n mod d + d - 1) div d = (if 0 < n mod d then 1 else 0)"
  proof (cases "n mod d = 0")
    case False
    with mod_less_divisor [OF d, of n] have "d \<le> n mod d + d - 1" "n mod d + d - 1 < d + d"
      by linarith+
    with False show ?thesis by (intro trans [OF div_nat_eqI [of d 1]]) simp_all
  qed (use d in simp)
  ultimately show ?thesis by simp
qed

lemma ceil_div_le: "0 < d \<Longrightarrow> ceil_div n d \<le> n div d + 1"
  by (simp add: ceil_div_eq)

lemma unat_max: "unat (max a b) = max (unat a) (unat (b :: 'a::len word))"
  by (auto simp: max_def word_le_nat_alt)

lemma unat_min: "unat (min a b) = min (unat a) (unat (b :: 'a::len word))"
  by (auto simp: min_def word_le_nat_alt)

lemma sint_64: "sint (d :: i64) = int (unat d) - (if sint d < 0 then 2 ^ 64 else 0)"
proof -
  have "uint d < 2 ^ 64" using unat_lt_64 [of d] by (simp add: uint_nat del: of_nat_unat)
  moreover from this have "sint d = uint d - 2 ^ 64 * of_bool (bit (uint d) 63)"
    using signed_take_bit_eq_take_bit_minus [of 63 "uint d"] by (simp add: sint_uint take_bit_int_eq_self_iff)
  moreover have "0 \<le> uint d" by simp
  ultimately show ?thesis by (simp split: if_splits)
qed

lemma unat_uminus:
  assumes "d \<noteq> 0"
  shows "unat (- d :: 'a::len word) = 2 ^ LENGTH('a) - unat d"
proof -
  have "- d = numeric_max - (d - 1)" by simp
  then have "unat (- d) = (2 ^ LENGTH('a) - 1) - (unat d - 1)"
    using assms by (simp only: unat_sub [OF word_order.extremum] unat_numeric_max unat_minus_one not_False_eq_True)
  with assms show ?thesis by (simp add: unat_gt_0)
qed

lemma unat_plus_sint:
  assumes "d \<noteq> 0" "sint (d :: i64) \<le> 0 \<or> d \<le> numeric_max - r" "0 \<le> sint d \<or> - d \<le> r"
  shows "int (unat (r + d)) = int (unat r) + sint d"
proof (cases "0 \<le> sint d")
  case True
  then have "sint d = int (unat d)" using sint_64 [of d] by simp
  with assms unat_eq_zero [of d] show ?thesis
    by (auto simp: le_numeric_max_minus_iff unat_plus_exact simp flip: of_nat_add simp del: of_nat_add of_nat_unat)
next
  case False
  then have neg: "- d \<le> r" and s: "sint d = int (unat d) - 2 ^ 64" using assms(3) sint_64 [of d] by simp_all
  have "unat (r - (- d)) = unat r - unat (- d)" using neg by (rule unat_sub)
  with s neg assms(1) unat_lt_64 [of d] show ?thesis
    by (simp add: unat_uminus word_le_nat_alt of_nat_diff del: of_nat_unat)
qed

section \<open>Digests\<close>

text \<open>
  \<^verbatim>\<open>fc::sha256\<close> by its four words; block ids and feature digests are such values. \<^verbatim>\<open>digest_type::hash\<close> of a pair is a
  parameter of the definitions that use it.
\<close>

record digest_type =
  hash0 :: u64
  hash1 :: u64
  hash2 :: u64
  hash3 :: u64

type_synonym pair_hash = "digest_type \<times> digest_type \<Rightarrow> digest_type"

section \<open>Names and exceptions\<close>

text \<open>
  An \<^verbatim>\<open>eosio::chain::name\<close> is the 64-bit \<^verbatim>\<open>value\<close> of the struct, compared as a number; accounts, actions and
  permissions are named by it.
\<close>

type_synonym name = u64
type_synonym account_name = name
type_synonym permission_name = name
type_synonym action_name = name

type_synonym bytes = "u8 list"

text \<open>\<^verbatim>\<open>fc::time_point\<close> by its number of microseconds, with which no arithmetic that could overflow is done.\<close>

type_synonym time_point = int

text \<open>Exceptions of the transaction, the white list and the contract table categories.\<close>

datatype transaction_error =
    Tx_resource_exhaustion
  | Expired_tx_exception
  | Tx_exp_too_far_exception
  | Tx_duplicate
  | Tx_no_auths
  | Invalid_ref_block_exception
  | Block_net_usage_exceeded
  | Greylist_net_usage_exceeded
  | Block_cpu_usage_exceeded
  | Greylist_cpu_usage_exceeded
  | Leeway_deadline_exception
  | Deadline_exception
  | Subjective_block_production_exception
  | Disallowed_transaction_extensions_bad_block_exception

datatype whitelist_error =
    Actor_whitelist_exception
  | Actor_blacklist_exception
  | Contract_whitelist_exception
  | Contract_blacklist_exception
  | Action_blacklist_exception

datatype table_error =
    Invalid_table_iterator
  | Table_not_in_cache
  | Invalid_table_payer
  | Table_access_violation
  | Table_operation_not_permitted
  | Unauthorized_ram_usage_increase

text \<open>
  The exception classes of \<^verbatim>\<open>exceptions.hpp\<close> that the modelled functions throw, the two failures of the state
  database (a \<^verbatim>\<open>get\<close> of a key that is not there, a \<^verbatim>\<open>create\<close> of a key that is), and \<open>Undefined_behaviour\<close> for an
  evaluation to which C++ gives no meaning, such as a division by zero. \<open>Nonterminating\<close> is the value of a loop that
  has not ended when its fuel is used up.
\<close>

datatype chain_exception =
    Name_type_exception
  | Authorization_exception
  | Permission_query_exception
  | Resource_limit_exception
  | Rate_limiting_state_inconsistent
  | Tx_cpu_usage_exceeded
  | Tx_net_usage_exceeded
  | Block_resource_exhausted
  | Ram_usage_exceeded
  | Transaction_exception
  | Protocol_feature_exception
  | Protocol_feature_validation_exception
  | Protocol_feature_iterator_exception
  | Ill_formed_protocol_feature_activation
  | Invalid_block_header_extension
  | Block_validate_exception
  | Unlinkable_block_exception
  | Producer_double_confirm
  | Producer_schedule_exception
  | Wrong_producer
  | Wrong_signing_key
  | No_block_signatures
  | Overflow_exception
  | Fork_database_exception
  | Fork_db_block_not_found
  | Unknown_key
  | Uniqueness_violation
  | Bad_variant_access
  | Unactivated_key_type
  | Action_validate_exception
  | Unlinkable_min_permission_action
  | Irrelevant_auth_exception
  | Unsatisfied_authorization
  | Missing_auth_exception
  | Tx_irrelevant_sig
  | Account_name_exists_exception
  | Account_query_exception
  | Invalid_contract_vm_type
  | Invalid_contract_vm_version
  | Set_exact_code
  | Unsupported_feature
  | Key_blacklist_exception
  | Snapshot_exception
  | Invalid_block_extension
  | Ill_formed_additional_block_signatures_extension
  | Fc_exception
  | Invalid_permission
  | Action_type_exception
  | Trx_error transaction_error
  | List_error whitelist_error
  | Table_error table_error
  | Nonterminating
  | Undefined_behaviour

section \<open>Results of fallible operations\<close>

text \<open>
  A function of the sources that can throw returns \<^verbatim>\<open>Inl e\<close> for the exception \<open>e\<close> it throws and
  \<^verbatim>\<open>Inr v\<close> for the value it returns.
\<close>

type_synonym ('e, 'a) result = "'e + 'a"

definition rbind :: "('e, 'a) result \<Rightarrow> ('a \<Rightarrow> ('e, 'b) result) \<Rightarrow> ('e, 'b) result" where
  "rbind r f = (case r of Inl e \<Rightarrow> Inl e | Inr v \<Rightarrow> f v)"

definition eos_assert :: "bool \<Rightarrow> 'e \<Rightarrow> ('e, unit) result" where
  "eos_assert b e = (if b then Inr () else Inl e)"

named_theorems result_simps \<open>evaluation of sequenced fallible steps\<close>

lemma rbind_Inl [simp, result_simps]: "rbind (Inl e) f = Inl e"
  by (simp add: rbind_def)

lemma rbind_Inr [simp, result_simps]: "rbind (Inr v) f = f v"
  by (simp add: rbind_def)

lemma eos_assert_True [simp, result_simps]: "eos_assert True e = Inr ()"
  by (simp add: eos_assert_def)

lemma eos_assert_False [simp, result_simps]: "eos_assert False e = Inl e"
  by (simp add: eos_assert_def)

lemma rbind_eq_Inr_iff [result_simps]:
  "rbind r f = Inr y \<longleftrightarrow> (\<exists>v. r = Inr v \<and> f v = Inr y)"
  by (cases r) auto

lemma rbind_eq_Inl_iff:
  "rbind r f = Inl e \<longleftrightarrow> r = Inl e \<or> (\<exists>v. r = Inr v \<and> f v = Inl e)"
  by (cases r) auto

lemma eos_assert_eq_Inr_iff [result_simps]: "eos_assert b e = Inr u \<longleftrightarrow> b"
  by (cases b) auto

lemma eos_assert_eq_Inl_iff: "eos_assert b e = Inl e' \<longleftrightarrow> \<not> b \<and> e' = e"
  by (cases b) auto

lemma rbind_cong [fundef_cong]:
  "r = r' \<Longrightarrow> (\<And>v. r' = Inr v \<Longrightarrow> f v = g v) \<Longrightarrow> rbind r f = rbind r' g"
  by (cases r') auto

lemma rbind_assoc: "rbind (rbind r f) g = rbind r (\<lambda>v. rbind (f v) g)"
  by (cases r) auto

section \<open>Loops over a container that may throw\<close>

text \<open>
  \<^verbatim>\<open>for (auto& x : xs) body\<close> where the body changes the state and may throw: the first exception
  ends the loop.
\<close>

fun for_each :: "('x \<Rightarrow> 's \<Rightarrow> ('e, 's) result) \<Rightarrow> 'x list \<Rightarrow> 's \<Rightarrow> ('e, 's) result" where
  "for_each body [] s = Inr s"
| "for_each body (x # xs) s = rbind (body x s) (for_each body xs)"

lemma for_each_append:
  "for_each body (xs @ ys) s = rbind (for_each body xs s) (for_each body ys)"
  by (induction xs arbitrary: s) (auto simp: rbind_def split: sum.splits)

lemma for_each_invariant:
  assumes "for_each body xs s = Inr t" and "P s"
    and "\<And>x s t. x \<in> set xs \<Longrightarrow> body x s = Inr t \<Longrightarrow> P s \<Longrightarrow> P t"
  shows "P t"
  using assms by (induction xs arbitrary: s) (auto simp: rbind_eq_Inr_iff)

lemma length_filter_mono: "(\<And>x. x \<in> set xs \<Longrightarrow> P x \<Longrightarrow> Q x) \<Longrightarrow> length (filter P xs) \<le> length (filter Q xs)"
  by (induction xs) (simp_all add: le_SucI)

text \<open>
  \<^verbatim>\<open>EOS_RETHROW_EXCEPTIONS\<close>: exceptions of the chain library pass, those of the libraries below it are turned into the
  given one. Undefined behaviour is no exception.
\<close>

definition rethrow_as :: "chain_exception \<Rightarrow> (chain_exception, 'a) result \<Rightarrow> (chain_exception, 'a) result" where
  "rethrow_as e' r =
     (case r of
        Inl e \<Rightarrow> Inl (if e \<in> {Unknown_key, Uniqueness_violation, Bad_variant_access, Overflow_exception, Fc_exception} then e' else e)
      | Inr v \<Rightarrow> Inr v)"

lemma rethrow_as_simps [simp]: "rethrow_as e (Inr v) = Inr v" "rethrow_as e r = Inr v \<longleftrightarrow> r = Inr v"
  by (auto simp: rethrow_as_def split: sum.splits)

lemma less_inc: "w + 1 \<noteq> 0 \<Longrightarrow> w < w + (1 :: 'a :: len word)"
  using inc_less_eq_triv_imp [of w] by (cases "w + 1 \<le> w") (auto simp: not_le)

end
