(* ===== verification/Merkle.thy ===== *)
theory Merkle
  imports Chain_Prelude "HOL-Library.Log_Nat"
begin

text \<open>
  The Merkle trees of \<^verbatim>\<open>libraries/chain\<close>: \<^verbatim>\<open>merkle.cpp\<close> computes the root of a list of digests level
  by level, \<^verbatim>\<open>incremental_merkle.hpp\<close> keeps just enough inner nodes to append one leaf in
  logarithmic time. The main results: the bit tricks that compute the depth of the tree, the
  absence of out-of-range reads in \<^verbatim>\<open>append\<close>, and that the incremental root is the root of the
  level-by-level computation.

  SHA-256 over the packed pair (\<^verbatim>\<open>digest_type::hash\<close> of the fc library) is the parameter \<open>H\<close>, and
  the default-constructed digest is the parameter \<open>d0\<close>.
\<close>

unbundle bit_operations_syntax

section \<open>Digests\<close>

definition make_canonical_left :: "digest_type \<Rightarrow> digest_type" where
  "make_canonical_left val = val\<lparr>hash0 := hash0 val AND 0xFFFFFFFFFFFFFF7F\<rparr>"

definition make_canonical_right :: "digest_type \<Rightarrow> digest_type" where
  "make_canonical_right val = val\<lparr>hash0 := hash0 val OR 0x0000000000000080\<rparr>"

definition is_canonical_left :: "digest_type \<Rightarrow> bool" where
  "is_canonical_left val \<longleftrightarrow> hash0 val AND 0x0000000000000080 = 0"

definition is_canonical_right :: "digest_type \<Rightarrow> bool" where
  "is_canonical_right val \<longleftrightarrow> hash0 val AND 0x0000000000000080 \<noteq> 0"

definition make_canonical_pair :: "digest_type \<Rightarrow> digest_type \<Rightarrow> digest_type \<times> digest_type" where
  "make_canonical_pair l r = (make_canonical_left l, make_canonical_right r)"

section \<open>The level-by-level root\<close>

text \<open>The in-place \<^verbatim>\<open>for\<close> loop over the first half of the deque.\<close>

function combine_level :: "pair_hash \<Rightarrow> nat \<Rightarrow> nat \<Rightarrow> digest_type list \<Rightarrow> digest_type list" where
  "combine_level H i n ids =
     (if i < n
      then combine_level H (Suc i) n
             (ids[i := H (make_canonical_pair (ids ! (2 * i)) (ids ! (2 * i + 1)))])
      else ids)"
  by pat_completeness auto
termination
  by (relation "measure (\<lambda>(H, i, n, ids). n - i)") auto

declare combine_level.simps [simp del]

text \<open>One round of the \<^verbatim>\<open>while\<close> loop: duplicate the last id of an odd level, combine, resize.\<close>

definition merkle_round :: "pair_hash \<Rightarrow> digest_type list \<Rightarrow> digest_type list" where
  "merkle_round H ids =
     (let ids' = (if length ids mod 2 \<noteq> 0 then ids @ [last ids] else ids);
          half = length ids' div 2
      in take half (combine_level H 0 half ids'))"

lemma length_combine_level [simp]: "length (combine_level H i n ids) = length ids"
  by (induction H i n ids rule: combine_level.induct) (subst combine_level.simps, simp)

lemma length_merkle_round [simp]: "length (merkle_round H ids) = (length ids + 1) div 2"
  by (simp add: merkle_round_def Let_def) presburger

function merkle_loop :: "pair_hash \<Rightarrow> digest_type list \<Rightarrow> digest_type list" where
  "merkle_loop H ids = (if length ids > 1 then merkle_loop H (merkle_round H ids) else ids)"
  by pat_completeness auto
termination
  by (relation "measure (\<lambda>(H, ids). length ids)") auto

declare merkle_loop.simps [simp del]

definition merkle :: "pair_hash \<Rightarrow> digest_type \<Rightarrow> digest_type list \<Rightarrow> digest_type" where
  "merkle H d0 ids = (if length ids = 0 then d0 else hd (merkle_loop H ids))"

section \<open>The depth of an incremental tree\<close>

definition next_power_of_2 :: "u64 \<Rightarrow> u64" where
  "next_power_of_2 value0 =
     (let v0 = value0 - 1;
          v1 = v0 OR drop_bit 1 v0;
          v2 = v1 OR drop_bit 2 v1;
          v3 = v2 OR drop_bit 4 v2;
          v4 = v3 OR drop_bit 8 v3;
          v5 = v4 OR drop_bit 16 v4;
          v6 = v5 OR drop_bit 32 v5
      in v6 + 1)"

definition clz_power_2 :: "u64 \<Rightarrow> int" where
  "clz_power_2 v =
     (let lz0 = 64;
          lz1 = (if v \<noteq> 0 then lz0 - 1 else lz0);
          lz2 = (if v AND 0x00000000FFFFFFFF \<noteq> 0 then lz1 - 32 else lz1);
          lz3 = (if v AND 0x0000FFFF0000FFFF \<noteq> 0 then lz2 - 16 else lz2);
          lz4 = (if v AND 0x00FF00FF00FF00FF \<noteq> 0 then lz3 - 8 else lz3);
          lz5 = (if v AND 0x0F0F0F0F0F0F0F0F \<noteq> 0 then lz4 - 4 else lz4);
          lz6 = (if v AND 0x3333333333333333 \<noteq> 0 then lz5 - 2 else lz5);
          lz7 = (if v AND 0x5555555555555555 \<noteq> 0 then lz6 - 1 else lz6)
      in lz7)"

definition calcluate_max_depth :: "u64 \<Rightarrow> int" where
  "calcluate_max_depth node_count =
     (if node_count = 0 then 0 else clz_power_2 (next_power_of_2 node_count) + 1)"

section \<open>The incremental tree\<close>

record incremental_merkle =
  node_count :: u64
  active_nodes :: "digest_type list"

definition empty_merkle :: incremental_merkle where
  "empty_merkle = \<lparr>node_count = 0, active_nodes = []\<rparr>"

text \<open>
  The \<^verbatim>\<open>while\<close> loop of \<^verbatim>\<open>append\<close>. Its state is \<^verbatim>\<open>partial\<close>, \<^verbatim>\<open>current_depth\<close>, \<^verbatim>\<open>index\<close>, \<^verbatim>\<open>top\<close>, the nodes
  from \<^verbatim>\<open>active_iter\<close> to the end, and \<^verbatim>\<open>updated_active_nodes\<close>. Reading through an iterator at the end
  is undefined behaviour, \<open>None\<close> here.
\<close>

function append_loop :: "pair_hash \<Rightarrow> bool \<Rightarrow> int \<Rightarrow> u64 \<Rightarrow> digest_type \<Rightarrow> digest_type list \<Rightarrow>
    digest_type list \<Rightarrow> (digest_type \<times> digest_type list) option" where
  "append_loop H partial current_depth index top_node active updated =
     (if current_depth > 0
      then if index AND 1 = 0
           then append_loop H True (current_depth - 1) (drop_bit 1 index)
                  (H (make_canonical_pair top_node top_node)) active
                  (if partial then updated else updated @ [top_node])
           else (case active of
                   [] \<Rightarrow> None
                 | left_value # active' \<Rightarrow>
                     append_loop H partial (current_depth - 1) (drop_bit 1 index)
                       (H (make_canonical_pair left_value top_node)) active'
                       (if partial then updated @ [left_value] else updated))
      else Some (top_node, updated))"
  by pat_completeness auto
termination
  by (relation "measure (\<lambda>(H, p, d, i, t, a, u). nat d)") auto

declare append_loop.simps [simp del]

definition append_node :: "pair_hash \<Rightarrow> digest_type \<Rightarrow> incremental_merkle \<Rightarrow> incremental_merkle option" where
  "append_node H digest m =
     (let max_depth = calcluate_max_depth (node_count m + 1)
      in case append_loop H False (max_depth - 1) (node_count m) digest (active_nodes m) [] of
           None \<Rightarrow> None
         | Some (top_node, updated) \<Rightarrow>
             Some \<lparr>node_count = node_count m + 1, active_nodes = updated @ [top_node]\<rparr>)"

definition get_root :: "digest_type \<Rightarrow> incremental_merkle \<Rightarrow> digest_type" where
  "get_root d0 m = (if node_count m > 0 then last (active_nodes m) else d0)"

section \<open>Trees of levels\<close>

text \<open>
  The specification: a level is paired up, the last node of an odd level with itself. The node \<open>i\<close> of
  level \<open>j\<close> is \<open>tree_node h j i\<close>; the complete subtrees of a list of \<open>n\<close> leaves, smallest first, have
  the roots \<open>perfect_roots h xs 0 n\<close>, one for each bit set in \<open>n\<close>.
\<close>

definition hash_node :: "pair_hash \<Rightarrow> digest_type \<Rightarrow> digest_type \<Rightarrow> digest_type" where
  "hash_node H l r = H (make_canonical_pair l r)"

fun level_up :: "('d \<Rightarrow> 'd \<Rightarrow> 'd) \<Rightarrow> 'd list \<Rightarrow> 'd list" where
  "level_up h [] = []"
| "level_up h [x] = [h x x]"
| "level_up h (x # y # zs) = h x y # level_up h zs"

lemma length_level_up [simp]: "length (level_up h xs) = (length xs + 1) div 2"
  by (induction h xs rule: level_up.induct) auto

lemma level_up_nth:
  "2 * i < length xs \<Longrightarrow>
   level_up h xs ! i = h (xs ! (2 * i)) (if 2 * i + 1 < length xs then xs ! (2 * i + 1) else xs ! (2 * i))"
proof (induction h xs arbitrary: i rule: level_up.induct)
  case (3 h x y zs)
  then show ?case by (cases i) auto
qed auto

definition tree_node :: "('d \<Rightarrow> 'd \<Rightarrow> 'd) \<Rightarrow> nat \<Rightarrow> nat \<Rightarrow> 'd list \<Rightarrow> 'd" where
  "tree_node h j i xs = (level_up h ^^ j) xs ! i"

fun perfect_roots :: "('d \<Rightarrow> 'd \<Rightarrow> 'd) \<Rightarrow> 'd list \<Rightarrow> nat \<Rightarrow> nat \<Rightarrow> 'd list" where
  "perfect_roots h xs j m =
     (if m = 0 then []
      else if odd m then tree_node h j (m - 1) xs # perfect_roots h xs (Suc j) (m div 2)
      else perfect_roots h xs (Suc j) (m div 2))"

declare perfect_roots.simps [simp del]

lemma combine_level_nth:
  "2 * n \<le> length ids \<Longrightarrow> j < length ids \<Longrightarrow>
   combine_level H i n ids ! j =
     (if i \<le> j \<and> j < n then hash_node H (ids ! (2 * j)) (ids ! (2 * j + 1)) else ids ! j)"
proof (induction H i n ids rule: combine_level.induct)
  case (1 H i n ids)
  show ?case
  proof (cases "i < n")
    case True
    with 1 show ?thesis
      by (subst combine_level.simps)
        (cases "i = j", auto simp: nth_list_update hash_node_def not_le)
  next
    case False
    then show ?thesis by (subst combine_level.simps) auto
  qed
qed

lemma merkle_round_level_up: "merkle_round H ids = level_up (hash_node H) ids"
proof (rule nth_equalityI)
  fix i
  assume "i < length (merkle_round H ids)"
  then have i: "2 * i < length ids" by auto
  show "merkle_round H ids ! i = level_up (hash_node H) ids ! i"
  proof (cases "odd (length ids)")
    case True
    have "last ids = ids ! (2 * i)" if "Suc (2 * i) = length ids"
      using that by (cases ids) (auto simp: last_conv_nth)
    with True i show ?thesis
      by (auto simp: merkle_round_def Let_def combine_level_nth level_up_nth nth_append
          odd_iff_mod_2_eq_one)
  next
    case False
    with i have "2 * i + 1 < length ids" by presburger
    with False i show ?thesis
      by (auto simp: merkle_round_def Let_def combine_level_nth level_up_nth even_iff_mod_2_eq_zero)
  qed
qed simp

lemma length_level:
  "length xs = Suc n \<Longrightarrow> length ((level_up h ^^ j) xs) = Suc (n div 2 ^ j)"
proof (induction j)
  case (Suc j)
  have "n div 2 ^ Suc j = n div 2 ^ j div 2"
    by (metis div_mult2_eq power_Suc2)
  with Suc show ?case by simp
qed simp

lemma merkle_loop_level:
  "ids \<noteq> [] \<Longrightarrow> merkle_loop H ids = (level_up (hash_node H) ^^ ceillog2 (length ids)) ids"
proof (induction H ids rule: merkle_loop.induct)
  case (1 H ids)
  show ?case
  proof (cases "length ids > 1")
    case True
    note True0 = True
    let ?n = "length (merkle_round H ids)"
    have "ceillog2 (length ids) = Suc (ceillog2 ?n)"
    proof (cases "even (length ids)")
      case True
      then obtain k where "length ids = 2 * k" by (elim evenE)
      then show ?thesis using True0 ceillog2_rec_even [of k] by auto
    next
      case False
      then obtain k where "length ids = Suc (2 * k)" by (elim oddE) auto
      then show ?thesis using ceillog2_rec_odd [of k] True by auto
    qed
    moreover have "0 < ?n"
      using True by simp
    then have "merkle_round H ids \<noteq> []"
      by (metis list.size(3) less_numeral_extra(3))
    ultimately show ?thesis
      using 1(1) [OF True] True
      by (subst merkle_loop.simps) (simp add: merkle_round_level_up funpow_swap1 del: length_level_up)
  next
    case False
    then have "length ids = 1" using 1(2) by (cases ids) auto
    then show ?thesis by (subst merkle_loop.simps) simp
  qed
qed

lemma tree_node_Suc:
  assumes "length xs = Suc n" "2 * i \<le> n div 2 ^ j"
  shows "tree_node h (Suc j) i xs =
    h (tree_node h j (2 * i) xs)
      (if 2 * i + 1 \<le> n div 2 ^ j then tree_node h j (2 * i + 1) xs else tree_node h j (2 * i) xs)"
  using assms by (simp add: tree_node_def level_up_nth length_level)

lemma tree_node_append:
  "Suc i * 2 ^ j \<le> length xs \<Longrightarrow> tree_node h j i (xs @ ys) = tree_node h j i xs"
proof (induction j arbitrary: i)
  case 0
  then show ?case by (simp add: tree_node_def nth_append)
next
  case (Suc j)
  have le: "2 * i + 1 \<le> n div 2 ^ j" if "Suc n = length xs + k" for n k
  proof -
    have "(2 * i + 2) * 2 ^ j \<le> length xs" using Suc.prems by (simp add: algebra_simps)
    then have "(2 * i + 1) * 2 ^ j + 2 ^ j \<le> Suc n" using that by (simp add: algebra_simps)
    moreover have "(1::nat) \<le> 2 ^ j" by simp
    ultimately have "(2 * i + 1) * 2 ^ j \<le> n" by linarith
    then show ?thesis by (metis div_le_mono nonzero_mult_div_cancel_right power_not_zero zero_neq_numeral)
  qed
  have pos: "0 < length xs" using Suc.prems by (metis add_gr_0 less_le_trans mult_Suc zero_less_numeral zero_less_power)
  obtain n where n: "length xs = Suc n" using pos gr0_implies_Suc by blast
  have IH: "tree_node h j (2 * i) (xs @ ys) = tree_node h j (2 * i) xs"
    "tree_node h j (2 * i + 1) (xs @ ys) = tree_node h j (2 * i + 1) xs"
    using Suc.prems by (auto intro!: Suc.IH simp: algebra_simps)
  show ?case
    using IH le [of n 0] le [of "n + length ys" "length ys"] n
    by (simp add: tree_node_Suc [of xs n] tree_node_Suc [of "xs @ ys" "n + length ys"] )
qed

lemma perfect_roots_0 [simp]: "perfect_roots h xs j 0 = []"
  by (simp add: perfect_roots.simps)

lemma perfect_roots_even: "even m \<Longrightarrow> perfect_roots h xs j m = perfect_roots h xs (Suc j) (m div 2)"
  by (cases "m = 0") (simp_all add: perfect_roots.simps [of h xs j m])

lemma perfect_roots_odd:
  "odd m \<Longrightarrow> perfect_roots h xs j m = tree_node h j (m - 1) xs # perfect_roots h xs (Suc j) (m div 2)"
  by (subst perfect_roots.simps) (auto elim: oddE)

lemma perfect_roots_append:
  "m * 2 ^ j \<le> length xs \<Longrightarrow> perfect_roots h (xs @ ys) j m = perfect_roots h xs j m"
proof (induction h xs j m rule: perfect_roots.induct)
  case (1 h xs j m)
  have le: "m div 2 * 2 ^ Suc j \<le> length xs"
  proof -
    have "m div 2 * 2 ^ Suc j = (m div 2 * 2) * 2 ^ j" by simp
    also have "\<dots> \<le> m * 2 ^ j" by (intro mult_right_mono) auto
    finally show ?thesis using "1.prems" by linarith
  qed
  show ?case
  proof (cases "odd m")
    case True
    then have "m \<noteq> 0" and "Suc (m - 1) = m" by (auto elim: oddE)
    with True 1 le show ?thesis
      by (simp add: perfect_roots_odd tree_node_append)
  next
    case False
    with 1 le show ?thesis by (cases "m = 0") (simp_all add: perfect_roots_even)
  qed
qed

section \<open>The depth computation\<close>

text \<open>Doubling the reach of every set bit downwards: the steps of \<^verbatim>\<open>next_power_of_2\<close>.\<close>

lemma smear_bit:
  fixes v w :: u64
  assumes "\<forall>i. bit w i \<longleftrightarrow> (\<exists>j<n. bit v (i + j))" and "m = n + n"
  shows "\<forall>i. bit (w OR drop_bit n w) i \<longleftrightarrow> (\<exists>j<m. bit v (i + j))"
proof
  fix i
  have "bit (w OR drop_bit n w) i \<longleftrightarrow> (\<exists>j<n. bit v (i + j)) \<or> (\<exists>j<n. bit v (i + (n + j)))"
    using assms(1) by (simp add: bit_or_iff bit_drop_bit_eq add.assoc add.left_commute)
  also have "\<dots> \<longleftrightarrow> (\<exists>j<m. bit v (i + j))"
  proof
    assume "\<exists>j<m. bit v (i + j)"
    then obtain j where "j < n + n" "bit v (i + j)"
      unfolding assms(2) by blast
    then show "(\<exists>j<n. bit v (i + j)) \<or> (\<exists>j<n. bit v (i + (n + j)))"
      by (cases "j < n") (auto intro: exI [of _ "j - n"])
  qed (auto simp: assms(2) intro: exI [of _ "n + _"] trans_less_add1)
  finally show "bit (w OR drop_bit n w) i \<longleftrightarrow> (\<exists>j<m. bit v (i + j))" .
qed

lemma smear_64:
  fixes v :: u64
  shows "\<forall>i. bit (next_power_of_2 (v + 1) - 1) i \<longleftrightarrow> (\<exists>j<64. bit v (i + j))"
proof -
  have s0: "\<forall>i. bit v i \<longleftrightarrow> (\<exists>j<1. bit v (i + j))" by simp
  note s1 = smear_bit [OF s0, of 2]
  note s2 = smear_bit [OF s1, of 4]
  note s3 = smear_bit [OF s2, of 8]
  note s4 = smear_bit [OF s3, of 16]
  note s5 = smear_bit [OF s4, of 32]
  note s6 = smear_bit [OF s5, of 64]
  show ?thesis
    unfolding next_power_of_2_def Let_def add_diff_cancel_right' by (rule s6) simp_all
qed

lemma next_power_of_2_eq:
  assumes k: "k < 64" and lo: "k = 0 \<or> 2 ^ (k - 1) < unat n" and hi: "0 < unat n" "unat n \<le> 2 ^ k"
  shows "next_power_of_2 n = 2 ^ k"
proof -
  let ?v = "n - 1"
  have uv: "unat ?v = unat n - 1"
    using hi(1) by (intro unat_minus_one) auto
  have above: "\<not> bit ?v i" if "k \<le> i" for i
    using uv hi by (intro not_bit_above [OF _ that]) simp
  have highest: "bit ?v (k - 1)" if "0 < k"
    using that lo hi uv by (intro bit_highest) auto
  have "next_power_of_2 n - 1 = mask k"
  proof (rule bit_word_eqI)
    fix i assume "i < LENGTH(64)"
    have "bit (next_power_of_2 n - 1) i \<longleftrightarrow> (\<exists>j<64. bit ?v (i + j))"
      using smear_64 [of ?v] by simp
    also have "\<dots> \<longleftrightarrow> i < k"
    proof
      assume "i < k"
      then show "\<exists>j<64. bit ?v (i + j)"
        using highest k by (intro exI [of _ "k - 1 - i"]) auto
    qed (use above in \<open>metis le_add1 linorder_not_less order_trans\<close>)
    finally show "bit (next_power_of_2 n - 1) i \<longleftrightarrow> bit (mask k :: u64) i"
      using k by (auto simp: bit_mask_iff)
  qed
  then have "next_power_of_2 n - 1 + 1 = mask k + 1" by simp
  then show ?thesis by (simp add: mask_eq_decr_exp)
qed

lemma exp_and_nonzero: "2 ^ k AND m \<noteq> 0 \<longleftrightarrow> bit (m :: u64) k"
  by (simp add: and_exp_eq_0_iff_not_bit and.commute)

lemma clz_power_2_eq:
  assumes "k < 64"
  shows "clz_power_2 (2 ^ k) = int k"
proof -
  have "k = 0 \<or> k = 1 \<or> k \<in> set [2..<64]"
    using assms unfolding set_upt atLeastLessThan_iff by linarith
  then have "k \<in> set (0 # 1 # [2..<64])"
    by simp
  moreover have "\<forall>k \<in> set (0 # 1 # [2..<64]). clz_power_2 (2 ^ k) = int k"
    unfolding clz_power_2_def Let_def exp_and_nonzero by (simp add: bit_0)
  ultimately show ?thesis
    by (rule bspec [rotated])
qed

lemma calcluate_max_depth_eq:
  assumes "0 < unat n" "unat n \<le> 2 ^ 63"
  shows "calcluate_max_depth n = int (ceillog2 (unat n)) + 1"
proof -
  let ?k = "ceillog2 (unat n)"
  have "?k \<le> 63" using assms by (simp add: ceillog2_le_iff)
  moreover have "?k = 0 \<or> 2 ^ (?k - 1) < unat n"
    using two_power_ceillog2_gt [OF assms(1)] by (cases ?k) auto
  ultimately have "next_power_of_2 n = 2 ^ ?k"
    using assms le_two_power_ceillog2 by (intro next_power_of_2_eq) auto
  with \<open>?k \<le> 63\<close> assms(1) show ?thesis
    by (auto simp: calcluate_max_depth_def clz_power_2_eq)
qed

section \<open>The loop of append\<close>

lemma and_1_eq_0_iff: "(w :: u64) AND 1 = 0 \<longleftrightarrow> even (unat w)"
  using and_exp_eq_0_iff_not_bit [of w 0] bit_word_iff_odd_unat [of w 0] by simp

lemma unat_drop_bit_1: "unat (drop_bit 1 (w :: u64)) = unat w div 2"
  by (simp add: unat_drop_bit_eq drop_bit_eq_div unat_div)

lemma div_pow2_Suc: "(n :: nat) div 2 ^ Suc k = n div 2 ^ k div 2"
  by (metis div_mult2_eq power_Suc2)

lemma odd_mult_power_neq: "odd (a :: nat) \<Longrightarrow> k < D \<Longrightarrow> a * 2 ^ k \<noteq> 2 ^ D"
proof
  assume "odd a" "k < D" "a * 2 ^ k = 2 ^ D"
  then have "a * 2 ^ k = 2 ^ (D - k) * 2 ^ k"
    by (simp flip: power_add)
  then have "a = 2 ^ (D - k)"
    by simp
  with \<open>odd a\<close> \<open>k < D\<close> show False
    by simp
qed

lemma append_loop_correct:
  fixes xs x H
  defines "h \<equiv> hash_node H" and "ys \<equiv> xs @ [x]" and "n \<equiv> length xs"
  assumes "n < 2 ^ D" and "k + r = D" and "m = n div 2 ^ k" and "unat index = m"
    and "top_node = tree_node h k m ys"
    and "active = perfect_roots h xs k m @ junk"
    and "\<not> partial \<longrightarrow> Suc n = Suc m * 2 ^ k"
  shows "\<exists>updated'.
    append_loop H partial (int r) index top_node active updated = Some (tree_node h D 0 ys, updated') \<and>
    updated' @ [tree_node h D 0 ys] =
      updated @ (if partial then perfect_roots h ys k m @ [tree_node h D 0 ys]
        else perfect_roots h ys k (Suc m) @ (if Suc n = 2 ^ D then [] else [tree_node h D 0 ys]))"
  using assms(5-)
proof (induction r arbitrary: k m partial index top_node active updated)
  case 0
  then have "m = 0" using assms(4) by simp
  with 0 show ?case
    by (subst append_loop.simps) (simp add: perfect_roots_odd)
next
  case (Suc r)
  have len: "length ys = Suc n" by (simp add: ys_def n_def)
  have m2: "m div 2 = n div 2 ^ Suc k" using Suc.prems(2) by (simp only: div_pow2_Suc)
  have idx: "unat (drop_bit 1 index) = m div 2"
    using Suc.prems(3) by (simp only: unat_drop_bit_1)
  have D: "Suc k + r = D" using Suc.prems(1) by simp
  have mk: "m \<le> n div 2 ^ k" using Suc.prems(2) by simp
  note step = Suc.IH [OF D m2 idx]
  show ?case
  proof (cases "even m")
    case True
    then have even_idx: "index AND 1 = 0" using Suc.prems(3) by (simp add: and_1_eq_0_iff)
    have "2 * (m div 2) = m" using True by simp
    then have top': "H (make_canonical_pair top_node top_node) = tree_node h (Suc k) (m div 2) ys"
      using tree_node_Suc [OF len, of "m div 2" k h] Suc.prems(2,4)
      by (simp add: hash_node_def [symmetric] h_def)
    have act': "active = perfect_roots h xs (Suc k) (m div 2) @ junk"
      using Suc.prems(5) True by (simp add: perfect_roots_even)
    have "Suc n \<noteq> 2 ^ D" if "\<not> partial"
      using that True Suc.prems(6) D odd_mult_power_neq [of "Suc m" k D] by simp
    moreover obtain updated' where
      "append_loop H True (int r) (drop_bit 1 index) (H (make_canonical_pair top_node top_node)) active
         (if partial then updated else updated @ [top_node]) = Some (tree_node h D 0 ys, updated')"
      "updated' @ [tree_node h D 0 ys] = (if partial then updated else updated @ [top_node])
         @ perfect_roots h ys (Suc k) (m div 2) @ [tree_node h D 0 ys]"
      using step [OF top' act', of True] by auto
    ultimately show ?thesis
      using even_idx True Suc.prems(4)
      by (subst append_loop.simps) (auto simp: perfect_roots_even perfect_roots_odd)
  next
    case False
    then have odd_idx: "index AND 1 \<noteq> 0" using Suc.prems(3) by (simp add: and_1_eq_0_iff)
    let ?l = "tree_node h k (m - 1) xs" and ?active' = "perfect_roots h xs (Suc k) (m div 2) @ junk"
    have m0: "0 < m" using False by (cases m) auto
    have m1: "2 * (m div 2) = m - 1" "Suc (2 * (m div 2)) = m" using False by presburger+
    have "m * 2 ^ k \<le> n" using Suc.prems(2) by (simp add: div_times_less_eq_dividend)
    then have left: "?l = tree_node h k (m - 1) ys"
      unfolding ys_def using m0 by (simp add: tree_node_append n_def)
    have act': "active = ?l # ?active'"
      using Suc.prems(5) False by (simp add: perfect_roots_odd)
    have top': "H (make_canonical_pair ?l top_node) = tree_node h (Suc k) (m div 2) ys"
      using tree_node_Suc [OF len, of "m div 2" k h] Suc.prems(2,4) m1 m0 left
      by (simp add: hash_node_def [symmetric] h_def)
    have full': "\<not> partial \<longrightarrow> Suc n = Suc (m div 2) * 2 ^ Suc k"
      using Suc.prems(6) m1(2) by (metis (no_types) mult.assoc mult.commute mult_Suc_right power_Suc add_2_eq_Suc)
    obtain updated' where
      "append_loop H partial (int r) (drop_bit 1 index) (H (make_canonical_pair ?l top_node)) ?active'
         (if partial then updated @ [?l] else updated) = Some (tree_node h D 0 ys, updated')"
      "updated' @ [tree_node h D 0 ys] = (if partial then updated @ [?l] else updated)
        @ (if partial then perfect_roots h ys (Suc k) (m div 2) @ [tree_node h D 0 ys]
        else perfect_roots h ys (Suc k) (Suc (m div 2)) @ (if Suc n = 2 ^ D then [] else [tree_node h D 0 ys]))"
      using step [OF top' refl full'] by blast
    then show ?thesis
      using odd_idx False act' left
      by (subst append_loop.simps) (auto simp: perfect_roots_even perfect_roots_odd)
  qed
qed
lemma merkle_tree_node:
  assumes "ids \<noteq> []"
  shows "merkle H d0 ids = tree_node (hash_node H) (ceillog2 (length ids)) 0 ids"
proof -
  let ?L = "(level_up (hash_node H) ^^ ceillog2 (length ids)) ids"
  obtain n where n: "length ids = Suc n" using assms by (cases ids) auto
  then have "length ?L = Suc (n div 2 ^ ceillog2 (length ids))" by (rule length_level)
  then have "?L \<noteq> []" by (metis list.size(3) nat.distinct(1))
  with assms show ?thesis
    by (simp add: merkle_def merkle_loop_level tree_node_def hd_conv_nth)
qed

definition merkle_rep :: "pair_hash \<Rightarrow> incremental_merkle \<Rightarrow> digest_type list \<Rightarrow> bool" where
  "merkle_rep H m ids \<longleftrightarrow>
     unat (node_count m) = length ids \<and>
     active_nodes m =
       perfect_roots (hash_node H) ids 0 (length ids) @
       (if ids = [] \<or> length ids = 2 ^ ceillog2 (length ids) then []
        else [tree_node (hash_node H) (ceillog2 (length ids)) 0 ids])"

lemma merkle_rep_empty: "merkle_rep H empty_merkle []"
  by (simp add: merkle_rep_def empty_merkle_def)

lemma merkle_rep_append:
  assumes rep: "merkle_rep H m ids" and len: "length ids < 2 ^ 63"
  obtains m' where "append_node H d m = Some m'" "merkle_rep H m' (ids @ [d])"
proof -
  let ?D = "ceillog2 (Suc (length ids))" and ?h = "hash_node H"
  have cnt: "unat (node_count m + 1) = Suc (length ids)"
    using rep len by (simp add: merkle_rep_def unat_word_ariths)
  then have depth: "calcluate_max_depth (node_count m + 1) - 1 = int ?D"
    using calcluate_max_depth_eq [of "node_count m + 1"] len by simp
  have D: "length ids < 2 ^ ?D"
    using le_two_power_ceillog2 [of "Suc (length ids)"] by linarith
  obtain junk where act: "active_nodes m = perfect_roots ?h ids 0 (length ids) @ junk"
    using rep by (simp add: merkle_rep_def)
  obtain updated where upd:
    "append_loop H False (int ?D) (node_count m) d (active_nodes m) [] =
       Some (tree_node ?h ?D 0 (ids @ [d]), updated)"
    "updated @ [tree_node ?h ?D 0 (ids @ [d])] = perfect_roots ?h (ids @ [d]) 0 (Suc (length ids)) @
       (if Suc (length ids) = 2 ^ ?D then [] else [tree_node ?h ?D 0 (ids @ [d])])"
    using append_loop_correct [where xs = ids and x = d and H = H and D = ?D and k = 0 and r = ?D and
        partial = False and m = "length ids" and index = "node_count m" and active = "active_nodes m"
        and junk = junk and top_node = d and updated = "[]"] D act rep
    by (auto simp: merkle_rep_def tree_node_def nth_append)
  let ?m' = "\<lparr>node_count = node_count m + 1, active_nodes = updated @ [tree_node ?h ?D 0 (ids @ [d])]\<rparr>"
  have "append_node H d m = Some ?m'"
    using upd(1) by (simp add: append_node_def depth)
  moreover have "merkle_rep H ?m' (ids @ [d])"
    using upd(2) cnt by (simp add: merkle_rep_def)
  ultimately show ?thesis by (rule that)
qed

lemma perfect_roots_power: "perfect_roots h xs j (2 ^ k) = [tree_node h (j + k) 0 xs]"
proof (induction k arbitrary: j)
  case (Suc k)
  then show ?case
    by (simp add: perfect_roots_even)
qed (simp add: perfect_roots_odd)

lemma merkle_rep_last:
  assumes "merkle_rep H m ids" and "ids \<noteq> []"
  shows "last (active_nodes m) = merkle H d0 ids"
proof (cases "length ids = 2 ^ ceillog2 (length ids)")
  case True
  have "perfect_roots (hash_node H) ids 0 (length ids) = [merkle H d0 ids]"
    unfolding merkle_tree_node [OF assms(2)]
    by (subst True) (simp only: perfect_roots_power add_0)
  moreover have "active_nodes m = perfect_roots (hash_node H) ids 0 (length ids)"
    using assms(1) unfolding merkle_rep_def if_P [OF disjI2 [OF True]] by simp
  ultimately show ?thesis
    by simp
next
  case False
  with assms show ?thesis
    by (simp add: merkle_rep_def merkle_tree_node)
qed

lemma merkle_rep_root:
  assumes "merkle_rep H m ids"
  shows "get_root d0 m = merkle H d0 ids"
proof (cases "ids = []")
  case True
  with assms show ?thesis
    by (simp add: merkle_rep_def get_root_def merkle_def unat_eq_0)
next
  case False
  then have "node_count m > 0"
    using assms by (auto simp: merkle_rep_def word_gt_0)
  with False assms show ?thesis
    by (simp add: get_root_def merkle_rep_last)
qed

section \<open>Accumulators of a root\<close>

text \<open>
  What the block header state relies on when it appends block ids to \<^verbatim>\<open>blockroot_merkle\<close>: as long as the
  capacity is not exhausted, an append succeeds, and the root is a function of the appended sequence.
\<close>

fun append_all :: "('d \<Rightarrow> 'm \<Rightarrow> 'm option) \<Rightarrow> 'd list \<Rightarrow> 'm \<Rightarrow> 'm option" where
  "append_all app [] m = Some m"
| "append_all app (d # ds) m = (case app d m of None \<Rightarrow> None | Some m' \<Rightarrow> append_all app ds m')"

locale root_accumulator =
  fixes empty_acc :: 'm
    and append_acc :: "'d \<Rightarrow> 'm \<Rightarrow> 'm option"
    and root_acc :: "'m \<Rightarrow> 'd"
    and spec_root :: "'d list \<Rightarrow> 'd"
    and rep :: "'m \<Rightarrow> 'd list \<Rightarrow> bool"
    and capacity :: nat
  assumes rep_empty: "rep empty_acc []"
    and rep_append: "rep m ds \<Longrightarrow> length ds < capacity \<Longrightarrow>
      \<exists>m'. append_acc d m = Some m' \<and> rep m' (ds @ [d])"
    and rep_root: "rep m ds \<Longrightarrow> root_acc m = spec_root ds"
begin

lemma append_all_rep:
  "rep m ds \<Longrightarrow> length ds + length es \<le> capacity \<Longrightarrow>
   \<exists>m'. append_all append_acc es m = Some m' \<and> rep m' (ds @ es)"
proof (induction es arbitrary: m ds)
  case (Cons e es)
  then obtain m' where "append_acc e m = Some m'" "rep m' (ds @ [e])"
    using rep_append [of m ds e] by auto
  with Cons.IH [of m' "ds @ [e]"] Cons.prems show ?case
    by auto
qed simp

lemma append_all_root:
  "length es \<le> capacity \<Longrightarrow>
   \<exists>m. append_all append_acc es empty_acc = Some m \<and> rep m es \<and> root_acc m = spec_root es"
  using append_all_rep [OF rep_empty, of es] by (auto dest: rep_root)

end

interpretation incremental: root_accumulator empty_merkle "append_node H" "get_root d0" "merkle H d0"
  "merkle_rep H" "2 ^ 63" for H d0
proof unfold_locales
  fix m ds d
  assume "merkle_rep H m ds" "length ds < 2 ^ 63"
  then show "\<exists>m'. append_node H d m = Some m' \<and> merkle_rep H m' (ds @ [d])"
    by (rule merkle_rep_append [where d = d]) blast
qed (rule merkle_rep_empty, rule merkle_rep_root)

section \<open>Properties\<close>

lemma canonical_bits:
  "bit (hash0 (make_canonical_left v)) i \<longleftrightarrow> bit (hash0 v) i \<and> i \<noteq> 7"
  "bit (hash0 (make_canonical_right v)) i \<longleftrightarrow> bit (hash0 v) i \<or> i = 7"
proof -
  have l: "(0xFFFFFFFFFFFFFF7F :: u64) = NOT (2 ^ 7)" and r: "(0x80 :: u64) = 2 ^ 7"
    by simp_all
  have "bit (0xFFFFFFFFFFFFFF7F :: u64) i \<longleftrightarrow> i < 64 \<and> i \<noteq> 7"
    unfolding l bit_not_iff bit_exp_iff possible_bit_word by auto
  moreover have "bit (0x80 :: u64) i \<longleftrightarrow> i = 7"
    unfolding r bit_exp_iff possible_bit_word by auto
  ultimately show "bit (hash0 (make_canonical_left v)) i \<longleftrightarrow> bit (hash0 v) i \<and> i \<noteq> 7"
    and "bit (hash0 (make_canonical_right v)) i \<longleftrightarrow> bit (hash0 v) i \<or> i = 7"
    using bit_imp_le_length [of "hash0 v" i]
    by (auto simp: make_canonical_left_def make_canonical_right_def bit_and_iff bit_or_iff)
qed

lemma is_canonical_bit:
  "is_canonical_left v \<longleftrightarrow> \<not> bit (hash0 v) 7"
  "is_canonical_right v \<longleftrightarrow> bit (hash0 v) 7"
  using and_exp_eq_0_iff_not_bit [of "hash0 v" 7]
  by (simp_all add: is_canonical_left_def is_canonical_right_def)

lemma length_perfect_roots: "m < 2 ^ k \<Longrightarrow> length (perfect_roots h xs j m) \<le> k"
proof (induction k arbitrary: j m)
  case (Suc k)
  then have "length (perfect_roots h xs (Suc j) (m div 2)) \<le> k"
    by simp
  then show ?case
    by (cases "even m") (simp_all add: perfect_roots_even perfect_roots_odd)
qed simp

lemma merkle_rep_length:
  assumes "merkle_rep H m ids" and "ids \<noteq> []"
  shows "length (active_nodes m) \<le> Suc (ceillog2 (length ids))"
proof (cases "length ids = 2 ^ ceillog2 (length ids)")
  case True
  have "length (perfect_roots (hash_node H) ids 0 (length ids)) \<le> Suc (ceillog2 (length ids))"
    by (rule length_perfect_roots) (subst True, simp)
  moreover have "active_nodes m = perfect_roots (hash_node H) ids 0 (length ids)"
    using assms(1) unfolding merkle_rep_def if_P [OF disjI2 [OF True]] by simp
  ultimately show ?thesis by simp
next
  case False
  then have "length ids < 2 ^ ceillog2 (length ids)"
    using le_two_power_ceillog2 [of "length ids"] by linarith
  then have "length (perfect_roots (hash_node H) ids 0 (length ids)) \<le> ceillog2 (length ids)"
    by (rule length_perfect_roots)
  with assms False show ?thesis by (simp add: merkle_rep_def)
qed

text \<open>A concrete combining function and concrete digests, for the instances below.\<close>

definition sample_hash :: pair_hash where
  "sample_hash p = \<lparr>hash0 = 3 * hash0 (fst p) + hash0 (snd p), hash1 = hash0 (snd p), hash2 = 2, hash3 = 3\<rparr>"

definition sample_digest :: "u64 \<Rightarrow> digest_type" where
  "sample_digest n = \<lparr>hash0 = n, hash1 = n, hash2 = n, hash3 = n\<rparr>"

text \<open>
  C8: appending the digests one by one never reads past the stored active nodes, and the root kept
  by the incremental tree is the root that \<^verbatim>\<open>merkle\<close> computes level by level from all of them. The
  bound is that of the 64-bit depth computation.
\<close>

theorem incremental_root_is_merkle:
  assumes "length ids \<le> 2 ^ 63"
  shows "\<exists>m. append_all (append_node H) ids empty_merkle = Some m \<and>
    unat (node_count m) = length ids \<and> get_root d0 m = merkle H d0 ids"
  using incremental.append_all_root [OF assms, of H d0] by (auto simp: merkle_rep_def)

theorem incremental_root_is_merkle_witness:
  "length (map sample_digest [1, 2, 3]) \<le> 2 ^ 63 \<and>
   (\<exists>m. append_all (append_node sample_hash) (map sample_digest [1, 2, 3]) empty_merkle = Some m \<and>
     unat (node_count m) = length (map sample_digest [1, 2, 3]) \<and>
     get_root (sample_digest 0) m = merkle sample_hash (sample_digest 0) (map sample_digest [1, 2, 3]))"
  using incremental_root_is_merkle [of "map sample_digest [1, 2, 3]" sample_hash "sample_digest 0"]
  by simp

text \<open>
  The active nodes stored after an append never exceed the \<^verbatim>\<open>max_depth\<close> entries reserved for them.
\<close>

theorem append_keeps_reserved_size:
  assumes "0 < length ids" and "length ids \<le> 2 ^ 63"
    and "append_all (append_node H) ids empty_merkle = Some m"
  shows "int (length (active_nodes m)) \<le> calcluate_max_depth (node_count m)"
proof -
  have rep: "merkle_rep H m ids"
    using incremental.append_all_root [OF assms(2), of H] assms(3) by auto
  then have "unat (node_count m) = length ids" by (simp add: merkle_rep_def)
  then show ?thesis
    using merkle_rep_length [OF rep] assms by (simp add: calcluate_max_depth_eq)
qed

theorem append_keeps_reserved_size_witness:
  "\<exists>m. append_all (append_node sample_hash) (map sample_digest [1, 2, 3]) empty_merkle = Some m \<and>
     int (length (active_nodes m)) \<le> calcluate_max_depth (node_count m)"
proof -
  obtain m where "append_all (append_node sample_hash) (map sample_digest [1, 2, 3]) empty_merkle = Some m"
    using incremental.append_all_root [of "map sample_digest [1, 2, 3]" sample_hash] by auto
  with append_keeps_reserved_size [of "map sample_digest [1, 2, 3]" sample_hash m] show ?thesis
    by simp
qed

text \<open>
  The depth is one more than the least \<open>d\<close> with \<open>n \<le> 2 ^ d\<close>; in particular \<^verbatim>\<open>clz_power_2\<close> yields the
  exponent of the power of two it is given.
\<close>

theorem max_depth_is_ceillog2:
  assumes "0 < unat n" and "unat n \<le> 2 ^ 63"
  shows "calcluate_max_depth n = int (ceillog2 (unat n)) + 1"
  using assms by (rule calcluate_max_depth_eq)
theorem max_depth_is_ceillog2_witness:
  "0 < unat (5 :: u64) \<and> unat (5 :: u64) \<le> 2 ^ 63 \<and> calcluate_max_depth 5 = int (ceillog2 5) + 1"
  using max_depth_is_ceillog2 [of 5] by simp

text \<open>
  In the pair that is hashed, the first bit of the last byte of the leading word tells the side: the left
  component is canonical left, the right one canonical right, no digest is both, and every other bit
  is kept.
\<close>

theorem canonical_pair_sides:
  "make_canonical_pair l r = (l', r') \<longleftrightarrow>
     is_canonical_left l' \<and> is_canonical_right r' \<and>
     hash1 l' = hash1 l \<and> hash2 l' = hash2 l \<and> hash3 l' = hash3 l \<and>
     hash1 r' = hash1 r \<and> hash2 r' = hash2 r \<and> hash3 r' = hash3 r \<and>
     (\<forall>i. i = 7 \<or> (bit (hash0 l') i \<longleftrightarrow> bit (hash0 l) i) \<and> (bit (hash0 r') i \<longleftrightarrow> bit (hash0 r) i))"
  (is "?lhs \<longleftrightarrow> ?rhs")
proof
  assume ?lhs
  then show ?rhs
    by (auto simp: make_canonical_pair_def is_canonical_bit canonical_bits)
      (auto simp: make_canonical_left_def make_canonical_right_def)
next
  assume rhs: ?rhs
  then have "hash0 l' = hash0 (make_canonical_left l)" "hash0 r' = hash0 (make_canonical_right r)"
    by (intro bit_word_eqI; unfold canonical_bits is_canonical_bit; metis)+
  with rhs show ?lhs
    by (simp add: make_canonical_pair_def make_canonical_left_def make_canonical_right_def
        digest_type.equality)
qed

end
