(* ===== verification/Names.thy ===== *)
theory Names
  imports Chain_Prelude
begin

text \<open>
  Account, action and permission names: \<^verbatim>\<open>name.hpp\<close> and \<^verbatim>\<open>name.cpp\<close> pack up to thirteen characters into 64
  bits, twelve slots of five bits and one of four. The results: decoding and encoding are inverse
  (up to trailing dots, which carry no bits), and the validity test accepts exactly the strings
  that encode.
\<close>

unbundle bit_operations_syntax

section \<open>Encoding and decoding\<close>

definition char_to_symbol :: "char \<Rightarrow> (chain_exception, u64) result" where
  "char_to_symbol c =
     (let n = (of_char c :: nat)
      in if 97 \<le> n \<and> n \<le> 122 then Inr (of_nat ((n - 97) + 6))
         else if 49 \<le> n \<and> n \<le> 53 then Inr (of_nat ((n - 49) + 1))
         else if c = CHR ''.'' then Inr 0
         else Inl Name_type_exception)"

text \<open>The \<^verbatim>\<open>while (--i >= 0)\<close> loop, from the last full-range character to the first.\<close>

fun encode_chars :: "string \<Rightarrow> nat \<Rightarrow> u64 \<Rightarrow> (chain_exception, u64) result" where
  "encode_chars str 0 n = Inr n"
| "encode_chars str (Suc i) n =
     rbind (char_to_symbol (str ! i)) (\<lambda>v. encode_chars str i (n OR push_bit (64 - 5 * (i + 1)) v))"

definition string_to_uint64_t :: "string \<Rightarrow> (chain_exception, u64) result" where
  "string_to_uint64_t str =
     rbind (eos_assert (length str \<le> 13) Name_type_exception) (\<lambda>_.
     rbind (if length str \<ge> 13
            then rbind (char_to_symbol (str ! 12)) (\<lambda>n.
                 rbind (eos_assert (n \<le> 0x0F) Name_type_exception) (\<lambda>_. Inr (12, n)))
            else Inr (length str, 0)) (\<lambda>(i, n).
     encode_chars str i n))"

definition charmap :: string where
  "charmap = ''.12345abcdefghijklmnopqrstuvwxyz''"

function to_string_loop :: "nat \<Rightarrow> u64 \<Rightarrow> string \<Rightarrow> string" where
  "to_string_loop i tmp str =
     (if i \<le> 12
      then to_string_loop (Suc i) (drop_bit (if i = 0 then 4 else 5) tmp)
             (str[12 - i := charmap ! unat (tmp AND (if i = 0 then 0x0f else 0x1f))])
      else str)"
  by pat_completeness auto
termination
  by (relation "measure (\<lambda>(i, tmp, str). 13 - i)") auto

declare to_string_loop.simps [simp del]

text \<open>\<^verbatim>\<open>boost::algorithm::trim_right_if\<close> for the dot.\<close>

definition trim_right :: "string \<Rightarrow> string" where
  "trim_right str = rev (dropWhile (\<lambda>c. c = CHR ''.'') (rev str))"

definition to_string :: "name \<Rightarrow> string" where
  "to_string value = trim_right (to_string_loop 0 value (replicate 13 CHR ''.''))"

definition is_string_valid_name :: "string \<Rightarrow> bool" where
  "is_string_valid_name str =
     (let slen = length str
      in if slen > 13 then False
         else let len = (if slen \<le> 12 then slen else 12);
                  ok = (\<lambda>c hi. let n = (of_char c :: nat)
                     in (97 \<le> n \<and> n \<le> hi) \<or> (49 \<le> n \<and> n \<le> 53) \<or> c = CHR ''.'')
              in if \<not> list_all (\<lambda>c. ok c 122) (take len str) then False
                 else if slen = 13 then ok (str ! 12) 106
                 else True)"

section \<open>Symbols and slots\<close>

lemma charmap_symbols:
  "map char_to_symbol charmap = map (\<lambda>k. Inr (of_nat k)) [0..<32]"
  by (simp add: charmap_def char_to_symbol_def upt_rec)

lemma char_to_symbol_charmap:
  assumes "char_to_symbol c = Inr v"
  shows "unat v < 32 \<and> charmap ! unat v = c"
proof -
  let ?n = "of_char c :: nat"
  have c: "c = char_of ?n" by simp
  have "\<forall>n \<in> set [97..<123]. charmap ! (n - 91) = char_of (n :: nat)"
    by (simp add: charmap_def char_of_def bit_0)
  then have az: "charmap ! (n - 91) = char_of n" if "97 \<le> n \<and> n \<le> 122" for n :: nat
    using that unfolding set_upt by simp
  have "\<forall>n \<in> set [49..<54]. charmap ! (n - 48) = char_of (n :: nat)"
    by (simp add: charmap_def char_of_def bit_0)
  then have d15: "charmap ! (n - 48) = char_of n" if "49 \<le> n \<and> n \<le> 53" for n :: nat
    using that unfolding set_upt by simp
  consider "97 \<le> ?n \<and> ?n \<le> 122 \<and> v = of_nat (?n - 91)" | "49 \<le> ?n \<and> ?n \<le> 53 \<and> v = of_nat (?n - 48)"
    | "c = CHR ''.'' \<and> v = 0"
    using assms by (auto simp: char_to_symbol_def Let_def split: if_splits)
  then show ?thesis
  proof cases
    case 1
    then have "unat v = ?n - 91" by (auto simp: unat_of_nat simp del: of_nat_diff)
    with 1 c az [of ?n] show ?thesis by auto
  next
    case 2
    then have "unat v = ?n - 48" by (auto simp: unat_of_nat simp del: of_nat_diff)
    with 2 c d15 [of ?n] show ?thesis by auto
  next
    case 3
    then show ?thesis by (simp add: charmap_def)
  qed
qed


text \<open>
  Position \<open>q\<close> of a name occupies \<open>slot_width q\<close> bits from bit \<open>slot_shift q\<close> on; \<open>name_bit s j\<close> says which
  bits the characters of \<open>s\<close> set.
\<close>

definition char_sym :: "char \<Rightarrow> u64" where
  "char_sym c = (case char_to_symbol c of Inl _ \<Rightarrow> 0 | Inr v \<Rightarrow> v)"

definition slot_shift :: "nat \<Rightarrow> nat" where
  "slot_shift q = (if q = 12 then 0 else 59 - 5 * q)"

definition slot_width :: "nat \<Rightarrow> nat" where
  "slot_width q = (if q = 12 then 4 else 5)"

definition slot :: "nat \<Rightarrow> u64 \<Rightarrow> u64" where
  "slot q v = take_bit (slot_width q) (drop_bit (slot_shift q) v)"

definition name_bit :: "string \<Rightarrow> nat \<Rightarrow> bool" where
  "name_bit s j \<longleftrightarrow> (\<exists>q<length s. slot_shift q \<le> j \<and> bit (char_sym (s ! q)) (j - slot_shift q))"

definition encodable :: "string \<Rightarrow> bool" where
  "encodable s \<longleftrightarrow> length s \<le> 13 \<and>
     (\<forall>q<length s. char_to_symbol (s ! q) \<noteq> Inl Name_type_exception \<and> unat (char_sym (s ! q)) < 2 ^ slot_width q)"

lemma char_to_symbol_cases:
  obtains "char_to_symbol c = Inl Name_type_exception" | "char_to_symbol c = Inr (char_sym c)" "unat (char_sym c) < 32"
proof (cases "char_to_symbol c")
  case (Inl e)
  then have "e = Name_type_exception" by (auto simp: char_to_symbol_def Let_def split: if_splits)
  with Inl that show thesis by simp
next
  case (Inr v)
  with that char_to_symbol_charmap [OF Inr] show thesis by (simp add: char_sym_def)
qed

lemma slots_disjoint: "q < p \<Longrightarrow> p \<le> 12 \<Longrightarrow> slot_shift p + slot_width p \<le> slot_shift q"
  by (auto simp: slot_shift_def slot_width_def)

lemma slots_cover: "j < 64 \<Longrightarrow> \<exists>p\<le>12. slot_shift p \<le> j \<and> j < slot_shift p + slot_width p"
proof (cases "j < 4")
  case False
  assume "j < 64"
  then show ?thesis
    using False by (intro exI [of _ "11 - (j - 4) div 5"]) (auto simp: slot_shift_def slot_width_def; presburger)
qed (auto intro: exI [of _ 12] simp: slot_shift_def slot_width_def)

lemma slots_determine: "(\<And>p. p \<le> 12 \<Longrightarrow> slot p v = slot p w) \<Longrightarrow> v = w"
proof (rule bit_word_eqI)
  fix j assume eq: "\<And>p. p \<le> 12 \<Longrightarrow> slot p v = slot p w" and "j < LENGTH(64)"
  then obtain p where p: "p \<le> 12" "slot_shift p \<le> j" "j - slot_shift p < slot_width p"
    using slots_cover [of j] by auto
  have "bit (slot p v) (j - slot_shift p) = bit (slot p w) (j - slot_shift p)" by (simp add: eq [OF p(1)])
  with p show "bit v j = bit w j" by (simp add: slot_def bit_take_bit_iff bit_drop_bit_eq)
qed

lemma encodable_bit:
  "encodable s \<Longrightarrow> p < length s \<Longrightarrow> bit (char_sym (s ! p)) b \<Longrightarrow> b < slot_width p"
  unfolding encodable_def by (meson linorder_not_le not_bit_above)

lemma slot_of_name_bits:
  assumes bits: "\<And>j. j < 64 \<Longrightarrow> bit v j \<longleftrightarrow> name_bit s j" and ok: "encodable s" and p: "p \<le> 12"
  shows "slot p v = (if p < length s then char_sym (s ! p) else 0)"
proof (rule bit_word_eqI)
  fix b
  have lt: "slot_shift p + b < 64" if "b < slot_width p"
    using p that by (auto simp: slot_shift_def slot_width_def split: if_splits)
  have own: "q = p" if "q < length s" "b < slot_width p" "slot_shift q \<le> slot_shift p + b"
    "bit (char_sym (s ! q)) (slot_shift p + b - slot_shift q)" for q
  proof (rule ccontr)
    assume "q \<noteq> p"
    then consider "q < p" | "p < q" by linarith
    then show False
    proof cases
      case 1
      with slots_disjoint [OF 1 p] that show ?thesis by simp
    next
      case 2
      then have "slot_width q \<le> slot_shift p + b - slot_shift q"
        using slots_disjoint [OF 2] that(1) ok by (simp add: encodable_def)
      moreover have "unat (char_sym (s ! q)) < 2 ^ slot_width q"
        using that(1) ok by (simp add: encodable_def)
      ultimately show ?thesis using that(4) not_bit_above by blast
    qed
  qed
  have "bit (slot p v) b \<longleftrightarrow> b < slot_width p \<and> name_bit s (slot_shift p + b)"
    using bits lt by (auto simp: slot_def bit_take_bit_iff bit_drop_bit_eq)
  also have "\<dots> \<longleftrightarrow> b < slot_width p \<and> p < length s \<and> bit (char_sym (s ! p)) b"
    using own by (auto simp: name_bit_def) (metis add_diff_cancel_left')
  also have "\<dots> \<longleftrightarrow> bit (if p < length s then char_sym (s ! p) else 0) b"
    using encodable_bit [OF ok] by auto
  finally show "bit (slot p v) b \<longleftrightarrow> bit (if p < length s then char_sym (s ! p) else 0) b" .
qed


section \<open>Encoding sets exactly the bits of the characters\<close>

lemma encode_chars_bits:
  "i \<le> 12 \<Longrightarrow> (\<And>q. q < i \<Longrightarrow> char_to_symbol (s ! q) = Inr (char_sym (s ! q))) \<Longrightarrow>
   \<exists>v. encode_chars s i n = Inr v \<and>
     (\<forall>j<64. bit v j \<longleftrightarrow> bit n j \<or> (\<exists>q<i. slot_shift q \<le> j \<and> bit (char_sym (s ! q)) (j - slot_shift q)))"
proof (induction i arbitrary: n)
  case (Suc i)
  let ?n = "n OR push_bit (64 - 5 * (i + 1)) (char_sym (s ! i))"
  have sh: "slot_shift i = 64 - 5 * (i + 1)" using Suc.prems(1) by (simp add: slot_shift_def)
  obtain v where "encode_chars s i ?n = Inr v" and
    v: "\<forall>j<64. bit v j \<longleftrightarrow> bit ?n j \<or> (\<exists>q<i. slot_shift q \<le> j \<and> bit (char_sym (s ! q)) (j - slot_shift q))"
    using Suc.IH [of ?n] Suc.prems by auto
  then have "encode_chars s (Suc i) n = Inr v" using Suc.prems(2) [of i] by simp
  moreover have "\<forall>j<64. bit v j \<longleftrightarrow> bit n j \<or>
      (\<exists>q<Suc i. slot_shift q \<le> j \<and> bit (char_sym (s ! q)) (j - slot_shift q))"
    using v by (auto simp: bit_or_iff bit_push_bit_iff sh less_Suc_eq)
  ultimately show ?case by blast
qed simp

lemma encode_chars_error:
  "(\<exists>q<i. char_to_symbol (s ! q) = Inl Name_type_exception) \<Longrightarrow> encode_chars s i n = Inl Name_type_exception"
proof (induction i arbitrary: n)
  case (Suc i)
  show ?case
  proof (cases rule: char_to_symbol_cases [of "s ! i"])
    case 2
    with Suc show ?thesis by (auto simp: less_Suc_eq)
  qed simp
qed simp

lemma encodable_symbol:
  "encodable s \<Longrightarrow> q < length s \<Longrightarrow> char_to_symbol (s ! q) = Inr (char_sym (s ! q))"
  by (cases rule: char_to_symbol_cases [of "s ! q"]) (auto simp: encodable_def)

lemma encodable_width: "encodable s \<Longrightarrow> q < length s \<Longrightarrow> unat (char_sym (s ! q)) < 2 ^ slot_width q"
  by (simp add: encodable_def)

lemma string_to_uint64_t_encodable:
  assumes "encodable s"
  shows "\<exists>v. string_to_uint64_t s = Inr v \<and> (\<forall>j<64. bit v j \<longleftrightarrow> name_bit s j)"
proof (cases "length s = 13")
  case True
  have 12: "char_to_symbol (s ! 12) = Inr (char_sym (s ! 12))" "unat (char_sym (s ! 12)) < 16"
    using assms True encodable_symbol [of s 12] encodable_width [of s 12] by (simp_all add: slot_width_def)
  then have "char_sym (s ! 12) \<le> 0x0F" by (simp add: word_le_nat_alt)
  moreover obtain v where "encode_chars s 12 (char_sym (s ! 12)) = Inr v" and
    "\<forall>j<64. bit v j \<longleftrightarrow> bit (char_sym (s ! 12)) j \<or>
       (\<exists>q<12. slot_shift q \<le> j \<and> bit (char_sym (s ! q)) (j - slot_shift q))"
    using encode_chars_bits [of 12 s "char_sym (s ! 12)"] encodable_symbol [OF assms] True by auto
  moreover have "(\<exists>q<13. P q) \<longleftrightarrow> P 12 \<or> (\<exists>q<12. P q)" for P :: "nat \<Rightarrow> bool"
    using less_Suc_eq [of _ 12] by auto
  ultimately show ?thesis
    using True 12 by (auto simp: string_to_uint64_t_def name_bit_def slot_shift_def)
next
  case False
  then have "length s \<le> 12" using assms by (auto simp: encodable_def)
  then show ?thesis
    using encode_chars_bits [of "length s" s 0] encodable_symbol [OF assms]
    by (auto simp: string_to_uint64_t_def name_bit_def)
qed

lemma string_to_uint64_t_not_encodable:
  assumes "\<not> encodable s"
  shows "string_to_uint64_t s = Inl Name_type_exception"
proof (cases "length s \<le> 13")
  case True
  with assms obtain q where q: "q < length s"
    "char_to_symbol (s ! q) = Inl Name_type_exception \<or> 2 ^ slot_width q \<le> unat (char_sym (s ! q))"
    by (auto simp: encodable_def not_less)
  show ?thesis
  proof (cases "char_to_symbol (s ! q) = Inl Name_type_exception")
    case err: True
    show ?thesis
    proof (cases "length s = 13")
      case 13: True
      show ?thesis
      proof (cases rule: char_to_symbol_cases [of "s ! 12"])
        case 2
        with err have "q \<noteq> 12" by auto
        with q(1) 13 have "q < 12" by simp
        with err 2 13 encode_chars_error [of 12 s] show ?thesis
          by (auto simp: string_to_uint64_t_def eos_assert_def)
      qed (simp add: string_to_uint64_t_def 13)
    next
      case False
      with True q(1) err encode_chars_error [of "length s" s] show ?thesis
        by (auto simp: string_to_uint64_t_def)
    qed
  next
    case False
    then have "char_to_symbol (s ! q) = Inr (char_sym (s ! q))" "unat (char_sym (s ! q)) < 32"
      by (cases rule: char_to_symbol_cases [of "s ! q"]; simp)+
    with q False have "q = 12" "length s = 13" "\<not> char_sym (s ! 12) \<le> 0x0F"
      using True by (auto simp: slot_width_def word_le_nat_alt split: if_splits)
    with \<open>char_to_symbol (s ! q) = _\<close> show ?thesis
      by (simp add: string_to_uint64_t_def)
  qed
qed (simp add: string_to_uint64_t_def)

section \<open>Decoding reads the slots\<close>

lemma to_string_loop_slots:
  "to_string_loop 0 v (replicate 13 CHR ''.'') = map (\<lambda>p. charmap ! unat (slot p v)) [0..<13]"
proof -
  have m: "w AND 0x1f = take_bit 5 w" "w AND 0x0f = take_bit 4 w" for w :: u64
    by (simp_all add: take_bit_eq_mask mask_eq_decr_exp)
  show ?thesis
    by (simp add: to_string_loop.simps m slot_def slot_shift_def slot_width_def upt_rec numeral_eq_Suc)
qed

lemma charmap_nth:
  assumes "k < 32"
  shows "char_to_symbol (charmap ! k) = Inr (of_nat k)"
proof -
  have "length charmap = 32"
    by (simp add: charmap_def)
  then have "char_to_symbol (charmap ! k) = map char_to_symbol charmap ! k"
    using assms by simp
  then show ?thesis
    using assms by (simp only: charmap_symbols) simp
qed

lemma unat_slot: "unat (slot p v) < 2 ^ slot_width p"
  by (simp only: slot_def unsigned_take_bit_eq take_bit_nat_less_exp)

lemma slot_width_le: "(2 :: nat) ^ slot_width p \<le> 32"
  by (simp add: slot_width_def)

lemma char_sym_slot: "char_to_symbol (charmap ! unat (slot p v)) = Inr (slot p v)"
  "char_sym (charmap ! unat (slot p v)) = slot p v"
proof -
  have "unat (slot p v) < 32"
    using unat_slot [of p v] slot_width_le [of p] by linarith
  then show "char_to_symbol (charmap ! unat (slot p v)) = Inr (slot p v)"
    by (simp add: charmap_nth)
  then show "char_sym (charmap ! unat (slot p v)) = slot p v"
    by (simp add: char_sym_def)
qed

lemma encodable_slots: "encodable (map (\<lambda>p. charmap ! unat (slot p v)) [0..<13])"
  using unat_slot by (auto simp: encodable_def char_sym_slot)

lemma value_of_slots: "string_to_uint64_t (map (\<lambda>p. charmap ! unat (slot p v)) [0..<13]) = Inr v"
proof -
  let ?s = "map (\<lambda>p. charmap ! unat (slot p v)) [0..<13]"
  obtain w where w: "string_to_uint64_t ?s = Inr w" "\<forall>j<64. bit w j \<longleftrightarrow> name_bit ?s j"
    using string_to_uint64_t_encodable [OF encodable_slots] by blast
  have "slot p w = slot p v" if "p \<le> 12" for p
  proof -
    from that have "p < 13" by simp
    then have "?s ! p = charmap ! unat (slot p v)" by (simp del: upt_rec_numeral)
    moreover have "slot p w = (if p < length ?s then char_sym (?s ! p) else 0)"
      using w(2) that by (intro slot_of_name_bits encodable_slots) auto
    ultimately show ?thesis using \<open>p < 13\<close> by (simp add: char_sym_slot)
  qed
  then have "w = v" by (rule slots_determine)
  with w(1) show ?thesis by simp
qed

lemma trim_right_decompose: "\<exists>n. s = trim_right s @ replicate n CHR ''.''"
proof -
  let ?dots = "takeWhile (\<lambda>c. c = CHR ''.'') (rev s)"
  have "replicate (length ?dots) CHR ''.'' = ?dots"
    by (rule replicate_length_same) (auto dest: set_takeWhileD)
  then have "rev ?dots = replicate (length ?dots) CHR ''.''"
    by (metis rev_replicate)
  moreover have "s = trim_right s @ rev ?dots"
    unfolding trim_right_def by (simp flip: rev_append)
  ultimately show ?thesis
    by metis
qed

lemma trim_right_append_dots: "trim_right (s @ replicate n CHR ''.'') = trim_right s"
  by (simp add: trim_right_def dropWhile_append)

lemma char_sym_dot [simp]: "char_sym CHR ''.'' = 0" "char_to_symbol CHR ''.'' = Inr 0"
  by (simp_all add: char_sym_def char_to_symbol_def)

lemma encodable_append_dots:
  "length s + n \<le> 13 \<Longrightarrow> encodable (s @ replicate n CHR ''.'') \<longleftrightarrow> encodable s"
  by (auto simp: encodable_def nth_append)

lemma name_bit_append_dots: "name_bit (s @ replicate n CHR ''.'') j \<longleftrightarrow> name_bit s j"
proof -
  have "char_sym ((s @ replicate n CHR ''.'') ! q) = (if q < length s then char_sym (s ! q) else 0)"
    if "q < length s + n" for q
    using that by (simp add: nth_append)
  then show ?thesis
    unfolding name_bit_def length_append length_replicate
    by (intro iffI; elim exE conjE) (auto split: if_splits intro: trans_less_add1)
qed

lemma string_to_uint64_t_append_dots:
  assumes "length s + n \<le> 13"
  shows "string_to_uint64_t (s @ replicate n CHR ''.'') = string_to_uint64_t s"
proof (cases "encodable s")
  case True
  obtain v where v: "string_to_uint64_t s = Inr v" "\<forall>j<64. bit v j \<longleftrightarrow> name_bit s j"
    using string_to_uint64_t_encodable [OF True] by blast
  moreover obtain w where w: "string_to_uint64_t (s @ replicate n CHR ''.'') = Inr w"
    "\<forall>j<64. bit w j \<longleftrightarrow> name_bit (s @ replicate n CHR ''.'') j"
    using string_to_uint64_t_encodable [of "s @ replicate n CHR ''.''"] True
    unfolding encodable_append_dots [OF assms] by blast
  ultimately have "w = v"
    by (intro bit_word_eqI) (simp add: name_bit_append_dots)
  with v w show ?thesis by simp
next
  case False
  then show ?thesis
    by (simp add: string_to_uint64_t_not_encodable encodable_append_dots [OF assms])
qed

lemma symbol_5_bits:
  "char_to_symbol c \<noteq> Inl Name_type_exception \<longleftrightarrow>
   (97 \<le> (of_char c :: nat) \<and> (of_char c :: nat) \<le> 122) \<or>
   (49 \<le> (of_char c :: nat) \<and> (of_char c :: nat) \<le> 53) \<or> c = CHR ''.''"
  by (auto simp: char_to_symbol_def Let_def)

lemma symbol_4_bits:
  "char_to_symbol c \<noteq> Inl Name_type_exception \<and> unat (char_sym c) < 16 \<longleftrightarrow>
   (97 \<le> (of_char c :: nat) \<and> (of_char c :: nat) \<le> 106) \<or>
   (49 \<le> (of_char c :: nat) \<and> (of_char c :: nat) \<le> 53) \<or> c = CHR ''.''"
proof -
  let ?n = "of_char c :: nat"
  have "unat (char_sym c) = ?n - 91" if "97 \<le> ?n \<and> ?n \<le> 122"
  proof -
    have "char_sym c = of_nat (?n - 91)"
      using that by (simp add: char_sym_def char_to_symbol_def)
    with that show ?thesis by (auto simp: unat_of_nat simp del: of_nat_diff)
  qed
  moreover have "unat (char_sym c) = ?n - 48" if "49 \<le> ?n \<and> ?n \<le> 53"
  proof -
    have "char_sym c = of_nat (?n - 48)"
      using that by (simp add: char_sym_def char_to_symbol_def)
    with that show ?thesis by (auto simp: unat_of_nat simp del: of_nat_diff)
  qed
  ultimately show ?thesis
    unfolding symbol_5_bits by auto
qed

lemma valid_name_iff_encodable: "is_string_valid_name s \<longleftrightarrow> encodable s"
proof -
  have 5: "unat (char_sym c) < 32" for c
    by (cases rule: char_to_symbol_cases [of c]) (auto simp: char_sym_def)
  show ?thesis
  proof (cases "length s = 13")
    case True
    then have "encodable s \<longleftrightarrow> (\<forall>q<12. char_to_symbol (s ! q) \<noteq> Inl Name_type_exception) \<and>
        char_to_symbol (s ! 12) \<noteq> Inl Name_type_exception \<and> unat (char_sym (s ! 12)) < 16"
      using 5 less_Suc_eq [of _ 12] by (auto simp: encodable_def slot_width_def)
    with True show ?thesis
      unfolding symbol_4_bits
      by (auto simp: is_string_valid_name_def Let_def list_all_length symbol_5_bits)
  next
    case False
    then have "encodable s \<longleftrightarrow> length s \<le> 12 \<and> (\<forall>q<length s. char_to_symbol (s ! q) \<noteq> Inl Name_type_exception)"
      using 5 by (auto simp: encodable_def slot_width_def)
    with False show ?thesis
      by (auto simp: is_string_valid_name_def Let_def list_all_length symbol_5_bits)
  qed
qed

section \<open>Properties\<close>

text \<open>
  C30: printing any name and parsing the result gives the name back.
\<close>

theorem name_string_roundtrip: "string_to_uint64_t (to_string n) = Inr n"
proof -
  let ?s = "map (\<lambda>p. charmap ! unat (slot p n)) [0..<13]"
  obtain k where k: "?s = to_string n @ replicate k CHR ''.''"
    using trim_right_decompose [of ?s] unfolding to_string_def to_string_loop_slots by blast
  then have "length (to_string n) + k = length ?s"
    by (metis length_append length_replicate)
  then have "string_to_uint64_t (to_string n @ replicate k CHR ''.'') = string_to_uint64_t (to_string n)"
    by (intro string_to_uint64_t_append_dots) simp
  with k value_of_slots [of n] show ?thesis
    by simp
qed

text \<open>
  Parsing a string and printing the name gives the string back without its trailing dots.
\<close>

theorem string_name_roundtrip:
  assumes "string_to_uint64_t s = Inr n"
  shows "to_string n = trim_right s"
proof -
  have ok: "encodable s"
    using assms string_to_uint64_t_not_encodable by fastforce
  then have len: "length s \<le> 13" by (simp add: encodable_def)
  have bits: "\<And>j. j < 64 \<Longrightarrow> bit n j \<longleftrightarrow> name_bit s j"
    using string_to_uint64_t_encodable [OF ok] assms by auto
  have "charmap ! unat (slot p n) = (s @ replicate (13 - length s) CHR ''.'') ! p" if "p < 13" for p
  proof -
    have "slot p n = (if p < length s then char_sym (s ! p) else 0)"
      using that by (intro slot_of_name_bits bits ok) auto
    moreover have "charmap ! unat (char_sym (s ! p)) = s ! p" if "p < length s"
      using char_to_symbol_charmap [OF encodable_symbol [OF ok that]] by simp
    ultimately show ?thesis
      using that by (simp add: nth_append charmap_def)
  qed
  then have "map (\<lambda>p. charmap ! unat (slot p n)) [0..<13] = s @ replicate (13 - length s) CHR ''.''"
    using len by (intro nth_equalityI) (simp_all del: upt_rec_numeral)
  then show ?thesis
    by (simp only: to_string_def to_string_loop_slots trim_right_append_dots)
qed

theorem string_name_roundtrip_witness:
  "\<exists>n. string_to_uint64_t ''ab.1'' = Inr n \<and> to_string n = trim_right ''ab.1''"
proof -
  have "is_string_valid_name ''ab.1''"
    by (simp add: is_string_valid_name_def)
  then obtain n where "string_to_uint64_t ''ab.1'' = Inr n"
    using string_to_uint64_t_encodable valid_name_iff_encodable by blast
  with string_name_roundtrip [of "''ab.1''" n] show ?thesis
    by blast
qed

text \<open>
  \<^verbatim>\<open>is_string_valid_name\<close> accepts exactly the strings that convert to a name without an exception.
\<close>

theorem valid_name_iff_convertible:
  "is_string_valid_name s \<longleftrightarrow> (\<exists>n. string_to_uint64_t s = Inr n)"
  using string_to_uint64_t_encodable [of s] string_to_uint64_t_not_encodable [of s]
  by (cases "encodable s") (auto simp: valid_name_iff_encodable)
end
