(* ===== verification/Authority.thy ===== *)
theory Authority
  imports Chain_Prelude "HOL-Library.Product_Lexorder" "HOL-Library.Multiset"
begin

text \<open>
  Weighted authorities (\<^verbatim>\<open>authority.hpp\<close>) and the search that decides whether the keys and permissions
  provided with a transaction satisfy one (\<^verbatim>\<open>authority_checker.hpp\<close>). The public key type of the fc
  library is a type variable with a linear order; the function that looks a permission up is the
  parameter \<open>permission_to_authority\<close>.
\<close>

section \<open>Data\<close>

record permission_level =
  actor :: account_name
  permission :: permission_name

record permission_level_weight =
  plw_permission :: permission_level
  plw_weight :: u16

record 'k key_weight =
  kw_key :: 'k
  kw_weight :: u16

record wait_weight =
  ww_wait_sec :: u32
  ww_weight :: u16

record 'k authority =
  threshold :: u32
  keys :: "'k key_weight list"
  accounts :: "permission_level_weight list"
  waits :: "wait_weight list"

text \<open>The order of permission levels and of the weighted entries is that of \<^verbatim>\<open>std::tie\<close>.\<close>

definition level_key :: "permission_level \<Rightarrow> account_name \<times> permission_name" where
  "level_key p = (actor p, permission p)"

definition key_weight_key :: "'k key_weight \<Rightarrow> 'k \<times> u16" where
  "key_weight_key k = (kw_key k, kw_weight k)"

definition permission_level_weight_key ::
    "permission_level_weight \<Rightarrow> (account_name \<times> permission_name) \<times> u16" where
  "permission_level_weight_key p = (level_key (plw_permission p), plw_weight p)"

definition wait_weight_key :: "wait_weight \<Rightarrow> u32 \<times> u16" where
  "wait_weight_key w = (ww_wait_sec w, ww_weight w)"

section \<open>Constructors and validation\<close>

definition authority_of_key :: "'k \<Rightarrow> u32 \<Rightarrow> 'k authority" where
  "authority_of_key k delay_sec =
     (let a = \<lparr>threshold = 1, keys = [\<lparr>kw_key = k, kw_weight = 1\<rparr>], accounts = [], waits = []\<rparr>
      in if delay_sec > 0
         then a\<lparr>threshold := 2, waits := waits a @ [\<lparr>ww_wait_sec = delay_sec, ww_weight = 1\<rparr>]\<rparr>
         else a)"

definition authority_of_permission :: "permission_level \<Rightarrow> u32 \<Rightarrow> 'k authority" where
  "authority_of_permission p delay_sec =
     (let a = \<lparr>threshold = 1, keys = [], accounts = [\<lparr>plw_permission = p, plw_weight = 1\<rparr>], waits = []\<rparr>
      in if delay_sec > 0
         then a\<lparr>threshold := 2, waits := waits a @ [\<lparr>ww_wait_sec = delay_sec, ww_weight = 1\<rparr>]\<rparr>
         else a)"

definition sort_fields :: "('k :: linorder) authority \<Rightarrow> 'k authority" where
  "sort_fields a = a\<lparr>keys := sort_key key_weight_key (keys a),
     accounts := sort_key permission_level_weight_key (accounts a),
     waits := sort_key wait_weight_key (waits a)\<rparr>"

text \<open>
  One of the three loops of \<^verbatim>\<open>validate\<close>: \<open>None\<close> when an entry is not above the one before it, else the
  total weight so far.
\<close>

fun validate_entries :: "('x \<Rightarrow> 'o :: linorder) \<Rightarrow> ('x \<Rightarrow> u16) \<Rightarrow> 'x option \<Rightarrow> 'x list \<Rightarrow> u32 \<Rightarrow> u32 option" where
  "validate_entries ord wt prev [] total_weight = Some total_weight"
| "validate_entries ord wt prev (x # xs) total_weight =
     (if (case prev of None \<Rightarrow> False | Some p \<Rightarrow> \<not> ord p < ord x) then None
      else validate_entries ord wt (Some x) xs (total_weight + ucast (wt x)))"

definition validate :: "('k :: linorder) authority \<Rightarrow> bool" where
  "validate auth =
     (if length (keys auth) + length (accounts auth) + length (waits auth) > 65536 then False
      else if threshold auth = 0 then False
      else (case validate_entries kw_key kw_weight None (keys auth) 0 of
              None \<Rightarrow> False
            | Some w1 \<Rightarrow>
          (case validate_entries (\<lambda>a. level_key (plw_permission a)) plw_weight None (accounts auth) w1 of
              None \<Rightarrow> False
            | Some w2 \<Rightarrow>
          (if waits auth \<noteq> [] \<and> ww_wait_sec (hd (waits auth)) = 0 then False
           else (case validate_entries ww_wait_sec ww_weight None (waits auth) w2 of
              None \<Rightarrow> False
            | Some total_weight \<Rightarrow> total_weight \<ge> threshold auth)))))"

section \<open>The authority checker\<close>

datatype permission_cache_status = Being_evaluated | Permission_unsatisfied | Permission_satisfied

type_synonym permission_cache = "permission_level \<rightharpoonup> permission_cache_status"

text \<open>
  The configuration of an \<^verbatim>\<open>authority_checker\<close>. Its mutable part, \<^verbatim>\<open>_used_keys\<close>, and the permission cache
  are threaded through the search as a pair.
\<close>

record 'k authority_checker =
  permission_to_authority :: "permission_level \<Rightarrow> (chain_exception, 'k authority) result"
  provided_keys :: "'k list"
  provided_permissions :: "permission_level list"
  recursion_depth_limit :: u16

type_synonym checker_state = "bool list \<times> permission_cache"

datatype 'k meta_permission =
    Meta_account permission_level_weight
  | Meta_key "'k key_weight"
  | Meta_wait wait_weight

fun meta_weight :: "'k meta_permission \<Rightarrow> u16" where
  "meta_weight (Meta_account p) = plw_weight p"
| "meta_weight (Meta_key k) = kw_weight k"
| "meta_weight (Meta_wait w) = ww_weight w"

fun meta_priority :: "'k meta_permission \<Rightarrow> int" where
  "meta_priority (Meta_account p) = 1"
| "meta_priority (Meta_key k) = 2"
| "meta_priority (Meta_wait w) = 3"

text \<open>
  The \<^verbatim>\<open>flat_multimap\<close> ordered by \<^verbatim>\<open>std::greater\<close> on weight and priority; entries that compare equal stay
  in the order of their insertion.
\<close>

definition meta_permissions :: "'k authority \<Rightarrow> 'k meta_permission list" where
  "meta_permissions a =
     sort_key (\<lambda>m. (- uint (meta_weight m), - meta_priority m))
       (map Meta_account (accounts a) @ map Meta_key (keys a) @ map Meta_wait (waits a))"

definition permission_status_in_cache :: "permission_cache \<Rightarrow> permission_level \<Rightarrow> permission_cache_status option" where
  "permission_status_in_cache perms level =
     (case perms level of
        Some st \<Rightarrow> Some st
      | None \<Rightarrow> perms \<lparr>actor = actor level, permission = 0\<rparr>)"

definition initialize_permission_cache :: "permission_level list \<Rightarrow> permission_cache" where
  "initialize_permission_cache ps = (\<lambda>p. if p \<in> set ps then Some Permission_satisfied else None)"

fun index_of :: "'a \<Rightarrow> 'a list \<Rightarrow> nat option" where
  "index_of x [] = None"
| "index_of x (y # ys) = (if y = x then Some 0 else map_option Suc (index_of x ys))"

text \<open>
  \<^verbatim>\<open>weight_tally_visitor::operator()\<close> for each kind of entry. The argument \<open>nested\<close> is the nested call of
  \<^verbatim>\<open>satisfied\<close>, present when the recursion depth is below the limit.
\<close>

fun visit :: "'k authority_checker \<Rightarrow>
    ('k authority \<Rightarrow> checker_state \<Rightarrow> (chain_exception, bool \<times> checker_state) result) option \<Rightarrow>
    'k meta_permission \<Rightarrow> u32 \<Rightarrow> checker_state \<Rightarrow> (chain_exception, u32 \<times> checker_state) result" where
  "visit c nested (Meta_wait w) total_weight s = Inr (total_weight, s)"
| "visit c nested (Meta_key k) total_weight (used, cache) =
     (case index_of (kw_key k) (provided_keys c) of
        None \<Rightarrow> Inr (total_weight, (used, cache))
      | Some i \<Rightarrow> Inr (total_weight + ucast (kw_weight k), (used[i := True], cache)))"
| "visit c nested (Meta_account p) total_weight (used, cache) =
     (case permission_status_in_cache cache (plw_permission p) of
        None \<Rightarrow>
          (case nested of
             None \<Rightarrow> Inr (total_weight, (used, cache))
           | Some sat \<Rightarrow>
             (case permission_to_authority c (plw_permission p) of
                Inl e \<Rightarrow> if e = Permission_query_exception then Inr (total_weight, (used, cache)) else Inl e
              | Inr auth \<Rightarrow>
                  rbind (sat auth (used, cache(plw_permission p \<mapsto> Being_evaluated)))
                    (\<lambda>(r, (used', cache')).
                       if r
                       then Inr (total_weight + ucast (plw_weight p),
                              (used', cache'(plw_permission p \<mapsto> Permission_satisfied)))
                       else Inr (total_weight, (used', cache'(plw_permission p \<mapsto> Permission_unsatisfied))))))
      | Some st \<Rightarrow>
          if st = Permission_satisfied then Inr (total_weight + ucast (plw_weight p), (used, cache))
          else Inr (total_weight, (used, cache)))"

text \<open>The loop over the sorted entries, which returns as soon as the threshold is reached.\<close>

fun visit_all :: "'k authority_checker \<Rightarrow>
    ('k authority \<Rightarrow> checker_state \<Rightarrow> (chain_exception, bool \<times> checker_state) result) option \<Rightarrow>
    u32 \<Rightarrow> 'k meta_permission list \<Rightarrow> u32 \<Rightarrow> checker_state \<Rightarrow> (chain_exception, bool \<times> checker_state) result" where
  "visit_all c nested thr [] total_weight s = Inr (False, s)"
| "visit_all c nested thr (m # ms) total_weight s =
     rbind (visit c nested m total_weight s) (\<lambda>(total_weight', s').
       if total_weight' \<ge> thr then Inr (True, s') else visit_all c nested thr ms total_weight' s')"

text \<open>
  The private \<^verbatim>\<open>satisfied\<close> with its recursion depth. The \<^verbatim>\<open>KeyReverter\<close> restores the used keys unless the
  authority was satisfied; the cache is not restored.
\<close>

function satisfied_at :: "'k authority_checker \<Rightarrow> u16 \<Rightarrow> 'k authority \<Rightarrow> checker_state \<Rightarrow>
    (chain_exception, bool \<times> checker_state) result" where
  "satisfied_at c depth auth s =
     rbind
       (visit_all c
          (if depth < recursion_depth_limit c then Some (satisfied_at c (depth + 1)) else None)
          (threshold auth) (meta_permissions auth) 0 s)
       (\<lambda>(r, (used, cache)). Inr (r, (if r then used else fst s, cache)))"
  by pat_completeness auto
termination
proof (relation "measure (\<lambda>(c, depth, auth, s). unat (recursion_depth_limit c) - unat depth)")
  fix c :: "'k authority_checker" and depth :: u16 and auth :: "'k authority" and s s' auth'
  assume lt: "depth < recursion_depth_limit c"
  then have "unat (depth + 1) = unat depth + 1"
    by (simp add: unat_plus_1)
  with lt show "((c, depth + 1, auth', s'), (c, depth, auth, s))
      \<in> measure (\<lambda>(c, depth, auth, s). unat (recursion_depth_limit c) - unat depth)"
    by (simp add: word_less_nat_alt)
qed simp

declare satisfied_at.simps [simp del]

definition make_auth_checker :: "(permission_level \<Rightarrow> (chain_exception, 'k authority) result) \<Rightarrow> u16 \<Rightarrow>
    'k list \<Rightarrow> permission_level list \<Rightarrow> 'k authority_checker \<times> bool list" where
  "make_auth_checker pta limit pkeys pperms =
     (\<lparr>permission_to_authority = pta, provided_keys = pkeys, provided_permissions = pperms,
       recursion_depth_limit = limit\<rparr>, replicate (length pkeys) False)"

text \<open>
  The two public overloads of \<^verbatim>\<open>satisfied\<close>, for a permission level and for an authority. \<^verbatim>\<open>cached_perms\<close> is a
  cache kept by the caller, or \<open>None\<close> for a fresh one.
\<close>

definition satisfied_permission :: "'k authority_checker \<Rightarrow> permission_level \<Rightarrow> permission_cache option \<Rightarrow>
    bool list \<Rightarrow> (chain_exception, bool \<times> checker_state) result" where
  "satisfied_permission c perm cached_perms used =
     (let cache = (case cached_perms of None \<Rightarrow> initialize_permission_cache (provided_permissions c)
                   | Some cp \<Rightarrow> cp)
      in rbind (visit c (if 0 < recursion_depth_limit c then Some (satisfied_at c 1) else None)
                  (Meta_account \<lparr>plw_permission = perm, plw_weight = 1\<rparr>) 0 (used, cache))
           (\<lambda>(w, s). Inr (w > 0, s)))"

definition satisfied_authority :: "'k authority_checker \<Rightarrow> 'k authority \<Rightarrow> permission_cache option \<Rightarrow>
    bool list \<Rightarrow> (chain_exception, bool \<times> checker_state) result" where
  "satisfied_authority c auth cached_perms used =
     (let cache = (case cached_perms of None \<Rightarrow> initialize_permission_cache (provided_permissions c)
                   | Some cp \<Rightarrow> cp)
      in satisfied_at c 0 auth (used, cache))"

definition all_keys_used :: "bool list \<Rightarrow> bool" where
  "all_keys_used used = list_all (\<lambda>b. b) used"

definition filter_data_by_marker :: "'a list \<Rightarrow> 'm list \<Rightarrow> 'm \<Rightarrow> 'a list" where
  "filter_data_by_marker xs markers marker = map snd (filter (\<lambda>t. fst t = marker) (zip markers xs))"

definition used_keys :: "'k authority_checker \<Rightarrow> bool list \<Rightarrow> 'k set" where
  "used_keys c used = set (filter_data_by_marker (provided_keys c) used True)"

definition unused_keys :: "'k authority_checker \<Rightarrow> bool list \<Rightarrow> 'k set" where
  "unused_keys c used = set (filter_data_by_marker (provided_keys c) used False)"

subsection \<open>What validate accepts\<close>

lemma sorted_wrt_less_Cons2:
  "sorted_wrt (<) (x # y # zs) \<longleftrightarrow> x < (y :: 'a :: order) \<and> sorted_wrt (<) (y # zs)"
  by (auto intro: less_trans)

lemma validate_entries_eq:
  "validate_entries ord wt prev xs t =
     (if sorted_wrt (<) (map ord (case prev of None \<Rightarrow> xs | Some p \<Rightarrow> p # xs))
      then Some (t + (\<Sum>x\<leftarrow>xs. ucast (wt x))) else None)"
proof (induction ord wt prev xs t rule: validate_entries.induct)
  case (2 ord wt prev x xs total_weight)
  then show ?case
    by (cases prev) (auto simp: add.assoc sorted_wrt_less_Cons2 simp del: sorted_wrt.simps)
qed (auto split: option.split)

definition weight_sum :: "('x \<Rightarrow> u16) \<Rightarrow> 'x list \<Rightarrow> nat" where
  "weight_sum wt xs = (\<Sum>x\<leftarrow>xs. unat (wt x))"

lemma weight_sum_le: "weight_sum wt xs \<le> length xs * 65535"
proof (induction xs)
  case (Cons x xs)
  have "unat (wt x) < 65536" using unsigned_less [of "wt x"] by simp
  with Cons show ?case by (simp add: weight_sum_def)
qed (simp add: weight_sum_def)

lemma unat_sum_weights:
  "weight_sum wt xs < 2 ^ 32 \<Longrightarrow> unat (\<Sum>x\<leftarrow>xs. ucast (wt x) :: u32) = weight_sum wt xs"
proof (induction xs)
  case (Cons x xs)
  then have "unat (\<Sum>x\<leftarrow>xs. ucast (wt x) :: u32) = weight_sum wt xs" by (simp add: weight_sum_def)
  with Cons.prems show ?case by (simp add: weight_sum_def unat_plus_exact)
qed (simp add: weight_sum_def)

definition total_weight :: "'k authority \<Rightarrow> nat" where
  "total_weight a = weight_sum kw_weight (keys a) + weight_sum plw_weight (accounts a) + weight_sum ww_weight (waits a)"

lemma total_weight_bound:
  assumes "length (keys a) + length (accounts a) + length (waits a) \<le> 65536"
  shows "total_weight a < 2 ^ 32"
proof -
  have "total_weight a \<le> (length (keys a) + length (accounts a) + length (waits a)) * 65535"
    using weight_sum_le [of kw_weight "keys a"] weight_sum_le [of plw_weight "accounts a"]
      weight_sum_le [of ww_weight "waits a"]
    unfolding total_weight_def add_mult_distrib by linarith
  also have "\<dots> \<le> 65536 * 65535" using assms by simp
  finally show ?thesis by simp
qed

text \<open>
  C31: \<^verbatim>\<open>validate(auth)\<close> returns true exactly for an authority with at most \<open>2\<^sup>1\<^sup>6\<close> entries, a non-zero threshold,
  strictly increasing keys, permission levels and (positive) wait times, and a threshold that the mathematical sum
  of all weights reaches. In particular the 32-bit accumulator of the code never wraps around for any input that
  passes the size test, so the threshold comparison is exact.
\<close>

theorem validate_iff:
  "validate a \<longleftrightarrow>
     length (keys a) + length (accounts a) + length (waits a) \<le> 65536 \<and> threshold a \<noteq> 0 \<and>
     sorted_wrt (<) (map kw_key (keys a)) \<and>
     sorted_wrt (<) (map (\<lambda>p. level_key (plw_permission p)) (accounts a)) \<and>
     sorted_wrt (<) (0 # map ww_wait_sec (waits a)) \<and>
     unat (threshold a) \<le> total_weight a"
proof (cases "length (keys a) + length (accounts a) + length (waits a) \<le> 65536")
  case True
  have b: "total_weight a < 2 ^ 32" by (rule total_weight_bound [OF True])
  then have "unat ((\<Sum>x\<leftarrow>keys a. ucast (kw_weight x) :: u32) + (\<Sum>x\<leftarrow>accounts a. ucast (plw_weight x)) +
      (\<Sum>x\<leftarrow>waits a. ucast (ww_weight x))) = total_weight a"
    by (simp add: total_weight_def unat_sum_weights unat_plus_exact)
  then have thr: "threshold a \<le> (\<Sum>x\<leftarrow>keys a. ucast (kw_weight x) :: u32) + (\<Sum>x\<leftarrow>accounts a. ucast (plw_weight x)) +
      (\<Sum>x\<leftarrow>waits a. ucast (ww_weight x)) \<longleftrightarrow> unat (threshold a) \<le> total_weight a"
    by (simp add: word_le_nat_alt)
  have hd0: "sorted_wrt (<) (0 # map ww_wait_sec (waits a)) \<longleftrightarrow>
      sorted_wrt (<) (map ww_wait_sec (waits a)) \<and> (waits a = [] \<or> ww_wait_sec (hd (waits a)) \<noteq> 0)"
    by (cases "waits a") (auto simp: word_gt_0 intro: le_less_trans)
  show ?thesis
    using True unfolding validate_def validate_entries_eq hd0
    by (cases "waits a = []") (use thr in simp_all)
qed (simp add: validate_def)

subsection \<open>Soundness of the search\<close>

text \<open>
  The specification of the checker. A permission level is granted by the provided keys \<open>K\<close> and the provided
  permissions \<open>P\<close> when it was provided, when the wildcard level of its actor is granted, or when the weights of
  the keys of its authority in \<open>K\<close> and of its accounts that are granted themselves reach the threshold.
\<close>

type_synonym 'k perm_source = "permission_level \<Rightarrow> (chain_exception, 'k authority) result"

definition key_total :: "'k set \<Rightarrow> 'k authority \<Rightarrow> nat" where
  "key_total K a = (\<Sum>k\<leftarrow>keys a. if kw_key k \<in> K then unat (kw_weight k) else 0)"

definition account_total :: "permission_level set \<Rightarrow> 'k authority \<Rightarrow> nat" where
  "account_total G a = (\<Sum>p\<leftarrow>accounts a. if plw_permission p \<in> G then unat (plw_weight p) else 0)"

inductive level_ok :: "'k perm_source \<Rightarrow> 'k set \<Rightarrow> permission_level set \<Rightarrow> permission_level \<Rightarrow> bool"
  for pta K P where
  provided: "p \<in> P \<Longrightarrow> level_ok pta K P p"
| wildcard: "level_ok pta K P \<lparr>actor = actor p, permission = 0\<rparr> \<Longrightarrow> level_ok pta K P p"
| derived: "pta p = Inr auth \<Longrightarrow> \<forall>q \<in> G. level_ok pta K P q \<Longrightarrow>
    unat (threshold auth) \<le> key_total K auth + account_total G auth \<Longrightarrow> level_ok pta K P p"

definition authority_ok :: "'k perm_source \<Rightarrow> 'k set \<Rightarrow> permission_level set \<Rightarrow> 'k authority \<Rightarrow> bool" where
  "authority_ok pta K P auth \<longleftrightarrow>
     unat (threshold auth) \<le> key_total K auth + account_total {q. level_ok pta K P q} auth"

lemma level_ok_derived: "pta p = Inr auth \<Longrightarrow> authority_ok pta K P auth \<Longrightarrow> level_ok pta K P p"
  by (rule level_ok.derived [where G = "{q. level_ok pta K P q}"]) (auto simp: authority_ok_def)

lemma index_of_None: "index_of x xs = None \<longleftrightarrow> x \<notin> set xs"
  by (induction xs) auto

lemma sum_list_perm: "mset xs = mset ys \<Longrightarrow> (\<Sum>x\<leftarrow>xs. f x :: nat) = (\<Sum>x\<leftarrow>ys. f x)"
  by (metis mset_map sum_mset_sum_list)

abbreviation checker_ok :: "'k authority_checker \<Rightarrow> permission_level set \<Rightarrow> permission_level \<Rightarrow> bool" where
  "checker_ok c P \<equiv> level_ok (permission_to_authority c) (set (provided_keys c)) P"

fun gain :: "'k authority_checker \<Rightarrow> permission_level set \<Rightarrow> 'k meta_permission \<Rightarrow> nat" where
  "gain c P (Meta_account p) = (if checker_ok c P (plw_permission p) then unat (plw_weight p) else 0)"
| "gain c P (Meta_key k) = (if kw_key k \<in> set (provided_keys c) then unat (kw_weight k) else 0)"
| "gain c P (Meta_wait w) = 0"

lemma gain_meta_permissions:
  "(\<Sum>m\<leftarrow>meta_permissions a. gain c P m) =
     key_total (set (provided_keys c)) a + account_total {q. checker_ok c P q} a"
proof -
  have "(\<Sum>m\<leftarrow>meta_permissions a. gain c P m) =
      (\<Sum>m\<leftarrow>map Meta_account (accounts a) @ map Meta_key (keys a) @ map Meta_wait (waits a). gain c P m)"
    by (intro sum_list_perm) (simp add: meta_permissions_def)
  then show ?thesis
    by (simp add: key_total_def account_total_def comp_def)
qed

definition cache_sound :: "'k authority_checker \<Rightarrow> permission_level set \<Rightarrow> permission_cache \<Rightarrow> bool" where
  "cache_sound c P cache \<longleftrightarrow> (\<forall>p. cache p = Some Permission_satisfied \<longrightarrow> checker_ok c P p)"

lemma cache_sound_status:
  "cache_sound c P cache \<Longrightarrow> permission_status_in_cache cache p = Some Permission_satisfied \<Longrightarrow> checker_ok c P p"
  by (auto simp: cache_sound_def permission_status_in_cache_def split: option.splits intro: level_ok.wildcard)

lemma cache_sound_update:
  "cache_sound c P cache \<Longrightarrow> (st = Permission_satisfied \<Longrightarrow> checker_ok c P p) \<Longrightarrow> cache_sound c P (cache(p \<mapsto> st))"
  by (auto simp: cache_sound_def)

definition sound_search :: "'k authority_checker \<Rightarrow> permission_level set \<Rightarrow>
    ('k authority \<Rightarrow> checker_state \<Rightarrow> (chain_exception, bool \<times> checker_state) result) \<Rightarrow> bool" where
  "sound_search c P sat \<longleftrightarrow> (\<forall>auth used cache r used' cache'.
     cache_sound c P cache \<longrightarrow> sat auth (used, cache) = Inr (r, (used', cache')) \<longrightarrow>
     cache_sound c P cache' \<and>
     (r \<longrightarrow> authority_ok (permission_to_authority c) (set (provided_keys c)) P auth))"

lemma visit_accountE:
  assumes "visit c nested (Meta_account p) t (used, cache) = Inr (t', s')"
  obtains (known) "permission_status_in_cache cache (plw_permission p) = Some Permission_satisfied"
      "t' = t + ucast (plw_weight p)" "s' = (used, cache)"
  | (skipped) "permission_status_in_cache cache (plw_permission p) \<noteq> Some Permission_satisfied" "t' = t" "s' = (used, cache)"
  | (searched) sat auth r used1 cache1 where "permission_status_in_cache cache (plw_permission p) = None"
      "nested = Some sat" "permission_to_authority c (plw_permission p) = Inr auth"
      "sat auth (used, cache(plw_permission p \<mapsto> Being_evaluated)) = Inr (r, (used1, cache1))"
      "t' = (if r then t + ucast (plw_weight p) else t)"
      "s' = (used1, cache1(plw_permission p \<mapsto> (if r then Permission_satisfied else Permission_unsatisfied)))"
proof (cases "permission_status_in_cache cache (plw_permission p)")
  case None
  show ?thesis
  proof (cases nested)
    case (Some sat)
    show ?thesis
    proof (cases "permission_to_authority c (plw_permission p)")
      case (Inr auth)
      obtain r used1 cache1 where run: "sat auth (used, cache(plw_permission p \<mapsto> Being_evaluated)) = Inr (r, (used1, cache1))"
        using assms None Some Inr by (auto simp: rbind_eq_Inr_iff)
      show ?thesis
        by (rule searched [OF None Some Inr run]) (use assms None Some Inr run in \<open>auto split: if_splits\<close>)
    qed (use assms None Some skipped in \<open>auto split: if_splits\<close>)
  qed (use assms None skipped in auto)
qed (use assms known skipped in \<open>auto split: if_splits\<close>)

definition nested_search :: "'k authority_checker \<Rightarrow> u16 \<Rightarrow>
    ('k authority \<Rightarrow> checker_state \<Rightarrow> (chain_exception, bool \<times> checker_state) result) option" where
  "nested_search c depth = (if depth < recursion_depth_limit c then Some (satisfied_at c (depth + 1)) else None)"

lemma satisfied_atE:
  assumes "satisfied_at c depth auth s = Inr (r, s')"
  obtains used cache where "visit_all c (nested_search c depth)
        (threshold auth) (meta_permissions auth) 0 s = Inr (r, (used, cache))"
    and "s' = (if r then used else fst s, cache)"
  using assms by (subst (asm) satisfied_at.simps) (auto simp: rbind_eq_Inr_iff nested_search_def)

lemma depth_step:
  assumes "nested_search c depth = Some sat"
  shows "sat = satisfied_at c (depth + 1)"
    and "unat (recursion_depth_limit c) - unat (depth + 1) < unat (recursion_depth_limit c) - unat depth"
proof -
  from assms have lt: "depth < recursion_depth_limit c" and "sat = satisfied_at c (depth + 1)"
    by (auto simp: nested_search_def split: if_splits)
  then show "sat = satisfied_at c (depth + 1)"
    and "unat (recursion_depth_limit c) - unat (depth + 1) < unat (recursion_depth_limit c) - unat depth"
    by (simp_all add: unat_plus_1 [OF lt] word_less_nat_alt)
qed

lemma satisfied_at_induct:
  assumes "\<And>depth. (\<And>sat. nested_search c depth = Some sat \<Longrightarrow> Q sat)
      \<Longrightarrow> Q (satisfied_at c depth)"
  shows "Q (satisfied_at c depth)"
proof (induction "unat (recursion_depth_limit c) - unat depth" arbitrary: depth rule: less_induct)
  case less
  show ?case
    by (rule assms) (use less depth_step in metis)
qed

lemma unat_plus_u16_le: "unat (t + ucast (w :: u16) :: u32) \<le> unat t + unat w"
  using unat_plus_le [of t "ucast w"] by simp

lemma visit_sound:
  assumes "\<And>sat. nested = Some sat \<Longrightarrow> sound_search c P sat" and "cache_sound c P cache"
    and "visit c nested m t (used, cache) = Inr (t', (used', cache'))"
  shows "cache_sound c P cache' \<and> unat t' \<le> unat t + gain c P m"
proof (cases m)
  case (Meta_key k)
  have "index_of (kw_key k) (provided_keys c) = Some i \<Longrightarrow> kw_key k \<in> set (provided_keys c)" for i
    using index_of_None [of "kw_key k" "provided_keys c"] by force
  with assms Meta_key unat_plus_u16_le [of t "kw_weight k"] show ?thesis
    by (auto split: option.splits)
next
  case (Meta_account p)
  from assms(3) [unfolded Meta_account] show ?thesis
  proof (cases rule: visit_accountE)
    case (searched sat auth r used1 cache1)
    have "cache_sound c P (cache(plw_permission p \<mapsto> Being_evaluated))"
      using assms(2) by (rule cache_sound_update) simp
    then have "cache_sound c P cache1" "r \<Longrightarrow> checker_ok c P (plw_permission p)"
      using assms(1) [OF searched(2), unfolded sound_search_def] searched(4) level_ok_derived [where pta = "permission_to_authority c", OF searched(3)] by blast+
    with searched(5,6) Meta_account unat_plus_u16_le [of t "plw_weight p"] show ?thesis
      by (auto intro!: cache_sound_update)
  qed (use Meta_account assms(2) cache_sound_status unat_plus_u16_le in auto)
qed (use assms in auto)

lemma visit_all_sound:
  assumes "\<And>sat. nested = Some sat \<Longrightarrow> sound_search c P sat"
  shows "cache_sound c P cache \<Longrightarrow> visit_all c nested thr ms t (used, cache) = Inr (r, (used', cache')) \<Longrightarrow>
    cache_sound c P cache' \<and> (r \<longrightarrow> unat thr \<le> unat t + (\<Sum>m\<leftarrow>ms. gain c P m))"
proof (induction ms arbitrary: t used cache)
  case (Cons m ms)
  obtain t1 used1 cache1 where v: "visit c nested m t (used, cache) = Inr (t1, (used1, cache1))"
    using Cons.prems(2) by (auto simp: rbind_eq_Inr_iff)
  have s: "cache_sound c P cache1" "unat t1 \<le> unat t + gain c P m"
    using visit_sound [OF assms Cons.prems(1) v] by auto
  show ?case
  proof (cases "t1 \<ge> thr")
    case True
    with Cons.prems(2) v s show ?thesis by (auto simp: word_le_nat_alt)
  next
    case False
    with Cons.prems(2) v have "visit_all c nested thr ms t1 (used1, cache1) = Inr (r, (used', cache'))"
      by simp
    with Cons.IH [OF s(1) this] s(2) show ?thesis by auto
  qed
qed simp

lemma satisfied_at_sound: "sound_search c P (satisfied_at c depth)"
proof (rule satisfied_at_induct)
  fix depth
  assume nested: "\<And>sat. nested_search c depth = Some sat \<Longrightarrow>
      sound_search c P sat"
  show "sound_search c P (satisfied_at c depth)"
    unfolding sound_search_def authority_ok_def gain_meta_permissions [symmetric]
  proof (intro allI impI)
    fix auth used cache r used' cache'
    assume c: "cache_sound c P cache" and "satisfied_at c depth auth (used, cache) = Inr (r, (used', cache'))"
    from this(2) show "cache_sound c P cache' \<and> (r \<longrightarrow> unat (threshold auth) \<le> (\<Sum>m\<leftarrow>meta_permissions auth. gain c P m))"
      using visit_all_sound [OF nested c] by (elim satisfied_atE) fastforce
  qed
qed

lemma cache_sound_initial:
  "cache_sound c (set (provided_permissions c)) (initialize_permission_cache (provided_permissions c))"
  unfolding cache_sound_def initialize_permission_cache_def by (auto intro: level_ok.provided)

text \<open>
  C2: soundness of the authorization check. When \<^verbatim>\<open>authority_checker::satisfied\<close> accepts an authority, the weights
  of the provided keys and of the granted accounts reach its threshold as mathematical sums. This holds for every
  order of evaluation the sorting produces, every recursion depth limit, whatever the nested searches left in the
  permission cache, and without assuming that the authority passed \<^verbatim>\<open>validate\<close>: a wrap-around of the 32-bit total
  can only lose weight.
\<close>

theorem satisfied_authority_sound:
  assumes "satisfied_authority c auth None used = Inr (True, (used', cache'))"
  shows "authority_ok (permission_to_authority c) (set (provided_keys c)) (set (provided_permissions c)) auth"
  using satisfied_at_sound [of c "set (provided_permissions c)" 0, unfolded sound_search_def, rule_format,
      OF cache_sound_initial] assms
  by (auto simp: satisfied_authority_def)

lemma satisfied_permission_sound:
  assumes "satisfied_permission c perm None used = Inr (True, (used', cache'))"
  shows "level_ok (permission_to_authority c) (set (provided_keys c)) (set (provided_permissions c)) perm"
proof -
  let ?m = "Meta_account \<lparr>plw_permission = perm, plw_weight = 1\<rparr>"
  obtain t' where "visit c (if 0 < recursion_depth_limit c then Some (satisfied_at c 1) else None) ?m 0
      (used, initialize_permission_cache (provided_permissions c)) = Inr (t', (used', cache'))" and "t' > 0"
    using assms by (auto simp: satisfied_permission_def Let_def rbind_eq_Inr_iff simp del: visit.simps)
  have "unat t' \<le> gain c (set (provided_permissions c)) ?m"
    using visit_sound [OF _ cache_sound_initial \<open>visit _ _ _ _ _ = _\<close>] satisfied_at_sound
    by (fastforce split: if_splits)
  with \<open>t' > 0\<close> show ?thesis by (simp add: word_less_nat_alt split: if_splits)
qed

subsection \<open>The used keys and the cache only grow\<close>

definition state_le :: "checker_state \<Rightarrow> checker_state \<Rightarrow> bool" where
  "state_le s s' \<longleftrightarrow> list_all2 (\<longrightarrow>) (fst s) (fst s') \<and>
     (\<forall>p. snd s p = Some Permission_satisfied \<longrightarrow> snd s' p = Some Permission_satisfied)"

lemma state_le_refl [simp, intro]: "state_le s s"
  by (simp add: state_le_def list_all2_refl)

lemma state_le_trans [trans]: "state_le s s' \<Longrightarrow> state_le s' s'' \<Longrightarrow> state_le s s''"
  by (auto simp: state_le_def list_all2_conv_all_nth)

lemma state_le_mark: "state_le (used, cache) (used[i := True], cache)"
  by (cases "i < length used") (auto simp: state_le_def list_all2_conv_all_nth nth_list_update)

lemma state_le_cache:
  "cache p \<noteq> Some Permission_satisfied \<or> st = Permission_satisfied \<Longrightarrow> state_le (used, cache) (used, cache(p \<mapsto> st))"
  by (auto simp: state_le_def list_all2_refl)

lemma state_le_revert: "state_le (used, cache) (used', cache') \<Longrightarrow> state_le (used, cache) (used, cache')"
  by (simp add: state_le_def list_all2_refl)

definition search_mono :: "('k authority \<Rightarrow> checker_state \<Rightarrow> (chain_exception, bool \<times> checker_state) result) \<Rightarrow> bool" where
  "search_mono sat \<longleftrightarrow> (\<forall>auth s r s'. sat auth s = Inr (r, s') \<longrightarrow> state_le s s' \<and> (\<not> r \<longrightarrow> fst s' = fst s))"

lemma status_None: "permission_status_in_cache cache p = None \<Longrightarrow> cache p = None"
  by (auto simp: permission_status_in_cache_def split: option.splits)

lemma visit_mono:
  assumes "\<And>sat. nested = Some sat \<Longrightarrow> search_mono sat"
    and "visit c nested m t (used, cache) = Inr (t', s')"
  shows "state_le (used, cache) s'"
proof (cases m)
  case (Meta_account p)
  from assms(2) [unfolded Meta_account] show ?thesis
  proof (cases rule: visit_accountE)
    case (searched sat auth r used1 cache1)
    have "state_le (used, cache(plw_permission p \<mapsto> Being_evaluated)) (used1, cache1)"
      using assms(1) [OF searched(2)] searched(4) by (auto simp: search_mono_def)
    with status_None [OF searched(1)] show ?thesis
      unfolding searched(6) by (auto simp: state_le_def)
  qed auto
qed (use assms in \<open>auto split: option.splits intro: state_le_mark\<close>)

lemma visit_all_mono:
  assumes "\<And>sat. nested = Some sat \<Longrightarrow> search_mono sat"
  shows "visit_all c nested thr ms t s = Inr (r, s') \<Longrightarrow> state_le s s'"
proof (induction ms arbitrary: t s)
  case (Cons m ms)
  obtain t1 s1 where v: "visit c nested m t s = Inr (t1, s1)"
    using Cons.prems by (auto simp: rbind_eq_Inr_iff)
  have "state_le s s1" by (cases s) (use visit_mono [OF assms] v in auto)
  moreover have "state_le s1 s'" using Cons v by (auto split: if_splits)
  ultimately show ?case by (rule state_le_trans)
qed simp

lemma satisfied_at_mono: "search_mono (satisfied_at c depth)"
proof (rule satisfied_at_induct)
  fix depth
  assume nested: "\<And>sat. nested_search c depth = Some sat \<Longrightarrow>
      search_mono sat"
  show "search_mono (satisfied_at c depth)"
    unfolding search_mono_def
    using visit_all_mono [where c = c and nested = "nested_search c depth", OF nested]
    by (auto elim!: satisfied_atE) (meson state_le_revert)
qed

subsection \<open>Sources of permissions that only fail to find\<close>

text \<open>
  The interface between the checker and the provider of authorities, a database \<open>d\<close> in a state that satisfies \<open>ok\<close>.
  The only exception the checker catches is \<^verbatim>\<open>permission_query_exception\<close>; a provider that throws nothing else for
  the permission levels that can be reached makes every search return, and a search over a validated authority whose
  provided keys and permissions reach the threshold succeeds.
\<close>

locale permission_source =
  fixes ok :: "'d \<Rightarrow> bool" and pta :: "'d \<Rightarrow> ('k :: linorder) perm_source" and levels :: "permission_level set"
  assumes only_query_error: "ok d \<Longrightarrow> p \<in> levels \<Longrightarrow> pta d p = Inl e \<Longrightarrow> e = Permission_query_exception"
    and closed: "ok d \<Longrightarrow> p \<in> levels \<Longrightarrow> pta d p = Inr auth \<Longrightarrow> q \<in> set (accounts auth) \<Longrightarrow> plw_permission q \<in> levels"
begin

definition inside :: "'k authority \<Rightarrow> bool" where
  "inside auth \<longleftrightarrow> (\<forall>q \<in> set (accounts auth). plw_permission q \<in> levels)"

definition meta_inside :: "'k meta_permission \<Rightarrow> bool" where
  "meta_inside m \<longleftrightarrow> (case m of Meta_account p \<Rightarrow> plw_permission p \<in> levels | _ \<Rightarrow> True)"

lemma meta_inside_permissions: "inside auth \<Longrightarrow> m \<in> set (meta_permissions auth) \<Longrightarrow> meta_inside m"
  by (auto simp: inside_def meta_inside_def meta_permissions_def)

definition total_search :: "('k authority \<Rightarrow> checker_state \<Rightarrow> (chain_exception, bool \<times> checker_state) result) \<Rightarrow> bool" where
  "total_search sat \<longleftrightarrow> (\<forall>auth s. inside auth \<longrightarrow> (\<exists>r s'. sat auth s = Inr (r, s')))"

lemma visit_total:
  assumes "ok d" "permission_to_authority c = pta d" "\<And>sat. nested = Some sat \<Longrightarrow> total_search sat" "meta_inside m"
  shows "\<exists>t' s'. visit c nested m t (used, cache) = Inr (t', s')"
proof (cases m)
  case (Meta_account p)
  then have p: "plw_permission p \<in> levels" using assms(4) by (simp add: meta_inside_def)
  show ?thesis
  proof (cases nested)
    case (Some sat)
    show ?thesis
    proof (cases "pta d (plw_permission p)")
      case (Inl e)
      with Meta_account Some assms(2) only_query_error [OF assms(1) p Inl] show ?thesis
        by (auto split: option.split)
    next
      case (Inr auth)
      have "inside auth" using closed [OF assms(1) p Inr] by (simp add: inside_def)
      then obtain r s' where "sat auth (used, cache(plw_permission p \<mapsto> Being_evaluated)) = Inr (r, s')"
        using assms(3) [OF Some] unfolding total_search_def by blast
      with Meta_account Some assms(2) Inr show ?thesis
        by (cases s') (auto split: option.split)
    qed
  qed (use Meta_account in \<open>auto split: option.splits\<close>)
qed (auto split: option.splits)

lemma visit_all_total:
  assumes "ok d" "permission_to_authority c = pta d" "\<And>sat. nested = Some sat \<Longrightarrow> total_search sat"
  shows "\<forall>m \<in> set ms. meta_inside m \<Longrightarrow> \<exists>r s'. visit_all c nested thr ms t s = Inr (r, s')"
proof (induction ms arbitrary: t s)
  case (Cons m ms)
  have "meta_inside m" using Cons.prems by simp
  then obtain t' s' where v: "visit c nested m t s = Inr (t', s')"
    by (cases s) (use visit_total [OF assms] in blast)
  show ?case
  proof (cases "thr \<le> t'")
    case True
    with v show ?thesis by (cases s') (auto simp: ex_bool_eq)
  next
    case False
    with v Cons show ?thesis by simp
  qed
qed (auto simp: ex_bool_eq)

lemma satisfied_at_total:
  assumes "ok d" "permission_to_authority c = pta d"
  shows "total_search (satisfied_at c depth)"
proof (rule satisfied_at_induct)
  fix depth
  assume nested: "\<And>sat. nested_search c depth = Some sat \<Longrightarrow>
      total_search sat"
  show "total_search (satisfied_at c depth)"
    unfolding total_search_def
  proof (intro allI impI)
    fix auth s
    assume "inside auth"
    then obtain r used cache where "visit_all c (nested_search c depth)
        (threshold auth) (meta_permissions auth) 0 s = Inr (r, (used, cache))"
      using visit_all_total [OF assms nested] meta_inside_permissions by (metis prod.exhaust)
    then show "\<exists>r s'. satisfied_at c depth auth s = Inr (r, s')"
      by (subst satisfied_at.simps) (simp add: nested_search_def)
  qed
qed

end

text \<open>
  The weight that an entry contributes without any nested search.
\<close>

fun direct_gain :: "'k authority_checker \<Rightarrow> 'k meta_permission \<Rightarrow> nat" where
  "direct_gain c (Meta_account p) = (if plw_permission p \<in> set (provided_permissions c) then unat (plw_weight p) else 0)"
| "direct_gain c (Meta_key k) = (if kw_key k \<in> set (provided_keys c) then unat (kw_weight k) else 0)"
| "direct_gain c (Meta_wait w) = 0"

lemma meta_sum:
  "(\<Sum>m\<leftarrow>meta_permissions a. f m :: nat) =
     (\<Sum>p\<leftarrow>accounts a. f (Meta_account p)) + (\<Sum>k\<leftarrow>keys a. f (Meta_key k)) + (\<Sum>w\<leftarrow>waits a. f (Meta_wait w))"
proof -
  have "(\<Sum>m\<leftarrow>meta_permissions a. f m) =
      (\<Sum>m\<leftarrow>map Meta_account (accounts a) @ map Meta_key (keys a) @ map Meta_wait (waits a). f m)"
    by (intro sum_list_perm) (simp add: meta_permissions_def)
  then show ?thesis
    by (simp add: comp_def)
qed

lemma meta_weight_sum: "(\<Sum>m\<leftarrow>meta_permissions a. unat (meta_weight m)) = total_weight a"
  by (simp add: meta_sum total_weight_def weight_sum_def)

lemma direct_gain_sum: "(\<Sum>m\<leftarrow>meta_permissions a. direct_gain c m) =
     key_total (set (provided_keys c)) a + account_total (set (provided_permissions c)) a"
  by (simp add: meta_sum key_total_def account_total_def)

abbreviation provided_cached :: "'k authority_checker \<Rightarrow> checker_state \<Rightarrow> bool" where
  "provided_cached c s \<equiv> (\<forall>p \<in> set (provided_permissions c). snd s p = Some Permission_satisfied)"

lemma visit_gains:
  assumes "visit c nested m t (used, cache) = Inr (t', s')" "provided_cached c (used, cache)"
    and "unat t + unat (meta_weight m) < 2 ^ 32"
  shows "unat t + direct_gain c m \<le> unat t' \<and> unat t' \<le> unat t + unat (meta_weight m)"
proof (cases m)
  case (Meta_key k)
  with assms index_of_None [of "kw_key k" "provided_keys c"] show ?thesis
    by (auto simp: unat_plus_exact split: option.splits)
next
  case (Meta_account p)
  from assms(1) [unfolded Meta_account] show ?thesis
  proof (cases rule: visit_accountE)
    case skipped
    have "plw_permission p \<notin> set (provided_permissions c)"
      using assms(2) skipped(1) by (auto simp: permission_status_in_cache_def)
    with skipped Meta_account show ?thesis by simp
  next
    case (searched sat auth r used1 cache1)
    then have "plw_permission p \<notin> set (provided_permissions c)"
      using assms(2) by (auto dest: status_None)
    with searched assms(3) Meta_account show ?thesis by (simp add: unat_plus_exact)
  qed (use Meta_account assms(3) in \<open>simp add: unat_plus_exact\<close>)
qed (use assms in auto)

context permission_source
begin

lemma visit_all_complete:
  assumes pta: "ok d" "permission_to_authority c = pta d"
    and nested: "\<And>sat. nested = Some sat \<Longrightarrow> total_search sat \<and> search_mono sat"
  shows "unat t < unat thr \<Longrightarrow> provided_cached c s \<Longrightarrow> \<forall>m \<in> set ms. meta_inside m \<Longrightarrow>
    unat t + (\<Sum>m\<leftarrow>ms. unat (meta_weight m)) < 2 ^ 32 \<Longrightarrow>
    unat thr \<le> unat t + (\<Sum>m\<leftarrow>ms. direct_gain c m) \<Longrightarrow>
    \<exists>s'. visit_all c nested thr ms t s = Inr (True, s')"
proof (induction ms arbitrary: t s)
  case (Cons m ms)
  obtain used cache where s: "s = (used, cache)" by (cases s)
  obtain t1 s1 where v: "visit c nested m t (used, cache) = Inr (t1, s1)"
    using visit_total [OF pta] nested Cons.prems(3) by (metis list.set_intros(1))
  have g: "unat t + direct_gain c m \<le> unat t1" "unat t1 \<le> unat t + unat (meta_weight m)"
    using visit_gains [OF v] Cons.prems s by simp_all
  have le: "state_le (used, cache) s1"
    using visit_mono [OF _ v] nested by blast
  show ?case
  proof (cases "thr \<le> t1")
    case False
    then have "\<exists>s'. visit_all c nested thr ms t1 s1 = Inr (True, s')"
      using Cons.prems g le s by (intro Cons.IH) (auto simp: word_le_nat_alt state_le_def)
    with False v s show ?thesis by simp
  qed (use s v in simp)
qed simp

lemma satisfied_authority_complete:
  assumes c: "ok d" "permission_to_authority c = pta d" and valid: "validate auth" and auth: "inside auth"
    and met: "unat (threshold auth) \<le> key_total (set (provided_keys c)) auth + account_total (set (provided_permissions c)) auth"
  shows "\<exists>s'. satisfied_authority c auth None used = Inr (True, s')"
proof -
  have size: "length (keys auth) + length (accounts auth) + length (waits auth) \<le> 65536" and pos: "threshold auth \<noteq> 0"
    using valid by (simp_all add: validate_def split: if_splits)
  let ?s = "(used, initialize_permission_cache (provided_permissions c))"
  have "\<exists>s'. visit_all c (nested_search c 0) (threshold auth) (meta_permissions auth) 0 ?s = Inr (True, s')"
  proof (rule visit_all_complete [OF c])
    fix sat assume "nested_search c 0 = Some sat"
    then show "total_search sat \<and> search_mono sat"
      using depth_step(1) satisfied_at_total [OF c] satisfied_at_mono by metis
  qed (use pos met total_weight_bound [OF size] meta_inside_permissions [OF auth] in
      \<open>simp_all add: direct_gain_sum meta_weight_sum initialize_permission_cache_def unat_gt_0\<close>)
  then show ?thesis
    by (auto simp: satisfied_authority_def satisfied_at.simps [of c 0] nested_search_def)
qed

lemma satisfied_permission_total:
  assumes "ok d" "permission_to_authority c = pta d" "perm \<in> levels"
  shows "\<exists>r s'. satisfied_permission c perm cp used = Inr (r, s')"
proof -
  have "meta_inside (Meta_account \<lparr>plw_permission = perm, plw_weight = 1\<rparr>)" using assms(3) by (simp add: meta_inside_def)
  then obtain t s' where "visit c (nested_search c 0) (Meta_account \<lparr>plw_permission = perm, plw_weight = 1\<rparr>) 0
      (used, case cp of None \<Rightarrow> initialize_permission_cache (provided_permissions c) | Some cp \<Rightarrow> cp) = Inr (t, s')"
    using visit_total [OF assms(1,2)] depth_step(1) satisfied_at_total [OF assms(1,2)] by metis
  then show ?thesis
    by (cases "0 < recursion_depth_limit c")
      (simp_all add: satisfied_permission_def nested_search_def del: visit.simps)
qed

end

text \<open>
  The markers of the used keys. A check keeps their number, never clears a marker that was set before it, and
  when the authority is not satisfied the \<^verbatim>\<open>KeyReverter\<close> gives back exactly the markers of before the check.
\<close>

theorem used_keys_of_search:
  assumes "satisfied_authority c auth cp used = Inr (r, (used', cache'))"
  shows "length used' = length used \<and> (\<forall>i < length used. used ! i \<longrightarrow> used' ! i) \<and> (\<not> r \<longrightarrow> used' = used)"
proof -
  have "state_le (used, case cp of None \<Rightarrow> initialize_permission_cache (provided_permissions c) | Some cp \<Rightarrow> cp) (used', cache')
      \<and> (\<not> r \<longrightarrow> used' = used)"
    using satisfied_at_mono [of c 0] assms by (fastforce simp: search_mono_def satisfied_authority_def)
  then show ?thesis
    by (auto simp: state_le_def list_all2_conv_all_nth)
qed

subsection \<open>A used key that is not reported\<close>

text \<open>
  An authority with threshold 1 and the accounts 2 (weight 2) and 3 (weight 1). Level 2 needs both 3 and 4, level 3
  needs key 7, level 4 needs key 8, and key 7 is provided. Level 2 is evaluated first: it finds 3 satisfied, marks
  key 7, records 3 in the cache, and fails at 4, so the markers are reverted. Then 3 is found in the cache.
\<close>

definition lost_level :: "u64 \<Rightarrow> permission_level" where
  "lost_level n = \<lparr>actor = n, permission = 1\<rparr>"

definition lost_pta :: "nat perm_source" where
  "lost_pta p =
     (if p = lost_level 2 then
        Inr \<lparr>threshold = 2, keys = [], accounts = [\<lparr>plw_permission = lost_level 3, plw_weight = 1\<rparr>,
          \<lparr>plw_permission = lost_level 4, plw_weight = 1\<rparr>], waits = []\<rparr>
      else if p = lost_level 3 then
        Inr \<lparr>threshold = 1, keys = [\<lparr>kw_key = 7, kw_weight = 1\<rparr>], accounts = [], waits = []\<rparr>
      else if p = lost_level 4 then
        Inr \<lparr>threshold = 1, keys = [\<lparr>kw_key = 8, kw_weight = 1\<rparr>], accounts = [], waits = []\<rparr>
      else Inl Permission_query_exception)"

definition lost_auth :: "nat authority" where
  "lost_auth = \<lparr>threshold = 1, keys = [], accounts = [\<lparr>plw_permission = lost_level 2, plw_weight = 2\<rparr>,
     \<lparr>plw_permission = lost_level 3, plw_weight = 1\<rparr>], waits = []\<rparr>"

lemmas lost_defs = lost_level_def lost_pta_def lost_auth_def make_auth_checker_def satisfied_authority_def
  meta_permissions_def Let_def initialize_permission_cache_def permission_status_in_cache_def

text \<open>
  An evaluated example: a valid authority is satisfied only thanks to a provided key, and yet no key is marked as used. The
  \<^verbatim>\<open>KeyReverter\<close> of a failed nested authority clears the markers of the keys that satisfied one of its own accounts,
  but that account stays in the cache as satisfied, where a later entry finds it. The second check, without the key,
  fails, so the key was necessary; \<^verbatim>\<open>all_keys_used\<close> nevertheless answers false after the first.
\<close>

lemma used_key_lost:
  "let (c, used) = make_auth_checker lost_pta 6 [7] [];
       (c', used') = make_auth_checker lost_pta 6 [] []
   in validate lost_auth \<and>
      (\<exists>cache. satisfied_authority c lost_auth None used = Inr (True, ([False], cache))) \<and>
      (\<exists>cache. satisfied_authority c' lost_auth None used' = Inr (False, ([], cache)))"
  by (simp add: lost_defs satisfied_at.simps validate_def level_key_def word_le_nat_alt)

theorem satisfied_authority_sound_witness:
  "authority_ok lost_pta {7} {} lost_auth"
  using satisfied_authority_sound
      [of "fst (make_auth_checker lost_pta 6 [7] [])" lost_auth "[False]" "[False]"]
  by (simp add: lost_defs satisfied_at.simps word_le_nat_alt)

theorem used_keys_of_search_witness:
  "\<exists>used cache. satisfied_authority (fst (make_auth_checker lost_pta 6 [8, 9] [])) lost_auth None [False, True] =
       Inr (False, (used, cache)) \<and> used = [False, True]"
  using used_keys_of_search
      [of "fst (make_auth_checker lost_pta 6 [8, 9] [])" lost_auth None "[False, True]" False]
  by (simp add: lost_defs satisfied_at.simps word_le_nat_alt)

end
