(* ===== verification/Ordered_Index.thy ===== *)
theory Ordered_Index
  imports Chain_Prelude "HOL-Library.Multiset" "HOL-Library.Product_Lexorder"
begin

text \<open>
  The containers the chain state lives in. An \<^verbatim>\<open>ordered_unique\<close> index of the state database is a list of keyed
  rows in strictly increasing order of the key. Finding, creating, modifying and removing a row by its key and
  \<^verbatim>\<open>lower_bound\<close> are functions on it; \<^verbatim>\<open>get\<close> fails for a missing key and \<^verbatim>\<open>create\<close> for a present one. The
  locale \<open>unique_index\<close> is the contract the components rely on: what is found after each operation, and how a sum over
  all rows changes.
\<close>

section \<open>The contract of an index\<close>

locale unique_index =
  fixes ok :: "'i \<Rightarrow> bool"
    and look :: "'i \<Rightarrow> 'k \<Rightarrow> 'v option"
    and put :: "'k \<Rightarrow> 'v \<Rightarrow> 'i \<Rightarrow> 'i"
    and del :: "'k \<Rightarrow> 'i \<Rightarrow> 'i"
    and rows :: "'i \<Rightarrow> ('k \<times> 'v) list"
  assumes look_put: "ok m \<Longrightarrow> look (put k v m) k' = (if k' = k then Some v else look m k')"
    and look_del: "ok m \<Longrightarrow> look (del k m) k' = (if k' = k then None else look m k')"
    and ok_put: "ok m \<Longrightarrow> ok (put k v m)"
    and ok_del: "ok m \<Longrightarrow> ok (del k m)"
    and rows_put: "ok m \<Longrightarrow> look m k = None \<Longrightarrow> mset (rows (put k v m)) = add_mset (k, v) (mset (rows m))"
    and rows_replace: "ok m \<Longrightarrow> look m k = Some u \<Longrightarrow>
      add_mset (k, u) (mset (rows (put k v m))) = add_mset (k, v) (mset (rows m))"
    and rows_del: "ok m \<Longrightarrow> look m k = Some u \<Longrightarrow> mset (rows m) = add_mset (k, u) (mset (rows (del k m)))"
begin

definition total :: "('k \<times> 'v \<Rightarrow> nat) \<Rightarrow> 'i \<Rightarrow> nat" where
  "total f m = sum_mset (image_mset f (mset (rows m)))"

lemma total_put_new: "ok m \<Longrightarrow> look m k = None \<Longrightarrow> total f (put k v m) = f (k, v) + total f m"
  by (simp add: total_def rows_put)

lemma total_put_replace:
  assumes "ok m" "look m k = Some u"
  shows "f (k, u) + total f (put k v m) = f (k, v) + total f m"
  using arg_cong [OF rows_replace [OF assms, of v], of "\<lambda>M. sum_mset (image_mset f M)"] by (simp add: total_def)

lemma total_del:
  assumes "ok m" "look m k = Some u"
  shows "total f m = f (k, u) + total f (del k m)"
  using arg_cong [OF rows_del [OF assms], of "\<lambda>M. sum_mset (image_mset f M)"] by (simp add: total_def)

lemma total_row_le:
  assumes "ok m" "look m k = Some u"
  shows "f (k, u) \<le> total f m"
  using total_del [OF assms, of f] by simp

end

section \<open>Rows in increasing order\<close>

type_synonym ('k, 'v) index = "('k \<times> 'v) list"

definition idx_ok :: "('k :: linorder, 'v) index \<Rightarrow> bool" where
  "idx_ok m \<longleftrightarrow> sorted_wrt (<) (map fst m)"

fun idx_put :: "'k :: linorder \<Rightarrow> 'v \<Rightarrow> ('k, 'v) index \<Rightarrow> ('k, 'v) index" where
  "idx_put k v [] = [(k, v)]"
| "idx_put k v ((k', v') # m) =
     (if k < k' then (k, v) # (k', v') # m
      else if k = k' then (k, v) # m
      else (k', v') # idx_put k v m)"

definition idx_remove :: "'k \<Rightarrow> ('k, 'v) index \<Rightarrow> ('k, 'v) index" where
  "idx_remove k m = filter (\<lambda>r. fst r \<noteq> k) m"

definition idx_get :: "('k, 'v) index \<Rightarrow> 'k \<Rightarrow> (chain_exception, 'v) result" where
  "idx_get m k = (case map_of m k of None \<Rightarrow> Inl Unknown_key | Some v \<Rightarrow> Inr v)"

definition idx_create :: "'k :: linorder \<Rightarrow> 'v \<Rightarrow> ('k, 'v) index \<Rightarrow> (chain_exception, ('k, 'v) index) result" where
  "idx_create k v m = (case map_of m k of None \<Rightarrow> Inr (idx_put k v m) | Some _ \<Rightarrow> Inl Uniqueness_violation)"

definition idx_lower_bound :: "'k :: linorder \<Rightarrow> ('k, 'v) index \<Rightarrow> ('k \<times> 'v) option" where
  "idx_lower_bound k m = find (\<lambda>r. k \<le> fst r) m"

lemma idx_ok_Nil [simp]: "idx_ok []"
  by (simp add: idx_ok_def)

lemma idx_ok_Cons: "idx_ok ((k, v) # m) \<longleftrightarrow> idx_ok m \<and> (\<forall>k' \<in> fst ` set m. k < k')"
  by (auto simp: idx_ok_def)

lemma fst_set_idx_put: "fst ` set (idx_put k v m) = insert k (fst ` set m)"
  by (induction k v m rule: idx_put.induct) auto

lemma map_of_above: "\<forall>k' \<in> fst ` set m. k < k' \<Longrightarrow> map_of m (k :: 'k :: linorder) = None"
  by (force simp: map_of_eq_None_iff)

lemma map_of_idx_put: "idx_ok m \<Longrightarrow> map_of (idx_put k v m) k' = (if k' = k then Some v else map_of m k')"
  by (induction k v m rule: idx_put.induct) (auto simp: idx_ok_Cons)

lemma idx_ok_put: "idx_ok m \<Longrightarrow> idx_ok (idx_put k v m)"
proof (induction k v m rule: idx_put.induct)
  case (2 k v k' v' m)
  then show ?case
    by (auto simp: idx_ok_Cons fst_set_idx_put)
qed (simp add: idx_ok_def)

lemma mset_idx_put_new:
  "idx_ok m \<Longrightarrow> map_of m k = None \<Longrightarrow> mset (idx_put k v m) = add_mset (k, v) (mset m)"
  by (induction k v m rule: idx_put.induct) (auto simp: idx_ok_Cons split: if_splits)

lemma mset_idx_put_replace:
  "idx_ok m \<Longrightarrow> map_of m k = Some u \<Longrightarrow> add_mset (k, u) (mset (idx_put k v m)) = add_mset (k, v) (mset m)"
proof (induction k v m rule: idx_put.induct)
  case (2 k v k' v' m)
  have "\<not> (k < k' \<and> map_of m k = Some u)"
    using 2(2) map_of_SomeD [of m k u] by (force simp: idx_ok_Cons)
  with 2 show ?case
    by (auto simp: idx_ok_Cons add_mset_commute [of "(k', v')"] split: if_splits)
qed simp

lemma map_of_idx_remove: "map_of (idx_remove k m) k' = (if k' = k then None else map_of m k')"
  by (induction m) (auto simp: idx_remove_def)

lemma idx_ok_remove: "idx_ok m \<Longrightarrow> idx_ok (idx_remove k m)"
  by (induction m) (auto simp: idx_remove_def idx_ok_Cons split: prod.splits)

lemma mset_idx_remove:
  "idx_ok m \<Longrightarrow> map_of m k = Some u \<Longrightarrow> mset m = add_mset (k, u) (mset (idx_remove k m))"
proof (induction m)
  case (Cons r m)
  obtain k' v' where r: "r = (k', v')" by (cases r)
  show ?case
  proof (cases "k' = k")
    case True
    with Cons.prems r have "\<forall>r \<in> set m. fst r \<noteq> k"
      by (auto simp: idx_ok_Cons)
    with True Cons.prems r show ?thesis
      by (simp add: idx_remove_def filter_id_conv)
  next
    case False
    with Cons r show ?thesis
      by (auto simp: idx_ok_Cons idx_remove_def)
  qed
qed simp

interpretation sorted_rows: unique_index idx_ok map_of idx_put idx_remove "\<lambda>m. m"
  by unfold_locales
    (simp_all add: map_of_idx_put map_of_idx_remove idx_ok_put idx_ok_remove
      mset_idx_put_new mset_idx_put_replace mset_idx_remove)

lemma idx_get_eq_Inr_iff [result_simps]: "idx_get m k = Inr v \<longleftrightarrow> map_of m k = Some v"
  by (auto simp: idx_get_def split: option.splits)

lemma idx_get_eq_Inl: "idx_get m k = Inl e \<Longrightarrow> e = Unknown_key"
  by (auto simp: idx_get_def split: option.splits)

lemma idx_create_eq_Inr_iff [result_simps]:
  "idx_create k v m = Inr m' \<longleftrightarrow> map_of m k = None \<and> m' = idx_put k v m"
  by (auto simp: idx_create_def split: option.splits)

lemma idx_lower_bound_Some:
  assumes "idx_ok m" "idx_lower_bound k m = Some (k', v)"
  shows "map_of m k' = Some v \<and> k \<le> k'"
proof -
  have "(k', v) \<in> set m" "k \<le> k'"
    using assms(2) by (auto simp: idx_lower_bound_def find_Some_iff) (metis fst_conv)
  then show ?thesis
    using assms(1) by (auto simp: idx_ok_def strict_sorted_iff)
qed

lemma idx_lower_bound_None: "idx_lower_bound k m = None \<longleftrightarrow> (\<forall>k' \<in> fst ` set m. k' < k)"
  by (auto simp: idx_lower_bound_def find_None_iff not_le)

lemma length_idx_remove: "map_of m k = Some v \<Longrightarrow> length (idx_remove k m) < length m"
  by (auto simp: idx_remove_def dest!: map_of_SomeD intro!: length_filter_less)

lemma idx_ok_lookup: "idx_ok m \<Longrightarrow> r \<in> set m \<Longrightarrow> map_of m (fst r) = Some (snd r)"
  by (cases r) (auto simp: idx_ok_def strict_sorted_iff intro: map_of_is_SomeI)

lemma idx_put_known:
  "idx_ok m \<Longrightarrow> map_of m k \<noteq> None \<Longrightarrow> idx_put k v m = map (\<lambda>r. if fst r = k then (k, v) else r) m"
proof (induction k v m rule: idx_put.induct)
  case (2 k v k' v' m)
  have same: "map (\<lambda>r. if fst r = k then (k, v) else r) m = m" if "\<forall>x \<in> set m. k < fst x"
    using that by (intro map_idI) auto
  have "map_of ((k', v') # m) k = None" if "k < k'" using 2(2) that by (intro map_of_above) (auto simp: idx_ok_Cons)
  then have "\<not> k < k'" using 2(3) by auto
  with 2 same show ?case by (cases k k' rule: linorder_cases) (auto simp: idx_ok_Cons)
qed simp

section \<open>Indices with equal keys\<close>

text \<open>An index in which keys may be equal is the list of its rows. A new row comes after the rows with the same key.\<close>

definition insert_upper :: "('r \<Rightarrow> 'o :: linorder) \<Rightarrow> 'r \<Rightarrow> 'r list \<Rightarrow> 'r list" where
  "insert_upper f x xs = takeWhile (\<lambda>y. f y \<le> f x) xs @ x # dropWhile (\<lambda>y. f y \<le> f x) xs"

lemma sorted_insert_upper:
  assumes "sorted (map f xs)"
  shows "sorted (map f (insert_upper f x xs))"
proof -
  let ?P = "\<lambda>y. f y \<le> f x"
  have "sorted (map f (takeWhile ?P xs @ dropWhile ?P xs))" using assms by simp
  moreover have "\<forall>y \<in> set (dropWhile ?P xs). f x \<le> f y"
  proof (cases "dropWhile ?P xs")
    case (Cons z zs)
    then have "\<not> ?P z" by (metis dropWhile_eq_Cons_conv)
    with calculation Cons show ?thesis by (fastforce simp: sorted_append)
  next
    case Nil
    show ?thesis unfolding Nil by simp
  qed
  moreover have "\<forall>y \<in> set (takeWhile ?P xs). f y \<le> f x" by (meson set_takeWhileD)
  ultimately show ?thesis
    unfolding insert_upper_def map_append list.map sorted_append sorted_simps(2) list.set(2) set_map
      ball_simps(5,7,9) by (meson ball_imageD)
qed

lemma set_insert_upper [simp]: "set (insert_upper f x xs) = insert x (set xs)"
proof -
  have "set xs = set (takeWhile (\<lambda>y. f y \<le> f x) xs) \<union> set (dropWhile (\<lambda>y. f y \<le> f x) xs)"
    by (metis set_append takeWhile_dropWhile_id)
  then show ?thesis by (auto simp: insert_upper_def)
qed

end
