(* ===== verification/Resource_Limits.thy ===== *)
theory Resource_Limits
  imports Ordered_Index
begin

text \<open>
  \<^verbatim>\<open>resource_limits.cpp\<close>, \<^verbatim>\<open>resource_limits.hpp\<close> and \<^verbatim>\<open>resource_limits_private.hpp\<close>: the moving averages of CPU and
  network usage, the elastic limits of a block, the limits of each account with their pending updates, and the RAM
  accounting. The state is the four indices the manager keeps in the database. An operation that throws leaves its
  changes to the undo session of the caller, so its result is only the exception.
\<close>

section \<open>Arithmetic helpers\<close>

definition rate_limiting_precision :: u64 where
  "rate_limiting_precision = 1000000"

record ratio =
  numerator :: u64
  denominator :: u64

text \<open>Division that C++ leaves undefined for a zero divisor.\<close>

definition checked_div :: "'a::len word \<Rightarrow> 'a word \<Rightarrow> (chain_exception, 'a word) result" where
  "checked_div n d = (if d = 0 then Inl Undefined_behaviour else Inr (n div d))"

definition mul_ratio :: "u64 \<Rightarrow> ratio \<Rightarrow> (chain_exception, u64) result" where
  "mul_ratio v r =
     rbind (eos_assert (numerator r = 0 \<or> numeric_max div numerator r \<ge> v) Rate_limiting_state_inconsistent) (\<lambda>_.
     checked_div (v * numerator r) (denominator r))"

definition integer_divide_ceil :: "'a::len word \<Rightarrow> 'a word \<Rightarrow> (chain_exception, 'a word) result" where
  "integer_divide_ceil num den =
     rbind (checked_div num den) (\<lambda>q. Inr (q + (if num mod den > 0 then 1 else 0)))"

definition downgrade_u64 :: "u128 \<Rightarrow> (chain_exception, u64) result" where
  "downgrade_u64 v =
     rbind (eos_assert (v \<ge> 0 \<and> v \<le> 2 ^ 64 - 1) Rate_limiting_state_inconsistent) (\<lambda>_. Inr (ucast v))"

definition downgrade_i64 :: "u128 \<Rightarrow> (chain_exception, i64) result" where
  "downgrade_i64 v =
     rbind (eos_assert (v \<ge> 0 \<and> v \<le> 2 ^ 63 - 1) Rate_limiting_state_inconsistent) (\<lambda>_. Inr (ucast v))"

section \<open>Usage accumulators\<close>

record exponential_moving_average_accumulator =
  last_ordinal :: u32
  value_ex :: u64
  consumed :: u64

definition empty_accumulator :: exponential_moving_average_accumulator where
  "empty_accumulator = \<lparr>last_ordinal = 0, value_ex = 0, consumed = 0\<rparr>"

definition max_raw_value :: u64 where
  "max_raw_value = numeric_max div rate_limiting_precision"

definition average :: "exponential_moving_average_accumulator \<Rightarrow> (chain_exception, u64) result" where
  "average a = integer_divide_ceil (value_ex a) rate_limiting_precision"

text \<open>The branch of \<^verbatim>\<open>add\<close> that moves the accumulator to a later ordinal.\<close>

definition decay_to :: "u32 \<Rightarrow> u32 \<Rightarrow> exponential_moving_average_accumulator \<Rightarrow>
    (chain_exception, exponential_moving_average_accumulator) result" where
  "decay_to ordinal window_size a =
     rbind (eos_assert (ordinal > last_ordinal a) Resource_limit_exception) (\<lambda>_.
     rbind (if (ucast (last_ordinal a) :: u64) + ucast window_size > ucast ordinal
            then mul_ratio (value_ex a)
                   \<lparr>numerator = ucast window_size - ucast (ordinal - last_ordinal a), denominator = ucast window_size\<rparr>
            else Inr 0) (\<lambda>v.
     let a' = a\<lparr>value_ex := v, last_ordinal := ordinal\<rparr>
     in rbind (average a') (\<lambda>av. Inr (a'\<lparr>consumed := av\<rparr>))))"

definition accumulator_add :: "u64 \<Rightarrow> u32 \<Rightarrow> u32 \<Rightarrow> exponential_moving_average_accumulator \<Rightarrow>
    (chain_exception, exponential_moving_average_accumulator) result" where
  "accumulator_add units ordinal window_size a =
     rbind (eos_assert (units \<le> max_raw_value) Rate_limiting_state_inconsistent) (\<lambda>_.
     rbind (eos_assert (numeric_max - consumed a \<ge> units) Rate_limiting_state_inconsistent) (\<lambda>_.
     rbind (integer_divide_ceil ((ucast units :: u128) * ucast rate_limiting_precision) (ucast window_size)) (\<lambda>q.
     rbind (downgrade_u64 q) (\<lambda>value_ex_contrib.
     rbind (eos_assert (numeric_max - value_ex a \<ge> value_ex_contrib) Rate_limiting_state_inconsistent) (\<lambda>_.
     rbind (if last_ordinal a \<noteq> ordinal then decay_to ordinal window_size a else Inr a) (\<lambda>a'.
     Inr (a'\<lparr>consumed := consumed a' + units, value_ex := value_ex a' + value_ex_contrib\<rparr>)))))))"

record exponential_decay_accumulator =
  eda_last_ordinal :: u32
  eda_value_ex :: u64

definition value_ex_at :: "u32 \<Rightarrow> u32 \<Rightarrow> exponential_decay_accumulator \<Rightarrow> (chain_exception, u64) result" where
  "value_ex_at ordinal window_size a =
     (if eda_last_ordinal a < ordinal then
        if (ucast (eda_last_ordinal a) :: u64) + ucast window_size > ucast ordinal then
          let n = (ucast window_size :: u128) - ucast (ordinal - eda_last_ordinal a)
          in rbind (eos_assert (n = 0 \<or> numeric_max div n \<ge> ucast (eda_value_ex a)) Rate_limiting_state_inconsistent) (\<lambda>_.
             rbind (checked_div (ucast (eda_value_ex a) * n) (ucast window_size)) downgrade_u64)
        else Inr 0
      else Inr (eda_value_ex a))"

definition value_at :: "u32 \<Rightarrow> u32 \<Rightarrow> exponential_decay_accumulator \<Rightarrow> (chain_exception, u64) result" where
  "value_at ordinal window_size a =
     rbind (value_ex_at ordinal window_size a) (\<lambda>v. integer_divide_ceil v rate_limiting_precision)"

definition decay_accumulator_add :: "u64 \<Rightarrow> u32 \<Rightarrow> u32 \<Rightarrow> exponential_decay_accumulator \<Rightarrow>
    (chain_exception, exponential_decay_accumulator) result" where
  "decay_accumulator_add units ordinal window_size a =
     rbind (eos_assert (units \<le> max_raw_value) Rate_limiting_state_inconsistent) (\<lambda>_.
     let units_ex = (ucast units :: u128) * ucast rate_limiting_precision
     in rbind (if eda_last_ordinal a < ordinal
               then rbind (value_ex_at ordinal window_size a) (\<lambda>v.
                      Inr (a\<lparr>eda_value_ex := v, eda_last_ordinal := ordinal\<rparr>))
               else Inr a) (\<lambda>a'.
        rbind (downgrade_u64 (min (units_ex + ucast (eda_value_ex a')) (2 ^ 64 - 1))) (\<lambda>v.
        Inr (a'\<lparr>eda_value_ex := v\<rparr>))))"

section \<open>Elastic limits\<close>

record elastic_limit_parameters =
  elp_target :: u64
  elp_max :: u64
  periods :: u32
  max_multiplier :: u32
  contract_rate :: ratio
  expand_rate :: ratio

definition elastic_validate :: "elastic_limit_parameters \<Rightarrow> (chain_exception, unit) result" where
  "elastic_validate p =
     rbind (eos_assert (periods p > 0) Resource_limit_exception) (\<lambda>_.
     rbind (eos_assert (denominator (contract_rate p) > 0) Resource_limit_exception) (\<lambda>_.
     eos_assert (denominator (expand_rate p) > 0) Resource_limit_exception))"

definition update_elastic_limit :: "u64 \<Rightarrow> u64 \<Rightarrow> elastic_limit_parameters \<Rightarrow> (chain_exception, u64) result" where
  "update_elastic_limit current_limit average_usage params =
     rbind (if average_usage > elp_target params
            then mul_ratio current_limit (contract_rate params)
            else mul_ratio current_limit (expand_rate params)) (\<lambda>r.
     Inr (min (max r (elp_max params)) (elp_max params * ucast (max_multiplier params))))"

section \<open>The rows of the database\<close>

record resource_limits_object =
  net_weight :: i64
  cpu_weight :: i64
  ram_bytes :: i64

definition new_limits :: resource_limits_object where
  "new_limits = \<lparr>net_weight = -1, cpu_weight = -1, ram_bytes = -1\<rparr>"

record resource_usage_object =
  net_usage :: exponential_moving_average_accumulator
  cpu_usage :: exponential_moving_average_accumulator
  ram_usage :: u64

definition new_usage :: resource_usage_object where
  "new_usage = \<lparr>net_usage = empty_accumulator, cpu_usage = empty_accumulator, ram_usage = 0\<rparr>"

record resource_limits_config_object =
  cpu_limit_parameters :: elastic_limit_parameters
  net_limit_parameters :: elastic_limit_parameters
  account_cpu_usage_average_window :: u32
  account_net_usage_average_window :: u32

record resource_limits_state_object =
  average_block_net_usage :: exponential_moving_average_accumulator
  average_block_cpu_usage :: exponential_moving_average_accumulator
  pending_net_usage :: u64
  pending_cpu_usage :: u64
  total_net_weight :: u64
  total_cpu_weight :: u64
  total_ram_bytes :: u64
  virtual_net_limit :: u64
  virtual_cpu_limit :: u64

text \<open>
  The row of \<^verbatim>\<open>resource_limits_object\<close> is found by its \<^verbatim>\<open>by_owner\<close> key, the pair of its fields \<^verbatim>\<open>pending\<close> and
  \<^verbatim>\<open>owner\<close>; the row of \<^verbatim>\<open>resource_usage_object\<close> by its \<^verbatim>\<open>owner\<close>. The other two indices hold one row.
\<close>

record resource_db =
  limits_index :: "(bool \<times> account_name, resource_limits_object) index"
  usage_index :: "(account_name, resource_usage_object) index"
  rl_config :: resource_limits_config_object
  rl_state :: resource_limits_state_object


definition default_config :: resource_limits_config_object where
  "default_config =
     \<lparr>cpu_limit_parameters =
        \<lparr>elp_target = 200000 * 1000 div 10000, elp_max = 200000, periods = 60000 div 500, max_multiplier = 1000,
         contract_rate = \<lparr>numerator = 99, denominator = 100\<rparr>, expand_rate = \<lparr>numerator = 1000, denominator = 999\<rparr>\<rparr>,
      net_limit_parameters =
        \<lparr>elp_target = 1048576 * 1000 div 10000, elp_max = 1048576, periods = 60000 div 500, max_multiplier = 1000,
         contract_rate = \<lparr>numerator = 99, denominator = 100\<rparr>, expand_rate = \<lparr>numerator = 1000, denominator = 999\<rparr>\<rparr>,
      account_cpu_usage_average_window = 86400000 div 500,
      account_net_usage_average_window = 86400000 div 500\<rparr>"

definition new_state :: resource_limits_state_object where
  "new_state =
     \<lparr>average_block_net_usage = empty_accumulator, average_block_cpu_usage = empty_accumulator,
      pending_net_usage = 0, pending_cpu_usage = 0, total_net_weight = 0, total_cpu_weight = 0, total_ram_bytes = 0,
      virtual_net_limit = 0, virtual_cpu_limit = 0\<rparr>"

section \<open>The operations of the manager\<close>

text \<open>\<^verbatim>\<open>initialize_database\<close> creates the rows of the two one-row indices; the other two start empty.\<close>

definition initialize_database :: resource_db where
  "initialize_database =
     \<lparr>limits_index = [], usage_index = [], rl_config = default_config,
      rl_state = new_state\<lparr>virtual_cpu_limit := elp_max (cpu_limit_parameters default_config),
                           virtual_net_limit := elp_max (net_limit_parameters default_config)\<rparr>\<rparr>"

definition initialize_account :: "account_name \<Rightarrow> resource_db \<Rightarrow> (chain_exception, resource_db) result" where
  "initialize_account account db =
     rbind (idx_create (False, account) new_limits (limits_index db)) (\<lambda>ls.
     rbind (idx_create account new_usage (usage_index db)) (\<lambda>us.
     Inr (db\<lparr>limits_index := ls, usage_index := us\<rparr>)))"

definition set_block_parameters :: "elastic_limit_parameters \<Rightarrow> elastic_limit_parameters \<Rightarrow> resource_db \<Rightarrow>
    (chain_exception, resource_db) result" where
  "set_block_parameters cpu net db =
     rbind (elastic_validate cpu) (\<lambda>_.
     rbind (elastic_validate net) (\<lambda>_.
     let config = rl_config db
     in if cpu_limit_parameters config = cpu \<and> net_limit_parameters config = net then Inr db
        else Inr (db\<lparr>rl_config := config\<lparr>cpu_limit_parameters := cpu, net_limit_parameters := net\<rparr>\<rparr>)))"

text \<open>
  The call of \<^verbatim>\<open>modify\<close> by which \<^verbatim>\<open>update_account_usage\<close> and \<^verbatim>\<open>add_transaction_usage\<close> add to both accumulators of
  an account.
\<close>

definition add_usage :: "u64 \<Rightarrow> u64 \<Rightarrow> u32 \<Rightarrow> resource_limits_config_object \<Rightarrow> resource_usage_object \<Rightarrow>
    (chain_exception, resource_usage_object) result" where
  "add_usage net cpu time_slot config bu =
     rbind (accumulator_add net time_slot (account_net_usage_average_window config) (net_usage bu)) (\<lambda>n.
     rbind (accumulator_add cpu time_slot (account_cpu_usage_average_window config) (cpu_usage bu)) (\<lambda>c.
     Inr (bu\<lparr>net_usage := n, cpu_usage := c\<rparr>)))"

definition update_account_usage :: "account_name list \<Rightarrow> u32 \<Rightarrow> resource_db \<Rightarrow> (chain_exception, resource_db) result" where
  "update_account_usage accounts time_slot =
     for_each (\<lambda>a db.
       rbind (idx_get (usage_index db) a) (\<lambda>usage.
       rbind (add_usage 0 0 time_slot (rl_config db) usage) (\<lambda>bu.
       Inr (db\<lparr>usage_index := idx_put a bu (usage_index db)\<rparr>)))) accounts"

text \<open>
  The limits of an account are its pending row when there is one. The result of the overload with three output
  parameters is the row itself, from which the callers take the fields.
\<close>

definition get_account_limits :: "account_name \<Rightarrow> resource_db \<Rightarrow> (chain_exception, resource_limits_object) result" where
  "get_account_limits account db =
     (case map_of (limits_index db) (True, account) of
        Some buo \<Rightarrow> Inr buo
      | None \<Rightarrow> idx_get (limits_index db) (False, account))"

text \<open>
  The share of the virtual capacity that a weight stands for, and what was used in the window. The products are
  taken modulo \<open>2\<^sup>1\<^sup>2\<^sup>8\<close>.
\<close>

definition max_use_in_window :: "u64 \<Rightarrow> u32 \<Rightarrow> i64 \<Rightarrow> u64 \<Rightarrow> u128" where
  "max_use_in_window virtual_limit window weight total_weight =
     (ucast virtual_limit * ucast window) * ucast weight div ucast total_weight"

definition used_in_window :: "exponential_moving_average_accumulator \<Rightarrow> u32 \<Rightarrow> u128" where
  "used_in_window usage window =
     (ucast (value_ex usage) * ucast window) div ucast rate_limiting_precision"

definition check_cpu_usage :: "bool \<Rightarrow> resource_limits_object \<Rightarrow> resource_usage_object \<Rightarrow> resource_db \<Rightarrow> (chain_exception, unit) result" where
  "check_cpu_usage override_chain_cpu_limits limits usage db =
     (if 0 \<le> sint (cpu_weight limits) \<and> total_cpu_weight (rl_state db) > 0 \<and> \<not> override_chain_cpu_limits
      then eos_assert
             (used_in_window (cpu_usage usage) (account_cpu_usage_average_window (rl_config db))
              \<le> max_use_in_window (virtual_cpu_limit (rl_state db)) (account_cpu_usage_average_window (rl_config db))
                   (cpu_weight limits) (total_cpu_weight (rl_state db)))
             Tx_cpu_usage_exceeded
      else Inr ())"

definition check_net_usage :: "resource_limits_object \<Rightarrow> resource_usage_object \<Rightarrow> resource_db \<Rightarrow> (chain_exception, unit) result" where
  "check_net_usage limits usage db =
     (if 0 \<le> sint (net_weight limits) \<and> total_net_weight (rl_state db) > 0
      then eos_assert
             (used_in_window (net_usage usage) (account_net_usage_average_window (rl_config db))
              \<le> max_use_in_window (virtual_net_limit (rl_state db)) (account_net_usage_average_window (rl_config db))
                   (net_weight limits) (total_net_weight (rl_state db)))
             Tx_net_usage_exceeded
      else Inr ())"

definition add_usage_of_account :: "u64 \<Rightarrow> u64 \<Rightarrow> u32 \<Rightarrow> bool \<Rightarrow> account_name \<Rightarrow> resource_db \<Rightarrow> (chain_exception, resource_db) result" where
  "add_usage_of_account cpu net time_slot override_chain_cpu_limits a db =
     rbind (idx_get (usage_index db) a) (\<lambda>usage.
     rbind (get_account_limits a db) (\<lambda>limits.
     rbind (add_usage net cpu time_slot (rl_config db) usage) (\<lambda>usage'.
     rbind (check_cpu_usage override_chain_cpu_limits limits usage' db) (\<lambda>_.
     rbind (check_net_usage limits usage' db) (\<lambda>_.
     Inr (db\<lparr>usage_index := idx_put a usage' (usage_index db)\<rparr>))))))"

definition add_transaction_usage :: "account_name list \<Rightarrow> u64 \<Rightarrow> u64 \<Rightarrow> u32 \<Rightarrow> bool \<Rightarrow> resource_db \<Rightarrow> (chain_exception, resource_db) result" where
  "add_transaction_usage accounts cpu net time_slot override_chain_cpu_limits db =
     rbind (for_each (add_usage_of_account cpu net time_slot override_chain_cpu_limits) accounts db) (\<lambda>db'.
     let rls = rl_state db';
         rls' = rls\<lparr>pending_cpu_usage := pending_cpu_usage rls + cpu, pending_net_usage := pending_net_usage rls + net\<rparr>
     in rbind (eos_assert (pending_cpu_usage rls' \<le> elp_max (cpu_limit_parameters (rl_config db')) \<or> override_chain_cpu_limits)
                 Block_resource_exhausted) (\<lambda>_.
        rbind (eos_assert (pending_net_usage rls' \<le> elp_max (net_limit_parameters (rl_config db')))
                 Block_resource_exhausted) (\<lambda>_.
        Inr (db'\<lparr>rl_state := rls'\<rparr>))))"

text \<open>
  The negation of the least \<^verbatim>\<open>int64_t\<close> is undefined in C++.
\<close>

definition add_pending_ram_usage :: "account_name \<Rightarrow> i64 \<Rightarrow> resource_db \<Rightarrow> (chain_exception, resource_db) result" where
  "add_pending_ram_usage account ram_delta db =
     (if ram_delta = 0 then Inr db
      else rbind (idx_get (usage_index db) account) (\<lambda>usage.
        rbind (eos_assert (sint ram_delta \<le> 0 \<or> numeric_max - ram_usage usage \<ge> ram_delta) Transaction_exception) (\<lambda>_.
        rbind (if 0 \<le> sint ram_delta then Inr ()
               else if ram_delta = 2 ^ 63 then Inl Undefined_behaviour
               else eos_assert (ram_usage usage \<ge> - ram_delta) Transaction_exception) (\<lambda>_.
        Inr (db\<lparr>usage_index := idx_put account (usage\<lparr>ram_usage := ram_usage usage + ram_delta\<rparr>) (usage_index db)\<rparr>)))))"

definition verify_account_ram_usage :: "account_name \<Rightarrow> resource_db \<Rightarrow> (chain_exception, unit) result" where
  "verify_account_ram_usage account db =
     rbind (get_account_limits account db) (\<lambda>limits.
     rbind (idx_get (usage_index db) account) (\<lambda>usage.
     if 0 \<le> sint (ram_bytes limits) then eos_assert (ram_usage usage \<le> ram_bytes limits) Ram_usage_exceeded
     else Inr ()))"

definition get_account_ram_usage :: "account_name \<Rightarrow> resource_db \<Rightarrow> (chain_exception, i64) result" where
  "get_account_ram_usage account db = rbind (idx_get (usage_index db) account) (\<lambda>usage. Inr (ram_usage usage))"

text \<open>The pending row of an account, created as a copy of its actual row when it does not exist.\<close>

definition get_or_create_pending_account_limits :: "account_name \<Rightarrow> resource_db \<Rightarrow>
    (chain_exception, resource_limits_object \<times> resource_db) result" where
  "get_or_create_pending_account_limits account db =
     (case map_of (limits_index db) (True, account) of
        None \<Rightarrow>
          rbind (idx_get (limits_index db) (False, account)) (\<lambda>limits.
          rbind (idx_create (True, account) limits (limits_index db)) (\<lambda>ls.
          Inr (limits, db\<lparr>limits_index := ls\<rparr>)))
      | Some pending \<Rightarrow> Inr (pending, db))"

definition set_account_limits :: "account_name \<Rightarrow> i64 \<Rightarrow> i64 \<Rightarrow> i64 \<Rightarrow> resource_db \<Rightarrow>
    (chain_exception, bool \<times> resource_db) result" where
  "set_account_limits account ram net cpu db =
     rbind (get_or_create_pending_account_limits account db) (\<lambda>(limits, db').
     let decreased_limit = (0 \<le> sint ram \<and> (sint (ram_bytes limits) < 0 \<or> sint ram < sint (ram_bytes limits)));
         limits' = limits\<lparr>ram_bytes := ram, net_weight := net, cpu_weight := cpu\<rparr>
     in Inr (decreased_limit, db'\<lparr>limits_index := idx_put (True, account) limits' (limits_index db')\<rparr>))"

definition is_unlimited_cpu :: "account_name \<Rightarrow> resource_db \<Rightarrow> bool" where
  "is_unlimited_cpu account db =
     (case map_of (limits_index db) (False, account) of Some rlo \<Rightarrow> cpu_weight rlo = -1 | None \<Rightarrow> False)"

text \<open>
  The lambda \<^verbatim>\<open>update_state_and_value\<close>: the new total, and the pending value that replaces the old one.
\<close>

definition update_state_and_value :: "u64 \<Rightarrow> i64 \<Rightarrow> i64 \<Rightarrow> (chain_exception, u64 \<times> i64) result" where
  "update_state_and_value tot val pending_value =
     rbind (if sint val > 0
            then rbind (eos_assert (tot \<ge> val) Rate_limiting_state_inconsistent) (\<lambda>_. Inr (tot - val))
            else Inr tot) (\<lambda>tot'.
     rbind (if sint pending_value > 0
            then rbind (eos_assert (numeric_max - tot' \<ge> pending_value) Rate_limiting_state_inconsistent) (\<lambda>_.
                   Inr (tot' + pending_value))
            else Inr tot') (\<lambda>tot''.
     Inr (tot'', pending_value)))"

definition apply_pending_limits :: "account_name \<Rightarrow> resource_limits_object \<Rightarrow> resource_db \<Rightarrow> (chain_exception, resource_db) result" where
  "apply_pending_limits account pending db =
     rbind (idx_get (limits_index db) (False, account)) (\<lambda>actual.
     let rso = rl_state db in
     rbind (update_state_and_value (total_ram_bytes rso) (ram_bytes actual) (ram_bytes pending)) (\<lambda>(tr, r).
     rbind (update_state_and_value (total_cpu_weight rso) (cpu_weight actual) (cpu_weight pending)) (\<lambda>(tc, c).
     rbind (update_state_and_value (total_net_weight rso) (net_weight actual) (net_weight pending)) (\<lambda>(tn, n).
     Inr (db\<lparr>rl_state := rso\<lparr>total_ram_bytes := tr, total_cpu_weight := tc, total_net_weight := tn\<rparr>,
             limits_index := idx_remove (True, account)
               (idx_put (False, account) (actual\<lparr>ram_bytes := r, cpu_weight := c, net_weight := n\<rparr>) (limits_index db))\<rparr>)))))"

text \<open>
  The loop takes the first row at or after the key \<^verbatim>\<open>(true)\<close>, that is the pending row with the least owner, until
  there is none. Every round removes one pending row, so the number of pending rows bounds the rounds; the loop is
  written with this number as its fuel.
\<close>

definition pending_rows :: "(bool \<times> account_name, resource_limits_object) index \<Rightarrow> nat" where
  "pending_rows ls = length (filter (\<lambda>r. fst (fst r)) ls)"

fun process_pending :: "nat \<Rightarrow> resource_db \<Rightarrow> (chain_exception, resource_db) result option" where
  "process_pending n db =
     (case idx_lower_bound (True, 0) (limits_index db) of
        None \<Rightarrow> Some (Inr db)
      | Some ((is_pending, account), pending) \<Rightarrow>
          if \<not> is_pending then Some (Inr db)
          else (case n of
                  0 \<Rightarrow> None
                | Suc n' \<Rightarrow>
                    (case apply_pending_limits account pending db of
                       Inl e \<Rightarrow> Some (Inl e)
                     | Inr db' \<Rightarrow> process_pending n' db')))"

definition process_account_limit_updates :: "resource_db \<Rightarrow> (chain_exception, resource_db) result option" where
  "process_account_limit_updates db = process_pending (pending_rows (limits_index db)) db"

declare process_pending.simps [simp del]

definition update_virtual_cpu_limit :: "resource_limits_config_object \<Rightarrow> resource_limits_state_object \<Rightarrow>
    (chain_exception, resource_limits_state_object) result" where
  "update_virtual_cpu_limit cfg s =
     rbind (average (average_block_cpu_usage s)) (\<lambda>av.
     rbind (update_elastic_limit (virtual_cpu_limit s) av (cpu_limit_parameters cfg)) (\<lambda>l.
     Inr (s\<lparr>virtual_cpu_limit := l\<rparr>)))"

definition update_virtual_net_limit :: "resource_limits_config_object \<Rightarrow> resource_limits_state_object \<Rightarrow>
    (chain_exception, resource_limits_state_object) result" where
  "update_virtual_net_limit cfg s =
     rbind (average (average_block_net_usage s)) (\<lambda>av.
     rbind (update_elastic_limit (virtual_net_limit s) av (net_limit_parameters cfg)) (\<lambda>l.
     Inr (s\<lparr>virtual_net_limit := l\<rparr>)))"

definition process_block_usage :: "u32 \<Rightarrow> resource_db \<Rightarrow> (chain_exception, resource_db) result" where
  "process_block_usage block_num db =
     (let config = rl_config db; s = rl_state db in
      rbind (accumulator_add (pending_cpu_usage s) block_num (periods (cpu_limit_parameters config)) (average_block_cpu_usage s)) (\<lambda>ac.
      rbind (update_virtual_cpu_limit config (s\<lparr>average_block_cpu_usage := ac\<rparr>)) (\<lambda>s1.
      let s2 = s1\<lparr>pending_cpu_usage := 0\<rparr> in
      rbind (accumulator_add (pending_net_usage s2) block_num (periods (net_limit_parameters config)) (average_block_net_usage s2)) (\<lambda>an.
      rbind (update_virtual_net_limit config (s2\<lparr>average_block_net_usage := an\<rparr>)) (\<lambda>s3.
      Inr (db\<lparr>rl_state := s3\<lparr>pending_net_usage := 0\<rparr>\<rparr>))))))"

section \<open>Queries\<close>

definition get_total_cpu_weight :: "resource_db \<Rightarrow> u64" where
  "get_total_cpu_weight db = total_cpu_weight (rl_state db)"

definition get_total_net_weight :: "resource_db \<Rightarrow> u64" where
  "get_total_net_weight db = total_net_weight (rl_state db)"

definition get_virtual_block_cpu_limit :: "resource_db \<Rightarrow> u64" where
  "get_virtual_block_cpu_limit db = virtual_cpu_limit (rl_state db)"

definition get_virtual_block_net_limit :: "resource_db \<Rightarrow> u64" where
  "get_virtual_block_net_limit db = virtual_net_limit (rl_state db)"

definition get_block_cpu_limit :: "resource_db \<Rightarrow> u64" where
  "get_block_cpu_limit db = elp_max (cpu_limit_parameters (rl_config db)) - pending_cpu_usage (rl_state db)"

definition get_block_net_limit :: "resource_db \<Rightarrow> u64" where
  "get_block_net_limit db = elp_max (net_limit_parameters (rl_config db)) - pending_net_usage (rl_state db)"

record account_resource_limit =
  arl_used :: i64
  arl_available :: i64
  arl_max :: i64
  last_usage_update_time :: u32
  current_used :: i64

definition maximum_elastic_resource_multiplier :: u32 where
  "maximum_elastic_resource_multiplier = 1000"

text \<open>
  The virtual limit an account is measured against, and whether the greylist lowered it.
\<close>

definition greylisted_limit :: "u32 \<Rightarrow> u64 \<Rightarrow> u64 \<Rightarrow> u64 \<times> bool" where
  "greylisted_limit greylist_limit block_max virtual_limit =
     (if greylist_limit < maximum_elastic_resource_multiplier \<and> block_max * ucast greylist_limit < virtual_limit
      then (block_max * ucast greylist_limit, True)
      else (virtual_limit, False))"

text \<open>
  The common text of \<^verbatim>\<open>get_account_cpu_limit_ex\<close> and \<^verbatim>\<open>get_account_net_limit_ex\<close> from the declaration of \<^verbatim>\<open>arl\<close> on.
\<close>

definition account_limit_ex :: "u32 \<Rightarrow> u64 \<Rightarrow> i64 \<Rightarrow> u64 \<Rightarrow> exponential_moving_average_accumulator \<Rightarrow> u32 option \<Rightarrow>
    (chain_exception, account_resource_limit) result" where
  "account_limit_ex window virtual_limit weight total_weight usage current_time =
     (let max_user_use_in_window = max_use_in_window virtual_limit window weight total_weight in
      rbind (integer_divide_ceil ((ucast (value_ex usage) :: u128) * ucast window) (ucast rate_limiting_precision)) (\<lambda>used.
      rbind (if max_user_use_in_window \<le> used then Inr 0 else downgrade_i64 (max_user_use_in_window - used)) (\<lambda>avail.
      rbind (downgrade_i64 used) (\<lambda>u.
      rbind (downgrade_i64 max_user_use_in_window) (\<lambda>mx.
      rbind (case current_time of
               Some slot \<Rightarrow>
                 if slot > last_ordinal usage
                 then rbind (accumulator_add 0 slot window usage) (\<lambda>history.
                      rbind (integer_divide_ceil ((ucast (value_ex history) :: u128) * ucast window)
                               (ucast rate_limiting_precision)) downgrade_i64)
                 else Inr u
             | None \<Rightarrow> Inr u) (\<lambda>cu.
      Inr \<lparr>arl_used = u, arl_available = avail, arl_max = mx, last_usage_update_time = last_ordinal usage, current_used = cu\<rparr>))))))"

definition unlimited_resource :: "u32 \<Rightarrow> account_resource_limit" where
  "unlimited_resource slot =
     \<lparr>arl_used = -1, arl_available = -1, arl_max = -1, last_usage_update_time = slot, current_used = -1\<rparr>"

definition get_account_cpu_limit_ex :: "account_name \<Rightarrow> u32 \<Rightarrow> u32 option \<Rightarrow> resource_db \<Rightarrow>
    (chain_exception, account_resource_limit \<times> bool) result" where
  "get_account_cpu_limit_ex account greylist_limit current_time db =
     rbind (idx_get (usage_index db) account) (\<lambda>usage.
     rbind (get_account_limits account db) (\<lambda>limits.
     let state = rl_state db; config = rl_config db in
     if sint (cpu_weight limits) < 0 \<or> total_cpu_weight state = 0
     then Inr (unlimited_resource (last_ordinal (cpu_usage usage)), False)
     else
       let (virtual_limit, greylisted) =
             greylisted_limit greylist_limit (elp_max (cpu_limit_parameters config)) (virtual_cpu_limit state)
       in rbind (account_limit_ex (account_cpu_usage_average_window config) virtual_limit (cpu_weight limits)
                   (total_cpu_weight state) (cpu_usage usage) current_time) (\<lambda>arl. Inr (arl, greylisted))))"

definition get_account_cpu_limit :: "account_name \<Rightarrow> u32 \<Rightarrow> resource_db \<Rightarrow> (chain_exception, i64 \<times> bool) result" where
  "get_account_cpu_limit account greylist_limit db =
     rbind (get_account_cpu_limit_ex account greylist_limit None db) (\<lambda>(arl, greylisted). Inr (arl_available arl, greylisted))"

definition get_account_net_limit_ex :: "account_name \<Rightarrow> u32 \<Rightarrow> u32 option \<Rightarrow> resource_db \<Rightarrow>
    (chain_exception, account_resource_limit \<times> bool) result" where
  "get_account_net_limit_ex account greylist_limit current_time db =
     rbind (idx_get (usage_index db) account) (\<lambda>usage.
     rbind (get_account_limits account db) (\<lambda>limits.
     let state = rl_state db; config = rl_config db in
     if sint (net_weight limits) < 0 \<or> total_net_weight state = 0
     then Inr (unlimited_resource (last_ordinal (net_usage usage)), False)
     else
       let (virtual_limit, greylisted) =
             greylisted_limit greylist_limit (elp_max (net_limit_parameters config)) (virtual_net_limit state)
       in rbind (account_limit_ex (account_net_usage_average_window config) virtual_limit (net_weight limits)
                   (total_net_weight state) (net_usage usage) current_time) (\<lambda>arl. Inr (arl, greylisted))))"

definition get_account_net_limit :: "account_name \<Rightarrow> u32 \<Rightarrow> resource_db \<Rightarrow> (chain_exception, i64 \<times> bool) result" where
  "get_account_net_limit account greylist_limit db =
     rbind (get_account_net_limit_ex account greylist_limit None db) (\<lambda>(arl, greylisted). Inr (arl_available arl, greylisted))"

section \<open>Exactness of the accumulators\<close>

lemma integer_divide_ceil_eq_Inr:
  "integer_divide_ceil (n :: 'a::len word) d = Inr q \<Longrightarrow> d \<noteq> 0 \<and> unat q = ceil_div (unat n) (unat d)"
proof -
  assume a: "integer_divide_ceil n d = Inr q"
  then have d: "d \<noteq> 0" and q: "q = n div d + (if n mod d > 0 then 1 else 0)"
    by (auto simp: integer_divide_ceil_def checked_div_def split: if_splits)
  have "0 < unat d" using d by (simp add: unat_gt_0)
  have "unat (n div d) + (if n mod d > 0 then 1 else 0) \<le> unat n"
  proof (cases "n mod d = 0")
    case False
    then have "unat d \<noteq> 1" by (metis mod_by_1 unat_mod unat_eq_zero)
    with \<open>0 < unat d\<close> have "2 \<le> unat d" by simp
    moreover have "unat n \<noteq> 0" using False by (metis unat_eq_zero mod_0)
    ultimately have "unat n div unat d < unat n"
      by (intro div_less_dividend) auto
    then show ?thesis
      using False by (simp add: unat_div)
  qed (simp add: unat_div)
  with unsigned_less [of n] have "unat (n div d) + unat (if n mod d > 0 then 1 else 0 :: 'a word) < 2 ^ LENGTH('a)"
    by (auto split: if_splits intro: le_less_trans)
  then show ?thesis
    unfolding q using d \<open>0 < unat d\<close>
    by (simp add: unat_plus_exact ceil_div_eq) (simp add: unat_div unat_mod word_less_nat_alt)
qed

lemma mul_ratio_eq_Inr:
  assumes "mul_ratio v r = Inr q"
  shows "denominator r \<noteq> 0 \<and> unat q = unat v * unat (numerator r) div unat (denominator r)"
proof -
  have d: "denominator r \<noteq> 0" and q: "q = v * numerator r div denominator r"
    and n: "numerator r = 0 \<or> v \<le> numeric_max div numerator r"
    using assms by (auto simp: mul_ratio_def checked_div_def result_simps split: if_splits)
  have "unat v * unat (numerator r) < 2 ^ 64"
    using n le_numeric_max_div_iff [of "numerator r" v] by (cases "numerator r = 0") auto
  then show ?thesis
    using d q by (simp add: unat_div unat_mult_exact)
qed

lemma downgrade_u64_eq_Inr: "downgrade_u64 v = Inr q \<Longrightarrow> unat q = unat v"
proof -
  assume "downgrade_u64 v = Inr q"
  then have "v \<le> 2 ^ 64 - 1" and q: "q = ucast v"
    by (auto simp: downgrade_u64_def result_simps)
  then have "unat v < 2 ^ 64" by (simp add: word_le_nat_alt)
  then show ?thesis unfolding q by (simp add: unsigned_ucast_eq take_bit_nat_eq_self_iff)
qed

lemma downgrade_i64_eq_Inr: "downgrade_i64 v = Inr q \<Longrightarrow> unat q = unat v \<and> unat v < 2 ^ 63"
proof -
  assume "downgrade_i64 v = Inr q"
  then have "v \<le> 2 ^ 63 - 1" and q: "q = ucast v"
    by (auto simp: downgrade_i64_def result_simps)
  then have "unat v < 2 ^ 63" by (simp add: word_le_nat_alt)
  then show ?thesis unfolding q by (simp add: unsigned_ucast_eq take_bit_nat_eq_self_iff)
qed

definition decayed :: "nat \<Rightarrow> nat \<Rightarrow> nat \<Rightarrow> nat" where
  "decayed w delta v = (if delta < w then v * (w - delta) div w else 0)"

lemma decayed_le: "decayed w delta v \<le> v"
proof -
  have "v * (w - delta) div w \<le> v * w div w" by (intro div_le_mono) simp
  also have "\<dots> \<le> v" by (cases "w = 0") simp_all
  finally show ?thesis by (simp add: decayed_def)
qed

lemma decayed_0 [simp]: "0 < w \<Longrightarrow> decayed w 0 v = v"
  by (simp add: decayed_def)

lemma average_eq_Inr: "average a = Inr q \<Longrightarrow> unat q = ceil_div (unat (value_ex a)) 1000000"
  unfolding average_def by (drule integer_divide_ceil_eq_Inr) (simp add: rate_limiting_precision_def)

lemma decay_to_eq_Inr:
  assumes "decay_to ordinal w a = Inr a'"
  shows "last_ordinal a < ordinal \<and> last_ordinal a' = ordinal \<and>
    unat (value_ex a') = decayed (unat w) (unat ordinal - unat (last_ordinal a)) (unat (value_ex a)) \<and>
    unat (consumed a') = ceil_div (unat (value_ex a')) 1000000"
proof -
  let ?delta = "unat ordinal - unat (last_ordinal a)"
  obtain v av where ord: "last_ordinal a < ordinal"
    and v: "(if (ucast (last_ordinal a) :: u64) + ucast w > ucast ordinal
            then mul_ratio (value_ex a)
                   \<lparr>numerator = ucast w - ucast (ordinal - last_ordinal a), denominator = ucast w\<rparr>
            else Inr 0) = Inr v"
    and av: "average (a\<lparr>value_ex := v, last_ordinal := ordinal\<rparr>) = Inr av"
    and a': "a' = a\<lparr>value_ex := v, last_ordinal := ordinal, consumed := av\<rparr>"
    using assms by (auto simp: decay_to_def Let_def result_simps)
  have small: "unat (last_ordinal a) + unat w < 2 ^ 64"
    using unat_lt_32 [of "last_ordinal a"] unat_lt_32 [of w] by simp
  have cond: "(ucast (last_ordinal a) :: u64) + ucast w > ucast ordinal \<longleftrightarrow> ?delta < unat w"
    using ord small by (auto simp: word_less_nat_alt unat_plus_exact)
  have delta: "unat (ordinal - last_ordinal a) = ?delta"
    using ord by (simp add: unat_sub)
  have num: "unat ((ucast w :: u64) - ucast (ordinal - last_ordinal a)) = unat w - ?delta" if "?delta < unat w"
    using that delta by (subst unat_sub) (simp_all add: word_le_nat_alt)
  have "unat v = decayed (unat w) ?delta (unat (value_ex a))"
    using v cond num by (auto simp: decayed_def dest!: mul_ratio_eq_Inr split: if_splits)
  with ord a' average_eq_Inr [OF av] show ?thesis by simp
qed

text \<open>The exact effect of a charge on a moving average, between natural numbers.\<close>

definition charged :: "u64 \<Rightarrow> u32 \<Rightarrow> u32 \<Rightarrow> exponential_moving_average_accumulator \<Rightarrow>
    exponential_moving_average_accumulator \<Rightarrow> bool" where
  "charged units ordinal window a a' \<longleftrightarrow>
     window \<noteq> 0 \<and> last_ordinal a \<le> ordinal \<and> last_ordinal a' = ordinal \<and>
     (let d = decayed (unat window) (unat ordinal - unat (last_ordinal a)) (unat (value_ex a)) in
      unat (value_ex a') = d + ceil_div (unat units * 1000000) (unat window) \<and>
      unat (consumed a') = (if ordinal = last_ordinal a then unat (consumed a) else ceil_div d 1000000) + unat units)"

lemma accumulator_add_charged:
  assumes "accumulator_add units ordinal window a = Inr a'"
  shows "charged units ordinal window a a'"
proof -
  obtain q c a1 where u: "units \<le> max_raw_value" and cons: "units \<le> numeric_max - consumed a"
    and q: "integer_divide_ceil ((ucast units :: u128) * ucast rate_limiting_precision) (ucast window) = Inr q"
    and c: "downgrade_u64 q = Inr c" and v: "c \<le> numeric_max - value_ex a"
    and a1: "(if last_ordinal a \<noteq> ordinal then decay_to ordinal window a else Inr a) = Inr a1"
    and a': "a' = a1\<lparr>consumed := consumed a1 + units, value_ex := value_ex a1 + c\<rparr>"
    using assms by (auto simp: accumulator_add_def result_simps)
  have units: "unat units \<le> 18446744073709"
    using u by (simp add: max_raw_value_def rate_limiting_precision_def word_le_nat_alt unat_div unat_numeric_max)
  then have "unat ((ucast units :: u128) * ucast rate_limiting_precision) = unat units * 1000000"
    by (subst unat_mult_exact) (simp_all add: rate_limiting_precision_def)
  then have w: "window \<noteq> 0" and contrib: "unat c = ceil_div (unat units * 1000000) (unat window)"
    using integer_divide_ceil_eq_Inr [OF q] downgrade_u64_eq_Inr [OF c] by auto
  have sum: "unat (value_ex a) + unat c < 2 ^ 64" "unat (consumed a) + unat units < 2 ^ 64"
    using v cons by (simp_all add: le_numeric_max_minus_iff)
  show ?thesis
  proof (cases "ordinal = last_ordinal a")
    case True
    with a1 a' w contrib sum show ?thesis
      by (simp add: charged_def unat_plus_exact unat_gt_0)
  next
    case False
    with a1 have d: "decay_to ordinal window a = Inr a1" by simp
    note r = decay_to_eq_Inr [OF d]
    have le: "unat (value_ex a1) \<le> unat (value_ex a)" using r decayed_le by simp
    moreover have "unat (consumed a1) \<le> 18446744073711"
      using r ceil_div_le [of 1000000 "unat (value_ex a1)"] unat_lt_64 [of "value_ex a1"] by linarith
    ultimately show ?thesis
      using r False a' w contrib sum units by (simp add: charged_def unat_plus_exact Let_def less_imp_le)
  qed
qed

text \<open>
  C33: adding usage to a moving average is exact. Whenever \<^verbatim>\<open>add\<close> returns, the window is positive, the ordinal did
  not decrease, the average has decayed in proportion to the elapsed part of the window (to zero when the whole window
  elapsed) and grown by the precision-scaled contribution rounded up, and \<^verbatim>\<open>consumed\<close> has been restarted from the
  rounded average; the equations hold between natural numbers, so neither 64-bit field wraps around.
\<close>

theorem accumulator_add_exact:
  assumes "accumulator_add units ordinal window a = Inr a'"
  shows "window \<noteq> 0 \<and> last_ordinal a \<le> ordinal \<and> last_ordinal a' = ordinal \<and>
    (let d = decayed (unat window) (unat ordinal - unat (last_ordinal a)) (unat (value_ex a)) in
     unat (value_ex a') = d + ceil_div (unat units * 1000000) (unat window) \<and>
     unat (consumed a') = (if ordinal = last_ordinal a then unat (consumed a) else ceil_div d 1000000) + unat units)"
  using accumulator_add_charged [OF assms] unfolding charged_def .

section \<open>How the virtual limits move\<close>

definition elastic_rate :: "elastic_limit_parameters \<Rightarrow> nat \<Rightarrow> ratio" where
  "elastic_rate p avg = (if unat (elp_target p) < avg then contract_rate p else expand_rate p)"

definition elastic_step :: "elastic_limit_parameters \<Rightarrow> nat \<Rightarrow> nat \<Rightarrow> nat" where
  "elastic_step p avg cur =
     min (max (cur * unat (numerator (elastic_rate p avg)) div unat (denominator (elastic_rate p avg))) (unat (elp_max p)))
       (unat (elp_max p) * unat (max_multiplier p))"

lemma update_elastic_limit_eq_Inr:
  assumes "update_elastic_limit cur avg p = Inr r"
    and "unat (elp_max p) * unat (max_multiplier p) < 2 ^ 64"
  shows "unat r = elastic_step p (unat avg) (unat cur)"
proof -
  obtain q where q: "mul_ratio cur (elastic_rate p (unat avg)) = Inr q"
    and r: "r = min (max q (elp_max p)) (elp_max p * ucast (max_multiplier p))"
    using assms(1) by (auto simp: update_elastic_limit_def elastic_rate_def word_less_nat_alt result_simps split: if_splits)
  have "unat (elp_max p * ucast (max_multiplier p)) = unat (elp_max p) * unat (max_multiplier p)"
    using assms(2) by (subst unat_mult_exact) simp_all
  then show ?thesis
    using mul_ratio_eq_Inr [OF q] by (simp add: r unat_min unat_max elastic_step_def)
qed

lemma elastic_step_bounds:
  "1 \<le> max_multiplier p \<Longrightarrow> unat (elp_max p) \<le> elastic_step p avg cur \<and>
     elastic_step p avg cur \<le> unat (elp_max p) * unat (max_multiplier p)"
  by (simp add: elastic_step_def word_le_nat_alt)

text \<open>
  C34: closing a block feeds the pending usage of the block to both averages, resets it, and moves each virtual limit by
  its contraction or expansion rate, depending on whether the rounded average exceeds the target, clamped between the
  block maximum and its multiple. The equations are between natural numbers, for parameters whose largest virtual limit
  fits 64 bits.
\<close>

theorem process_block_usage_elastic:
  assumes "process_block_usage block_num db = Inr db'"
    and "unat (elp_max (cpu_limit_parameters (rl_config db))) * unat (max_multiplier (cpu_limit_parameters (rl_config db))) < 2 ^ 64"
    and "unat (elp_max (net_limit_parameters (rl_config db))) * unat (max_multiplier (net_limit_parameters (rl_config db))) < 2 ^ 64"
  shows "pending_cpu_usage (rl_state db') = 0 \<and> pending_net_usage (rl_state db') = 0 \<and>
    accumulator_add (pending_cpu_usage (rl_state db)) block_num (periods (cpu_limit_parameters (rl_config db)))
      (average_block_cpu_usage (rl_state db)) = Inr (average_block_cpu_usage (rl_state db')) \<and>
    accumulator_add (pending_net_usage (rl_state db)) block_num (periods (net_limit_parameters (rl_config db)))
      (average_block_net_usage (rl_state db)) = Inr (average_block_net_usage (rl_state db')) \<and>
    unat (virtual_cpu_limit (rl_state db')) = elastic_step (cpu_limit_parameters (rl_config db))
      (ceil_div (unat (value_ex (average_block_cpu_usage (rl_state db')))) 1000000) (unat (virtual_cpu_limit (rl_state db))) \<and>
    unat (virtual_net_limit (rl_state db')) = elastic_step (net_limit_parameters (rl_config db))
      (ceil_div (unat (value_ex (average_block_net_usage (rl_state db')))) 1000000) (unat (virtual_net_limit (rl_state db)))"
  using assms
  by (auto simp: process_block_usage_def update_virtual_cpu_limit_def update_virtual_net_limit_def Let_def result_simps
      dest!: update_elastic_limit_eq_Inr average_eq_Inr)

section \<open>Totals of the weights\<close>

definition weight_value :: "i64 \<Rightarrow> nat" where
  "weight_value w = (if 0 < sint w then unat w else 0)"

abbreviation limits_total :: "(resource_limits_object \<Rightarrow> i64) \<Rightarrow> resource_db \<Rightarrow> nat" where
  "limits_total f db \<equiv> sorted_rows.total (\<lambda>((p, a), r). if p then 0 else weight_value (f r)) (limits_index db)"

definition resource_inv :: "resource_db \<Rightarrow> bool" where
  "resource_inv db \<longleftrightarrow> idx_ok (limits_index db) \<and> idx_ok (usage_index db) \<and>
     (\<forall>a. map_of (limits_index db) (True, a) \<noteq> None \<longrightarrow> map_of (usage_index db) a \<noteq> None) \<and>
     (\<forall>a. map_of (limits_index db) (False, a) \<noteq> None \<longleftrightarrow> map_of (usage_index db) a \<noteq> None) \<and>
     unat (total_ram_bytes (rl_state db)) = limits_total ram_bytes db \<and>
     unat (total_cpu_weight (rl_state db)) = limits_total cpu_weight db \<and>
     unat (total_net_weight (rl_state db)) = limits_total net_weight db"

lemma update_state_and_value_eq_Inr:
  assumes "update_state_and_value t v p = Inr (t', v')"
  shows "v' = p \<and> unat t' + weight_value v = unat t + weight_value p"
proof -
  obtain t1 where t1: "(if sint v > 0 then rbind (eos_assert (t \<ge> v) Rate_limiting_state_inconsistent) (\<lambda>_. Inr (t - v))
            else Inr t) = Inr t1"
    and t': "(if sint p > 0 then rbind (eos_assert (numeric_max - t1 \<ge> p) Rate_limiting_state_inconsistent) (\<lambda>_. Inr (t1 + p))
            else Inr t1) = Inr t'"
    and "v' = p"
    using assms by (auto simp: update_state_and_value_def result_simps)
  have "unat t1 + weight_value v = unat t"
    using t1 by (auto simp: weight_value_def result_simps unat_sub word_le_nat_alt split: if_splits)
  moreover have "unat t' = unat t1 + weight_value p"
    using t' by (auto simp: weight_value_def result_simps le_numeric_max_minus_iff unat_plus_exact split: if_splits)
  ultimately show ?thesis using \<open>v' = p\<close> by simp
qed

lemma apply_pending_limits_totals:
  assumes ok: "idx_ok (limits_index db)" and pend: "map_of (limits_index db) (True, account) = Some pending"
    and a: "map_of (limits_index db) (False, account) = Some actual"
    and t: "unat t = limits_total f db" and "update_state_and_value t (f actual) (f pending) = Inr (t', v')"
    and r: "f r = v'"
  shows "unat t' = sorted_rows.total (\<lambda>((p, a), r). if p then 0 else weight_value (f r))
    (idx_remove (True, account) (idx_put (False, account) r (limits_index db)))"
proof -
  let ?g = "\<lambda>((p, a), r). if p then 0 else weight_value (f r)"
  let ?m = "idx_put (False, account) r (limits_index db)"
  have "sorted_rows.total ?g ?m = sorted_rows.total ?g (idx_remove (True, account) ?m)"
    using sorted_rows.total_del [of ?m "(True, account)" pending ?g] ok pend
    by (simp add: idx_ok_put map_of_idx_put)
  moreover have "weight_value (f actual) + sorted_rows.total ?g ?m = weight_value v' + limits_total f db"
    using sorted_rows.total_put_replace [OF ok a, of ?g r] r by simp
  ultimately show ?thesis
    using update_state_and_value_eq_Inr [OF assms(5)] t by simp
qed

lemma apply_pending_limitsE:
  assumes "apply_pending_limits account pending db = Inr db'"
  obtains actual tr tc tn where "map_of (limits_index db) (False, account) = Some actual"
    "update_state_and_value (total_ram_bytes (rl_state db)) (ram_bytes actual) (ram_bytes pending) = Inr (tr, ram_bytes pending)"
    "update_state_and_value (total_cpu_weight (rl_state db)) (cpu_weight actual) (cpu_weight pending) = Inr (tc, cpu_weight pending)"
    "update_state_and_value (total_net_weight (rl_state db)) (net_weight actual) (net_weight pending) = Inr (tn, net_weight pending)"
    "db' = db\<lparr>rl_state := (rl_state db)\<lparr>total_ram_bytes := tr, total_cpu_weight := tc, total_net_weight := tn\<rparr>,
       limits_index := idx_remove (True, account) (idx_put (False, account) pending (limits_index db))\<rparr>"
proof -
  obtain actual tr r tc c tn n where *: "map_of (limits_index db) (False, account) = Some actual"
    "update_state_and_value (total_ram_bytes (rl_state db)) (ram_bytes actual) (ram_bytes pending) = Inr (tr, r)"
    "update_state_and_value (total_cpu_weight (rl_state db)) (cpu_weight actual) (cpu_weight pending) = Inr (tc, c)"
    "update_state_and_value (total_net_weight (rl_state db)) (net_weight actual) (net_weight pending) = Inr (tn, n)"
    "db' = db\<lparr>rl_state := (rl_state db)\<lparr>total_ram_bytes := tr, total_cpu_weight := tc, total_net_weight := tn\<rparr>,
       limits_index := idx_remove (True, account) (idx_put (False, account)
         (actual\<lparr>ram_bytes := r, cpu_weight := c, net_weight := n\<rparr>) (limits_index db))\<rparr>"
    using assms by (auto simp: apply_pending_limits_def Let_def result_simps)
  moreover have "r = ram_bytes pending" "c = cpu_weight pending" "n = net_weight pending"
    using *(2-4) by (auto dest: update_state_and_value_eq_Inr)
  moreover have "actual\<lparr>ram_bytes := ram_bytes pending, cpu_weight := cpu_weight pending, net_weight := net_weight pending\<rparr> = pending"
    by (cases actual; cases pending) simp
  ultimately show ?thesis using that by simp
qed

lemma apply_pending_limits_inv:
  assumes "apply_pending_limits account pending db = Inr db'" "resource_inv db"
    and p: "map_of (limits_index db) (True, account) = Some pending"
  shows "resource_inv db'"
proof -
  have ok: "idx_ok (limits_index db)" using assms(2) by (simp add: resource_inv_def)
  from assms(1) show ?thesis
  proof (cases rule: apply_pending_limitsE)
    case (1 actual tr tc tn)
    note tot = apply_pending_limits_totals [OF ok p 1(1), where r = pending]
    have lim: "map_of (limits_index db') (x, a) = (if a = account then (if x then None else Some pending)
        else map_of (limits_index db) (x, a))" for x a
      using 1(5) ok by (simp add: map_of_idx_remove map_of_idx_put)
    have "unat tr = limits_total ram_bytes db'" "unat tc = limits_total cpu_weight db'" "unat tn = limits_total net_weight db'"
      using assms(2) 1(5) tot [OF _ 1(2)] tot [OF _ 1(3)] tot [OF _ 1(4)] by (simp_all add: resource_inv_def)
    then show ?thesis
      using assms(2) lim 1(1,5) ok unfolding resource_inv_def
      by (simp add: idx_ok_remove idx_ok_put) blast
  qed
qed

lemma get_account_limits_apply:
  assumes "apply_pending_limits account pending db = Inr db'" "idx_ok (limits_index db)"
    and "map_of (limits_index db) (True, account) = Some pending"
  shows "get_account_limits a db' = get_account_limits a db"
  using assms(1)
proof (cases rule: apply_pending_limitsE)
  case (1 actual tr tc tn)
  then show ?thesis
    using assms(2,3) by (simp add: get_account_limits_def idx_get_def map_of_idx_remove map_of_idx_put split: option.split)
qed

lemma pending_rows_apply:
  assumes "apply_pending_limits account pending db = Inr db'" "idx_ok (limits_index db)"
    and "map_of (limits_index db) (True, account) = Some pending"
  shows "Suc (pending_rows (limits_index db')) = pending_rows (limits_index db)"
proof -
  have rows: "pending_rows ls = sorted_rows.total (\<lambda>((p, a), r). if p then 1 else 0) ls" for ls
    by (induction ls) (auto simp: pending_rows_def sorted_rows.total_def split: if_splits)
  from assms(1) show ?thesis
  proof (cases rule: apply_pending_limitsE)
    case (1 actual tr tc tn)
    let ?g = "\<lambda>((p, a), r :: resource_limits_object). if p then 1 else 0"
    let ?m = "idx_put (False, account) pending (limits_index db)"
    have "sorted_rows.total ?g ?m = Suc (sorted_rows.total ?g (idx_remove (True, account) ?m))"
      using sorted_rows.total_del [of ?m "(True, account)" pending ?g] assms(2,3)
      by (simp add: idx_ok_put map_of_idx_put)
    with sorted_rows.total_put_replace [OF assms(2) 1(1), of ?g pending] 1(5) show ?thesis
      by (simp add: rows)
  qed
qed

lemma first_pending:
  assumes "idx_ok ls" "idx_lower_bound (True, 0) ls = Some ((is_pending, account), pending)"
  shows "is_pending \<and> map_of ls (True, account) = Some pending"
  using idx_lower_bound_Some [OF assms] by (cases is_pending) auto

lemma no_pending: "idx_lower_bound (True, 0) ls = None \<Longrightarrow> map_of ls (True, a :: account_name) = None"
proof (rule ccontr)
  assume none: "idx_lower_bound (True, 0) ls = None" and "map_of ls (True, a) \<noteq> None"
  then have "(True, a) \<in> fst ` set ls" by (auto simp: map_of_eq_None_iff)
  with none have "(True, a) < (True, 0)" unfolding idx_lower_bound_None by blast
  then show False by simp
qed

lemma pending_rows_0: "map_of ls (True, a) = Some r \<Longrightarrow> 0 < pending_rows ls"
  by (force simp: pending_rows_def filter_empty_conv dest!: map_of_SomeD)

text \<open>The loop, with any property kept by one round.\<close>

lemma process_pending_rounds:
  assumes "idx_ok (limits_index db)" "pending_rows (limits_index db) \<le> n" "I db"
    and step: "\<And>a p db db'. I db \<Longrightarrow> idx_ok (limits_index db) \<Longrightarrow> map_of (limits_index db) (True, a) = Some p \<Longrightarrow>
      apply_pending_limits a p db = Inr db' \<Longrightarrow> I db'"
  shows "\<exists>r. process_pending n db = Some r \<and>
    (\<forall>db'. r = Inr db' \<longrightarrow> I db' \<and> idx_ok (limits_index db') \<and> (\<forall>a. map_of (limits_index db') (True, a) = None))"
  using assms(1-3)
proof (induction n arbitrary: db)
  case 0
  then have "idx_lower_bound (True, 0) (limits_index db) = None"
  proof (cases "idx_lower_bound (True, 0) (limits_index db)")
    case (Some row)
    then obtain x a p where "row = ((x, a), p)" by (cases row) auto
    with Some 0 show ?thesis using first_pending pending_rows_0 by fastforce
  qed
  with 0 show ?case by (subst process_pending.simps) (simp add: no_pending)
next
  case (Suc n)
  show ?case
  proof (cases "idx_lower_bound (True, 0) (limits_index db)")
    case None
    with Suc.prems show ?thesis by (subst process_pending.simps) (simp add: no_pending)
  next
    case (Some row)
    then obtain x a p where row: "row = ((x, a), p)" by (metis prod.collapse)
    with first_pending [OF Suc.prems(1)] Some have x: "x" "map_of (limits_index db) (True, a) = Some p" by auto
    show ?thesis
    proof (cases "apply_pending_limits a p db")
      case (Inl e)
      with Some row x show ?thesis by (subst process_pending.simps) simp
    next
      case (Inr db1)
      have "idx_ok (limits_index db1)"
        using Inr Suc.prems(1) by (auto simp: idx_ok_remove idx_ok_put elim!: apply_pending_limitsE)
      moreover have "pending_rows (limits_index db1) \<le> n"
        using pending_rows_apply [OF Inr Suc.prems(1) x(2)] Suc.prems(2) by simp
      ultimately have "\<exists>r. process_pending n db1 = Some r \<and> (\<forall>db'. r = Inr db' \<longrightarrow> I db' \<and> idx_ok (limits_index db') \<and>
          (\<forall>a. map_of (limits_index db') (True, a) = None))"
        using step [OF Suc.prems(3) Suc.prems(1) x(2) Inr] by (rule Suc.IH)
      with Some row x Inr show ?thesis by (subst process_pending.simps) simp
    qed
  qed
qed

text \<open>
  C32: applying the pending limits. The loop over the pending rows ends (the number of pending rows is enough fuel), and
  when it does not throw, no pending row is left while the limits in force of every account are those of before.
\<close>

theorem process_account_limit_updates_applies:
  assumes "idx_ok (limits_index db)"
  shows "\<exists>r. process_account_limit_updates db = Some r \<and>
    (\<forall>db' a. r = Inr db' \<longrightarrow> map_of (limits_index db') (True, a) = None \<and>
       get_account_limits a db' = get_account_limits a db)"
proof -
  have "\<exists>r. process_pending (pending_rows (limits_index db)) db = Some r \<and>
    (\<forall>db'. r = Inr db' \<longrightarrow> (\<forall>a. get_account_limits a db' = get_account_limits a db) \<and> idx_ok (limits_index db') \<and>
       (\<forall>a. map_of (limits_index db') (True, a) = None))"
    by (rule process_pending_rounds [OF assms order_refl]) (simp_all add: get_account_limits_apply)
  then show ?thesis
    unfolding process_account_limit_updates_def by blast
qed

lemma resource_inv_same_limits:
  assumes "resource_inv db" "limits_index db' = limits_index db" "idx_ok (usage_index db')"
    "\<And>a. map_of (usage_index db') a \<noteq> None \<longleftrightarrow> map_of (usage_index db) a \<noteq> None"
    "total_ram_bytes (rl_state db') = total_ram_bytes (rl_state db)"
    "total_cpu_weight (rl_state db') = total_cpu_weight (rl_state db)"
    "total_net_weight (rl_state db') = total_net_weight (rl_state db)"
  shows "resource_inv db'"
  using assms unfolding resource_inv_def by simp

lemma resource_inv_put_usage:
  assumes "resource_inv db" "map_of (usage_index db) a = Some u"
  shows "resource_inv (db\<lparr>usage_index := idx_put a u' (usage_index db)\<rparr>)"
proof -
  have "idx_ok (usage_index db)" using assms(1) by (simp add: resource_inv_def)
  with assms(2) show ?thesis
    by (intro resource_inv_same_limits [OF assms(1)]) (simp_all add: idx_ok_put map_of_idx_put)
qed

lemma initialize_database_inv: "resource_inv initialize_database"
  by (simp add: resource_inv_def initialize_database_def new_state_def sorted_rows.total_def)

lemma initialize_account_inv:
  assumes "initialize_account a db = Inr db'" "resource_inv db"
  shows "resource_inv db'"
proof -
  have n: "map_of (limits_index db) (False, a) = None" "map_of (usage_index db) a = None"
    and db': "db' = db\<lparr>limits_index := idx_put (False, a) new_limits (limits_index db),
      usage_index := idx_put a new_usage (usage_index db)\<rparr>"
    using assms(1) by (auto simp: initialize_account_def result_simps)
  have ok: "idx_ok (limits_index db)" "idx_ok (usage_index db)" using assms(2) by (simp_all add: resource_inv_def)
  have "weight_value (- 1) = 0" by (simp add: weight_value_def)
  then have "limits_total f db' = limits_total f db" if "f new_limits = - 1" for f
    using sorted_rows.total_put_new [OF ok(1) n(1)] that by (simp add: db')
  then show ?thesis
    using assms(2) ok n unfolding resource_inv_def
    by (auto simp: db' idx_ok_put map_of_idx_put new_limits_def)
qed

lemma set_block_parameters_inv:
  assumes "set_block_parameters cpu net db = Inr db'" "resource_inv db"
  shows "resource_inv db'"
proof (rule resource_inv_same_limits [OF assms(2)])
  show "idx_ok (usage_index db')"
    using assms by (auto simp: set_block_parameters_def Let_def result_simps resource_inv_def split: if_splits)
qed (use assms(1) in \<open>auto simp: set_block_parameters_def Let_def result_simps split: if_splits\<close>)

lemma update_account_usage_inv:
  assumes "update_account_usage accounts t db = Inr db'" "resource_inv db"
  shows "resource_inv db'"
  using assms unfolding update_account_usage_def
  by (rule for_each_invariant [where P = resource_inv]) (auto simp: result_simps resource_inv_put_usage)

lemma add_usage_of_account_inv:
  "add_usage_of_account cpu net t ov a db = Inr db' \<Longrightarrow> resource_inv db \<Longrightarrow> resource_inv db'"
  by (auto simp: add_usage_of_account_def result_simps resource_inv_put_usage)

lemma add_transaction_usage_inv:
  assumes "add_transaction_usage accounts cpu net t ov db = Inr db'" "resource_inv db"
  shows "resource_inv db'"
proof -
  obtain db1 where "for_each (add_usage_of_account cpu net t ov) accounts db = Inr db1"
    and db': "db' = db1\<lparr>rl_state := (rl_state db1)\<lparr>pending_cpu_usage := pending_cpu_usage (rl_state db1) + cpu,
      pending_net_usage := pending_net_usage (rl_state db1) + net\<rparr>\<rparr>"
    using assms(1) by (auto simp: add_transaction_usage_def Let_def result_simps)
  from this(1) assms(2) have "resource_inv db1"
    by (rule for_each_invariant [where P = resource_inv]) (auto intro: add_usage_of_account_inv)
  then show ?thesis by (simp add: db' resource_inv_def)
qed

lemma add_pending_ram_usage_inv:
  "add_pending_ram_usage a d db = Inr db' \<Longrightarrow> resource_inv db \<Longrightarrow> resource_inv db'"
  by (auto simp: add_pending_ram_usage_def result_simps resource_inv_put_usage split: if_splits)

lemma total_put_pending:
  assumes "idx_ok m"
  shows "sorted_rows.total (\<lambda>((p, a), r). if p then 0 else f r) (idx_put (True, a) r m) =
    sorted_rows.total (\<lambda>((p, a), r). if p then 0 else f r) m"
proof (cases "map_of m (True, a)")
  case None
  then show ?thesis
    using sorted_rows.total_put_new [OF assms, of "(True, a)" "\<lambda>((p, a), r). if p then 0 else f r" r] by simp
next
  case (Some u)
  then show ?thesis
    using sorted_rows.total_put_replace [OF assms, of "(True, a)" u "\<lambda>((p, a), r). if p then 0 else f r" r] by simp
qed

lemma set_account_limits_eq_Inr:
  assumes "set_account_limits a r n c db = Inr (b, db')" "idx_ok (limits_index db)"
  shows "(map_of (limits_index db) (True, a) \<noteq> None \<or> map_of (limits_index db) (False, a) \<noteq> None) \<and>
    (\<exists>ls. db' = db\<lparr>limits_index := ls\<rparr> \<and> idx_ok ls \<and>
      (\<forall>k. map_of ls k = (if k = (True, a) then Some \<lparr>net_weight = n, cpu_weight = c, ram_bytes = r\<rparr>
        else map_of (limits_index db) k)) \<and>
      (\<forall>f. sorted_rows.total (\<lambda>((p, a), r). if p then 0 else f r) ls =
         sorted_rows.total (\<lambda>((p, a), r). if p then 0 else f r) (limits_index db)))"
proof -
  obtain limits db1 where g: "get_or_create_pending_account_limits a db = Inr (limits, db1)"
    and db': "db' = db1\<lparr>limits_index := idx_put (True, a) (limits\<lparr>ram_bytes := r, net_weight := n, cpu_weight := c\<rparr>) (limits_index db1)\<rparr>"
    using assms(1) by (auto simp: set_account_limits_def Let_def result_simps)
  have u: "limits\<lparr>ram_bytes := r, net_weight := n, cpu_weight := c\<rparr> = \<lparr>net_weight = n, cpu_weight = c, ram_bytes = r\<rparr>"
    by (cases limits) simp
  show ?thesis
  proof (cases "map_of (limits_index db) (True, a)")
    case (Some p)
    with g have "limits = p" "db1 = db"
      by (auto simp: get_or_create_pending_account_limits_def)
    with Some db' u show ?thesis
      by (auto simp: map_of_idx_put assms(2) idx_ok_put total_put_pending intro!: exI [of _ "limits_index db'"])
  next
    case None
    with g have db1: "db1 = db\<lparr>limits_index := idx_put (True, a) limits (limits_index db)\<rparr>"
      and a: "map_of (limits_index db) (False, a) = Some limits"
      by (auto simp: get_or_create_pending_account_limits_def result_simps)
    let ?l1 = "idx_put (True, a) limits (limits_index db)"
    have ok1: "idx_ok ?l1" by (simp add: assms(2) idx_ok_put)
    show ?thesis
      using db' db1 a u
      by (auto simp: map_of_idx_put assms(2) idx_ok_put ok1 total_put_pending intro!: exI [of _ "limits_index db'"])
  qed
qed

lemma set_account_limits_inv:
  assumes "set_account_limits a r n c db = Inr (b, db')" "resource_inv db"
  shows "resource_inv db'"
proof -
  have ok: "idx_ok (limits_index db)" using assms(2) by (simp add: resource_inv_def)
  obtain ls where "db' = db\<lparr>limits_index := ls\<rparr>" "idx_ok ls"
    "\<And>k. map_of ls k = (if k = (True, a) then Some \<lparr>net_weight = n, cpu_weight = c, ram_bytes = r\<rparr> else map_of (limits_index db) k)"
    "\<And>f. sorted_rows.total (\<lambda>((p, a), r). if p then 0 else f r) ls =
         sorted_rows.total (\<lambda>((p, a), r). if p then 0 else f r) (limits_index db)"
    "map_of (limits_index db) (True, a) \<noteq> None \<or> map_of (limits_index db) (False, a) \<noteq> None"
    using set_account_limits_eq_Inr [OF assms(1) ok] by metis
  with assms(2) show ?thesis
    unfolding resource_inv_def by auto
qed

lemma process_account_limit_updates_inv:
  assumes "process_account_limit_updates db = Some (Inr db')" "resource_inv db"
  shows "resource_inv db'"
proof -
  have "idx_ok (limits_index db)" using assms(2) by (simp add: resource_inv_def)
  from process_pending_rounds [OF this order_refl, of resource_inv] apply_pending_limits_inv assms
  show ?thesis unfolding process_account_limit_updates_def by (metis option.inject)
qed

lemma process_block_usage_inv:
  assumes "process_block_usage n db = Inr db'" "resource_inv db"
  shows "resource_inv db'"
proof (rule resource_inv_same_limits [OF assms(2)])
  show "idx_ok (usage_index db')"
    using assms by (auto simp: process_block_usage_def Let_def result_simps resource_inv_def)
qed (use assms(1) in \<open>auto simp: process_block_usage_def update_virtual_cpu_limit_def update_virtual_net_limit_def
    Let_def result_simps\<close>)

text \<open>The states the operations lead to.\<close>

inductive resource_reachable :: "resource_db \<Rightarrow> bool" where
  init: "resource_reachable initialize_database"
| account: "resource_reachable db \<Longrightarrow> initialize_account a db = Inr db' \<Longrightarrow> resource_reachable db'"
| parameters: "resource_reachable db \<Longrightarrow> set_block_parameters cpu net db = Inr db' \<Longrightarrow> resource_reachable db'"
| refresh: "resource_reachable db \<Longrightarrow> update_account_usage accounts t db = Inr db' \<Longrightarrow> resource_reachable db'"
| transaction: "resource_reachable db \<Longrightarrow> add_transaction_usage accounts cpu_us net_bytes t ov db = Inr db' \<Longrightarrow>
    resource_reachable db'"
| ram: "resource_reachable db \<Longrightarrow> add_pending_ram_usage a d db = Inr db' \<Longrightarrow> resource_reachable db'"
| limits: "resource_reachable db \<Longrightarrow> set_account_limits a r n c db = Inr (b, db') \<Longrightarrow> resource_reachable db'"
| updates: "resource_reachable db \<Longrightarrow> process_account_limit_updates db = Some (Inr db') \<Longrightarrow> resource_reachable db'"
| block: "resource_reachable db \<Longrightarrow> process_block_usage bn db = Inr db' \<Longrightarrow> resource_reachable db'"

lemma resource_reachable_inv: "resource_reachable db \<Longrightarrow> resource_inv db"
  by (induction rule: resource_reachable.induct)
    (blast intro: initialize_database_inv initialize_account_inv set_block_parameters_inv update_account_usage_inv
      add_transaction_usage_inv add_pending_ram_usage_inv set_account_limits_inv process_account_limit_updates_inv
      process_block_usage_inv)+

text \<open>
  C16: in every state that the operations of the manager reach from the initial one, the totals of CPU weight, network
  weight and RAM are the exact sums of the positive actual limits of all accounts, and every account with limits has a
  usage row.
\<close>

theorem totals_of_reachable:
  assumes "resource_reachable db"
  shows "unat (get_total_cpu_weight db) = limits_total cpu_weight db \<and>
    unat (get_total_net_weight db) = limits_total net_weight db \<and>
    unat (total_ram_bytes (rl_state db)) = limits_total ram_bytes db \<and>
    (\<forall>a limits. get_account_limits a db = Inr limits \<longrightarrow> (\<exists>u. map_of (usage_index db) a = Some u))"
proof -
  have inv: "resource_inv db" by (rule resource_reachable_inv [OF assms])
  then have "map_of (usage_index db) a \<noteq> None" if "get_account_limits a db = Inr limits" for a limits
    using that unfolding resource_inv_def get_account_limits_def
    by (cases "map_of (limits_index db) (True, a)") (auto simp: idx_get_eq_Inr_iff)
  with inv show ?thesis
    by (simp add: resource_inv_def get_total_cpu_weight_def get_total_net_weight_def)
qed

section \<open>Billing a transaction\<close>

text \<open>
  An account keeps to its share: what its average stands for over the window is at most the part of the virtual capacity
  of the window that its weight has in the total weight. The arithmetic is that of the natural numbers; the code
  computes the capacity modulo \<open>2\<^sup>1\<^sup>2\<^sup>8\<close>, so it has to fit.
\<close>

definition keeps_share :: "exponential_moving_average_accumulator \<Rightarrow> u32 \<Rightarrow> u64 \<Rightarrow> i64 \<Rightarrow> u64 \<Rightarrow> bool" where
  "keeps_share usage window capacity weight total_weight \<longleftrightarrow>
     (0 \<le> sint weight \<and> 0 < unat total_weight \<and> unat capacity * unat window * unat weight < 2 ^ 128 \<longrightarrow>
        unat (value_ex usage) * unat window div unat rate_limiting_precision
          \<le> unat capacity * unat window * unat weight div unat total_weight)"

definition within_limits :: "bool \<Rightarrow> account_name \<Rightarrow> resource_db \<Rightarrow> bool" where
  "within_limits ov a db \<longleftrightarrow> (\<exists>limits usage. get_account_limits a db = Inr limits \<and> map_of (usage_index db) a = Some usage \<and>
     (ov \<or> keeps_share (cpu_usage usage) (account_cpu_usage_average_window (rl_config db)) (virtual_cpu_limit (rl_state db))
        (cpu_weight limits) (total_cpu_weight (rl_state db))) \<and>
     keeps_share (net_usage usage) (account_net_usage_average_window (rl_config db)) (virtual_net_limit (rl_state db))
       (net_weight limits) (total_net_weight (rl_state db)))"

lemma unat_used_in_window:
  "unat (used_in_window usage window) = unat (value_ex usage) * unat window div unat rate_limiting_precision"
proof -
  have "unat (value_ex usage) * unat window < 2 ^ 64 * 2 ^ 32"
    by (intro mult_strict_mono unsigned_less [where ?'a = nat, THEN order.strict_trans2]) (simp_all add: unsigned_less)
  then have "unat (ucast (value_ex usage) * ucast window :: u128) = unat (value_ex usage) * unat window"
    by (subst unat_mult_exact) simp_all
  then show ?thesis by (simp add: used_in_window_def unat_div)
qed

lemma unat_max_use_in_window:
  assumes "unat capacity * unat window * unat weight < 2 ^ 128"
  shows "unat (max_use_in_window capacity window weight total_weight) = unat capacity * unat window * unat weight div unat total_weight"
proof -
  have "unat capacity * unat window < 2 ^ 64 * 2 ^ 32"
    by (intro mult_strict_mono unsigned_less [where ?'a = nat, THEN order.strict_trans2]) (simp_all add: unsigned_less)
  then have "unat (ucast capacity * ucast window :: u128) = unat capacity * unat window"
    by (subst unat_mult_exact) simp_all
  with assms have "unat (ucast capacity * ucast window * ucast weight :: u128) = unat capacity * unat window * unat weight"
    by (subst unat_mult_exact) simp_all
  then show ?thesis by (simp add: max_use_in_window_def unat_div)
qed

lemma keeps_shareI:
  assumes "0 \<le> sint weight \<Longrightarrow> total_weight > 0 \<Longrightarrow> used_in_window usage window \<le> max_use_in_window capacity window weight total_weight"
  shows "keeps_share usage window capacity weight total_weight"
  using assms unat_max_use_in_window [of capacity window weight total_weight]
  by (auto simp: keeps_share_def word_le_nat_alt word_less_nat_alt unat_used_in_window)

lemma check_cpu_usage_share:
  assumes "check_cpu_usage ov limits usage db = Inr ()"
  shows "ov \<or> keeps_share (cpu_usage usage) (account_cpu_usage_average_window (rl_config db)) (virtual_cpu_limit (rl_state db))
    (cpu_weight limits) (total_cpu_weight (rl_state db))"
proof (cases ov)
  case False
  with assms show ?thesis by (intro disjI2 keeps_shareI) (simp add: check_cpu_usage_def result_simps)
qed simp

lemma check_net_usage_share:
  assumes "check_net_usage limits usage db = Inr ()"
  shows "keeps_share (net_usage usage) (account_net_usage_average_window (rl_config db)) (virtual_net_limit (rl_state db))
    (net_weight limits) (total_net_weight (rl_state db))"
  using assms by (intro keeps_shareI) (simp add: check_net_usage_def result_simps)

lemma add_usage_of_accountE:
  assumes "add_usage_of_account cpu net t ov a db = Inr db'"
  obtains limits usage usage' where "map_of (usage_index db) a = Some usage" "get_account_limits a db = Inr limits"
    "add_usage net cpu t (rl_config db) usage = Inr usage'" "check_cpu_usage ov limits usage' db = Inr ()"
    "check_net_usage limits usage' db = Inr ()" "db' = db\<lparr>usage_index := idx_put a usage' (usage_index db)\<rparr>"
  using assms by (auto simp: add_usage_of_account_def result_simps)

lemma get_account_limits_usage [simp]: "get_account_limits a (db\<lparr>usage_index := us\<rparr>) = get_account_limits a db"
  "get_account_limits a (db\<lparr>rl_state := s\<rparr>) = get_account_limits a db"
  by (simp_all add: get_account_limits_def split: option.split)

text \<open>The row of an account after it was billed: both averages charged, and the RAM as before.\<close>

definition usage_billed :: "u64 \<Rightarrow> u64 \<Rightarrow> u32 \<Rightarrow> resource_limits_config_object \<Rightarrow> resource_usage_object \<Rightarrow>
    resource_usage_object \<Rightarrow> bool" where
  "usage_billed cpu net t config u u' \<longleftrightarrow>
     charged cpu t (account_cpu_usage_average_window config) (cpu_usage u) (cpu_usage u') \<and>
     charged net t (account_net_usage_average_window config) (net_usage u) (net_usage u') \<and> ram_usage u' = ram_usage u"

lemma add_usage_billed: "add_usage net cpu t config u = Inr u' \<Longrightarrow> usage_billed cpu net t config u u'"
  by (auto simp: add_usage_def usage_billed_def result_simps accumulator_add_charged)

lemma add_usage_of_accounts_within:
  assumes "for_each (add_usage_of_account cpu net t ov) accounts db = Inr db'" "distinct accounts" "idx_ok (usage_index db)"
  shows "(\<forall>a \<in> set accounts. within_limits ov a db' \<and> (\<exists>u u'. map_of (usage_index db) a = Some u \<and>
      map_of (usage_index db') a = Some u' \<and> usage_billed cpu net t (rl_config db) u u')) \<and>
    (\<forall>a. a \<notin> set accounts \<longrightarrow> map_of (usage_index db') a = map_of (usage_index db) a) \<and>
    (\<exists>us. db' = db\<lparr>usage_index := us\<rparr>)"
  using assms
proof (induction accounts arbitrary: db)
  case (Cons b bs)
  obtain db1 where step: "add_usage_of_account cpu net t ov b db = Inr db1"
    and rest: "for_each (add_usage_of_account cpu net t ov) bs db1 = Inr db'"
    using Cons.prems(1) by (auto simp: result_simps)
  from step show ?case
  proof (cases rule: add_usage_of_accountE)
    case (1 limits usage usage')
    have ok: "idx_ok (usage_index db1)" using 1 Cons.prems(3) by (simp add: idx_ok_put)
    note IH = Cons.IH [OF rest _ ok]
    obtain us where us: "db' = db1\<lparr>usage_index := us\<rparr>" using IH Cons.prems(2) by auto
    have b: "map_of (usage_index db') b = Some usage'"
      using IH Cons.prems(2,3) 1(6) by (simp add: map_of_idx_put)
    then have "within_limits ov b db'"
      unfolding within_limits_def us using 1 check_cpu_usage_share [OF 1(4)] check_net_usage_share [OF 1(5)]
      by (intro exI [of _ limits] exI [of _ usage']) (simp add: us)
    moreover have "\<exists>u u'. map_of (usage_index db) a = Some u \<and> map_of (usage_index db') a = Some u' \<and>
        usage_billed cpu net t (rl_config db) u u'" if "a \<in> set (b # bs)" for a
    proof (cases "a = b")
      case True
      then show ?thesis using b 1(1) add_usage_billed [OF 1(3)] by blast
    next
      case False
      then have "map_of (usage_index db1) a = map_of (usage_index db) a" "rl_config db1 = rl_config db" "a \<in> set bs"
        using that 1(6) Cons.prems(3) by (auto simp: map_of_idx_put)
      moreover have "\<exists>u u'. map_of (usage_index db1) a = Some u \<and> map_of (usage_index db') a = Some u' \<and>
          usage_billed cpu net t (rl_config db1) u u'"
        using IH Cons.prems(2) \<open>a \<in> set bs\<close> by simp
      ultimately show ?thesis by simp
    qed
    moreover have "\<exists>us. db' = db\<lparr>usage_index := us\<rparr>" by (intro exI [of _ us]) (simp add: us 1(6))
    ultimately show ?thesis using IH Cons.prems(2,3) 1(6) by (auto simp: map_of_idx_put)
  qed
next
  case Nil
  then show ?case by (auto intro: exI [of _ "usage_index db'"])
qed

text \<open>
  C10: when a transaction is billed without an exception, both moving averages of every billed account are charged with
  exactly its CPU time and network usage, its RAM is unchanged, and it keeps to its share of the virtual capacity
  afterwards (in exact arithmetic); the usage of every other account is unchanged. The pending usage of the block grows
  by the same amounts and is within its maximal CPU (unless overridden) and network usage. Nothing else changes: not the
  averages, totals and virtual limits of the state, the limits of any account, or the configuration.
\<close>

theorem add_transaction_usage_within_limits:
  assumes "add_transaction_usage accounts cpu net t ov db = Inr db'" "distinct accounts" "idx_ok (usage_index db)"
  shows "(\<forall>a \<in> set accounts. within_limits ov a db' \<and> (\<exists>u u'. map_of (usage_index db) a = Some u \<and>
       map_of (usage_index db') a = Some u' \<and> usage_billed cpu net t (rl_config db) u u')) \<and>
    (\<forall>a. a \<notin> set accounts \<longrightarrow> map_of (usage_index db') a = map_of (usage_index db) a) \<and>
    (ov \<or> pending_cpu_usage (rl_state db') \<le> elp_max (cpu_limit_parameters (rl_config db'))) \<and>
    pending_net_usage (rl_state db') \<le> elp_max (net_limit_parameters (rl_config db')) \<and>
    db' = db\<lparr>usage_index := usage_index db', rl_state := (rl_state db)
      \<lparr>pending_cpu_usage := pending_cpu_usage (rl_state db) + cpu, pending_net_usage := pending_net_usage (rl_state db) + net\<rparr>\<rparr>"
proof -
  obtain db1 where f: "for_each (add_usage_of_account cpu net t ov) accounts db = Inr db1"
    and db': "db' = db1\<lparr>rl_state := (rl_state db1)\<lparr>pending_cpu_usage := pending_cpu_usage (rl_state db1) + cpu,
      pending_net_usage := pending_net_usage (rl_state db1) + net\<rparr>\<rparr>"
    and b: "ov \<or> pending_cpu_usage (rl_state db') \<le> elp_max (cpu_limit_parameters (rl_config db'))"
      "pending_net_usage (rl_state db') \<le> elp_max (net_limit_parameters (rl_config db'))"
    using assms(1) by (auto simp: add_transaction_usage_def Let_def result_simps)
  note r = add_usage_of_accounts_within [OF f assms(2,3)]
  then obtain us where us: "db1 = db\<lparr>usage_index := us\<rparr>" by blast
  have "within_limits ov a db' = within_limits ov a db1" for a
    unfolding within_limits_def db' by simp
  with r b show ?thesis by (auto simp: db' us)
qed

text \<open>
  C35: a RAM delta that is accepted changes the usage of the account by exactly the signed delta, without wrapping
  around in either direction, and leaves the moving averages and every other account alone.
\<close>

theorem add_pending_ram_usage_exact:
  assumes "add_pending_ram_usage a d db = Inr db'" "d \<noteq> 0" "idx_ok (usage_index db)"
  shows "\<exists>u u'. map_of (usage_index db) a = Some u \<and> map_of (usage_index db') a = Some u' \<and>
    int (unat (ram_usage u')) = int (unat (ram_usage u)) + sint d \<and>
    cpu_usage u' = cpu_usage u \<and> net_usage u' = net_usage u \<and>
    (\<forall>b. b \<noteq> a \<longrightarrow> map_of (usage_index db') b = map_of (usage_index db) b)"
proof -
  obtain u where u: "map_of (usage_index db) a = Some u"
    and over: "sint d \<le> 0 \<or> d \<le> numeric_max - ram_usage u"
    and under: "0 \<le> sint d \<or> (d \<noteq> 2 ^ 63 \<and> - d \<le> ram_usage u)"
    and db': "db' = db\<lparr>usage_index := idx_put a (u\<lparr>ram_usage := ram_usage u + d\<rparr>) (usage_index db)\<rparr>"
    using assms(1,2) by (auto simp: add_pending_ram_usage_def result_simps split: if_splits)
  have "int (unat (ram_usage u + d)) = int (unat (ram_usage u)) + sint d"
    using over under assms(2) by (intro unat_plus_sint) auto
  then show ?thesis using u db' assms(3) by (auto simp: map_of_idx_put)
qed

section \<open>A concrete state\<close>

definition sample_usage :: exponential_moving_average_accumulator where
  "sample_usage = \<lparr>last_ordinal = 8, value_ex = 1000, consumed = 1\<rparr>"

definition sample_db :: resource_db where
  "sample_db = initialize_database\<lparr>
     limits_index := [((False, 5), \<lparr>net_weight = 1, cpu_weight = 2, ram_bytes = 100\<rparr>),
                      ((True, 5), \<lparr>net_weight = 3, cpu_weight = 4, ram_bytes = 200\<rparr>)],
     usage_index := [(5, new_usage)],
     rl_state := (rl_state initialize_database)\<lparr>total_net_weight := 1, total_cpu_weight := 2, total_ram_bytes := 100\<rparr>\<rparr>"

lemmas resource_eval = initialize_database_def default_config_def new_state_def empty_accumulator_def new_usage_def
  accumulator_add_def decay_to_def average_def mul_ratio_def checked_div_def integer_divide_ceil_def downgrade_u64_def
  downgrade_i64_def max_raw_value_def rate_limiting_precision_def sample_usage_def sample_db_def idx_get_def idx_create_def
  Let_def

theorem accumulator_add_exact_witness:
  "accumulator_add 100 10 5 sample_usage = Inr \<lparr>last_ordinal = 10, value_ex = 20000600, consumed = 101\<rparr> \<and>
   600 + ceil_div (100 * 1000000) 5 = 20000600"
  using accumulator_add_exact [of 100 10 5 sample_usage "\<lparr>last_ordinal = 10, value_ex = 20000600, consumed = 101\<rparr>"]
  by (simp add: resource_eval ceil_div_def decayed_def)

theorem process_block_usage_elastic_witness:
  "\<exists>db'. process_block_usage 1 initialize_database = Inr db' \<and> unat (virtual_cpu_limit (rl_state db')) = 200200"
proof -
  obtain db' where r: "process_block_usage 1 initialize_database = Inr db'"
    and v: "value_ex (average_block_cpu_usage (rl_state db')) = 0"
    by (simp add: resource_eval process_block_usage_def update_virtual_cpu_limit_def update_virtual_net_limit_def
        update_elastic_limit_def)
  have "unat (virtual_cpu_limit (rl_state db')) = elastic_step (cpu_limit_parameters default_config)
      (ceil_div (unat (value_ex (average_block_cpu_usage (rl_state db')))) 1000000) 200000"
    using process_block_usage_elastic [OF r] by (simp add: initialize_database_def default_config_def)
  with r v show ?thesis
    by (simp add: elastic_step_def elastic_rate_def ceil_div_def default_config_def)
qed

theorem process_account_limit_updates_applies_witness:
  "\<exists>db'. process_account_limit_updates sample_db = Some (Inr db') \<and>
     get_account_limits 5 db' = Inr \<lparr>net_weight = 3, cpu_weight = 4, ram_bytes = 200\<rparr>"
  using process_account_limit_updates_applies [of sample_db]
  by (simp add: resource_eval process_account_limit_updates_def process_pending.simps pending_rows_def
      idx_lower_bound_def apply_pending_limits_def update_state_and_value_def idx_remove_def get_account_limits_def
      idx_ok_def)

theorem totals_of_reachable_witness:
  "\<exists>db1 b db2 db3. initialize_account 5 initialize_database = Inr db1 \<and>
     set_account_limits 5 200 3 4 db1 = Inr (b, db2) \<and>
     process_account_limit_updates db2 = Some (Inr db3) \<and> unat (get_total_cpu_weight db3) = limits_total cpu_weight db3 \<and>
     unat (get_total_cpu_weight db3) = 4"
proof -
  note ev = resource_eval initialize_account_def set_account_limits_def get_or_create_pending_account_limits_def
    new_limits_def
  obtain db1 where 1: "initialize_account 5 initialize_database = Inr db1"
    by (simp add: ev)
  obtain b db2 where 2: "set_account_limits 5 200 3 4 db1 = Inr (b, db2)"
    using 1 by (auto simp: ev)
  obtain db3 where 3: "process_account_limit_updates db2 = Some (Inr db3)" "unat (get_total_cpu_weight db3) = 4"
    using 1 2 by (auto simp: ev process_account_limit_updates_def process_pending.simps pending_rows_def
      idx_lower_bound_def apply_pending_limits_def update_state_and_value_def idx_remove_def get_total_cpu_weight_def)
  have "resource_reachable db3"
    by (intro resource_reachable.updates [OF _ 3(1)] resource_reachable.limits [OF _ 2] resource_reachable.account [OF _ 1]
        resource_reachable.init)
  from totals_of_reachable [OF this] 1 2 3 show ?thesis by blast
qed

theorem add_transaction_usage_within_limits_witness:
  "\<exists>db' u'. add_transaction_usage [5] 10 20 1 False sample_db = Inr db' \<and> within_limits False 5 db' \<and>
     map_of (usage_index db') 5 = Some u' \<and> unat (consumed (cpu_usage u')) = 10 \<and> unat (consumed (net_usage u')) = 20"
proof -
  obtain db' where r: "add_transaction_usage [5] 10 20 1 False sample_db = Inr db'"
    by (simp add: resource_eval add_transaction_usage_def add_usage_of_account_def get_account_limits_def add_usage_def
        check_cpu_usage_def check_net_usage_def used_in_window_def max_use_in_window_def)
  have "idx_ok (usage_index sample_db)" "map_of (usage_index sample_db) 5 = Some new_usage"
    by (simp_all add: sample_db_def idx_ok_def)
  with add_transaction_usage_within_limits [OF r] r show ?thesis
    by (auto simp: usage_billed_def charged_def new_usage_def empty_accumulator_def decayed_def ceil_div_def Let_def)
qed
theorem add_pending_ram_usage_exact_witness:
  "\<exists>db1 db2. add_pending_ram_usage 5 300 sample_db = Inr db1 \<and> add_pending_ram_usage 5 (- 100) db1 = Inr db2 \<and>
     (\<exists>u. map_of (usage_index db2) 5 = Some u \<and> int (unat (ram_usage u)) = 300 + sint (- 100 :: i64))"
proof -
  let ?db1 = "sample_db\<lparr>usage_index := [(5, new_usage\<lparr>ram_usage := 300\<rparr>)]\<rparr>"
  have 1: "add_pending_ram_usage 5 300 sample_db = Inr ?db1"
    by (simp add: add_pending_ram_usage_def sample_db_def idx_get_def new_usage_def word_le_nat_alt unat_numeric_max)
  obtain db2 where 2: "add_pending_ram_usage 5 (- 100) ?db1 = Inr db2"
    by (simp add: add_pending_ram_usage_def idx_get_def new_usage_def)
  from add_pending_ram_usage_exact [OF 2] 1 2 show ?thesis
    by (auto simp: idx_ok_def)
qed

end
