(* ===== verification/Protocol_Features.thy ===== *)
theory Protocol_Features
  imports Chain_Prelude
begin

text \<open>
  \<^verbatim>\<open>protocol_feature_manager.cpp\<close> and \<^verbatim>\<open>protocol_feature_activation.cpp\<close>: the table of builtin protocol features, the
  set of features a node recognizes, and the manager that records which of them are activated from which block on. The
  manager keeps the activations twice, as a vector in the order of activation and as a list threaded through the
  entries of the builtin features; the main results are that the two agree after every operation and that removing
  blocks undoes exactly the activations above the given block number.

  The conversion of a hexadecimal string to a digest and the hash of a feature description are parameters. A
  \<^verbatim>\<open>time_point\<close> is its number of microseconds.
\<close>

section \<open>The builtin features\<close>

datatype builtin_protocol_feature_t =
    Preactivate_feature
  | Only_link_to_existing_permission
  | Replace_deferred
  | No_duplicate_deferred_id
  | Fix_linkauth_restriction
  | Disallow_empty_producer_schedule
  | Restrict_action_to_self
  | Only_bill_first_authorizer
  | Forward_setcode
  | Get_sender
  | Ram_restrictions
  | Webauthn_key
  | Wtmsig_block_signatures
  | Action_return_value
  | Kv_database
  | Configurable_wasm_limits
  | Blockchain_parameters
  | Event_generation
  | Verify_rsa_sha256_sig
  | Verify_ecdsa_sig

definition builtin_protocol_features :: "builtin_protocol_feature_t list" where
  "builtin_protocol_features =
     [Preactivate_feature, Only_link_to_existing_permission, Replace_deferred, No_duplicate_deferred_id,
      Fix_linkauth_restriction, Disallow_empty_producer_schedule, Restrict_action_to_self, Only_bill_first_authorizer,
      Forward_setcode, Get_sender, Ram_restrictions, Webauthn_key,
      Wtmsig_block_signatures, Action_return_value, Kv_database, Configurable_wasm_limits,
      Blockchain_parameters, Event_generation, Verify_rsa_sha256_sig, Verify_ecdsa_sig]"

text \<open>\<^verbatim>\<open>static_cast<uint32_t>(codename)\<close>, the position of the enumerator.\<close>

fun feature_index :: "builtin_protocol_feature_t \<Rightarrow> nat" where
  "feature_index Preactivate_feature = 0"
| "feature_index Only_link_to_existing_permission = 1"
| "feature_index Replace_deferred = 2"
| "feature_index No_duplicate_deferred_id = 3"
| "feature_index Fix_linkauth_restriction = 4"
| "feature_index Disallow_empty_producer_schedule = 5"
| "feature_index Restrict_action_to_self = 6"
| "feature_index Only_bill_first_authorizer = 7"
| "feature_index Forward_setcode = 8"
| "feature_index Get_sender = 9"
| "feature_index Ram_restrictions = 10"
| "feature_index Webauthn_key = 11"
| "feature_index Wtmsig_block_signatures = 12"
| "feature_index Action_return_value = 13"
| "feature_index Kv_database = 14"
| "feature_index Configurable_wasm_limits = 15"
| "feature_index Blockchain_parameters = 16"
| "feature_index Event_generation = 17"
| "feature_index Verify_rsa_sha256_sig = 18"
| "feature_index Verify_ecdsa_sig = 19"

record protocol_feature_subjective_restrictions =
  earliest_allowed_activation_time :: time_point
  preactivation_required :: bool
  enabled :: bool

record builtin_protocol_feature_spec =
  codename :: string
  spec_description_digest :: string
  builtin_dependencies :: "builtin_protocol_feature_t list"
  spec_restrictions :: protocol_feature_subjective_restrictions

definition default_restrictions :: protocol_feature_subjective_restrictions where
  "default_restrictions = \<lparr>earliest_allowed_activation_time = 0, preactivation_required = True, enabled = True\<rparr>"

text \<open>The table, in the order of the sources, in two halves.\<close>

definition builtin_protocol_feature_codenames1 :: "(builtin_protocol_feature_t \<times> builtin_protocol_feature_spec) list" where
  "builtin_protocol_feature_codenames1 = [
      (Preactivate_feature, \<lparr>codename = ''PREACTIVATE_FEATURE'',
        spec_description_digest = ''64fe7df32e9b86be2b296b3f81dfd527f84e82b98e363bc97e40bc7a83733310'',
        builtin_dependencies = [], spec_restrictions = \<lparr>earliest_allowed_activation_time = 0, preactivation_required = False, enabled = True\<rparr>\<rparr>),
      (Only_link_to_existing_permission, \<lparr>codename = ''ONLY_LINK_TO_EXISTING_PERMISSION'',
        spec_description_digest = ''f3c3d91c4603cde2397268bfed4e662465293aab10cd9416db0d442b8cec2949'',
        builtin_dependencies = [], spec_restrictions = default_restrictions\<rparr>),
      (Replace_deferred, \<lparr>codename = ''REPLACE_DEFERRED'',
        spec_description_digest = ''9908b3f8413c8474ab2a6be149d3f4f6d0421d37886033f27d4759c47a26d944'',
        builtin_dependencies = [], spec_restrictions = default_restrictions\<rparr>),
      (No_duplicate_deferred_id, \<lparr>codename = ''NO_DUPLICATE_DEFERRED_ID'',
        spec_description_digest = ''45967387ee92da70171efd9fefd1ca8061b5efe6f124d269cd2468b47f1575a0'',
        builtin_dependencies = [Replace_deferred], spec_restrictions = default_restrictions\<rparr>),
      (Fix_linkauth_restriction, \<lparr>codename = ''FIX_LINKAUTH_RESTRICTION'',
        spec_description_digest = ''a98241c83511dc86c857221b9372b4aa7cea3aaebc567a48604e1d3db3557050'',
        builtin_dependencies = [], spec_restrictions = default_restrictions\<rparr>),
      (Disallow_empty_producer_schedule, \<lparr>codename = ''DISALLOW_EMPTY_PRODUCER_SCHEDULE'',
        spec_description_digest = ''2853617cec3eabd41881eb48882e6fc5e81a0db917d375057864b3befbe29acd'',
        builtin_dependencies = [], spec_restrictions = default_restrictions\<rparr>),
      (Restrict_action_to_self, \<lparr>codename = ''RESTRICT_ACTION_TO_SELF'',
        spec_description_digest = ''e71b6712188391994c78d8c722c1d42c477cf091e5601b5cf1befd05721a57f3'',
        builtin_dependencies = [], spec_restrictions = default_restrictions\<rparr>),
      (Only_bill_first_authorizer, \<lparr>codename = ''ONLY_BILL_FIRST_AUTHORIZER'',
        spec_description_digest = ''2f1f13e291c79da5a2bbad259ed7c1f2d34f697ea460b14b565ac33b063b73e2'',
        builtin_dependencies = [], spec_restrictions = default_restrictions\<rparr>),
      (Forward_setcode, \<lparr>codename = ''FORWARD_SETCODE'',
        spec_description_digest = ''898082c59f921d0042e581f00a59d5ceb8be6f1d9c7a45b6f07c0e26eaee0222'',
        builtin_dependencies = [], spec_restrictions = default_restrictions\<rparr>),
      (Get_sender, \<lparr>codename = ''GET_SENDER'',
        spec_description_digest = ''1eab748b95a2e6f4d7cb42065bdee5566af8efddf01a55a0a8d831b823f8828a'',
        builtin_dependencies = [], spec_restrictions = default_restrictions\<rparr>),
      (Ram_restrictions, \<lparr>codename = ''RAM_RESTRICTIONS'',
        spec_description_digest = ''1812fdb5096fd854a4958eb9d53b43219d114de0e858ce00255bd46569ad2c68'',
        builtin_dependencies = [], spec_restrictions = default_restrictions\<rparr>)]"

definition builtin_protocol_feature_codenames2 :: "(builtin_protocol_feature_t \<times> builtin_protocol_feature_spec) list" where
  "builtin_protocol_feature_codenames2 = [
      (Webauthn_key, \<lparr>codename = ''WEBAUTHN_KEY'',
        spec_description_digest = ''927fdf78c51e77a899f2db938249fb1f8bb38f4e43d9c1f75b190492080cbc34'',
        builtin_dependencies = [], spec_restrictions = default_restrictions\<rparr>),
      (Wtmsig_block_signatures, \<lparr>codename = ''WTMSIG_BLOCK_SIGNATURES'',
        spec_description_digest = ''ab76031cad7a457f4fd5f5fca97a3f03b8a635278e0416f77dcc91eb99a48e10'',
        builtin_dependencies = [], spec_restrictions = default_restrictions\<rparr>),
      (Action_return_value, \<lparr>codename = ''ACTION_RETURN_VALUE'',
        spec_description_digest = ''69b064c5178e2738e144ed6caa9349a3995370d78db29e494b3126ebd9111966'',
        builtin_dependencies = [], spec_restrictions = default_restrictions\<rparr>),
      (Kv_database, \<lparr>codename = ''KV_DATABASE'',
        spec_description_digest = ''14cfb3252a5fa3ae4c764929e0bbc467528990c9cc46aefcc7f16367f28b6278'',
        builtin_dependencies = [], spec_restrictions = default_restrictions\<rparr>),
      (Configurable_wasm_limits, \<lparr>codename = ''CONFIGURABLE_WASM_LIMITS'',
        spec_description_digest = ''67f5f1e92cbf6f7276e7b3fc8c2ad23e63448e657641a1e5de69bccd114542d6'',
        builtin_dependencies = [], spec_restrictions = default_restrictions\<rparr>),
      (Blockchain_parameters, \<lparr>codename = ''BLOCKCHAIN_PARAMETERS'',
        spec_description_digest = ''70787548dcea1a2c52c913a37f74ce99e6caae79110d7ca7b859936a0075b314'',
        builtin_dependencies = [], spec_restrictions = default_restrictions\<rparr>),
      (Event_generation, \<lparr>codename = ''EVENT_GENERATION'',
        spec_description_digest = ''35ecd1df24ba3e00c37a5572d2284e4a895233f6981ad3dd91e5ff68664b122a'',
        builtin_dependencies = [], spec_restrictions = default_restrictions\<rparr>),
      (Verify_rsa_sha256_sig, \<lparr>codename = ''VERIFY_RSA_SHA256_SIG'',
        spec_description_digest = ''46c74376222421ef2827512e88ed7ccfa59e0fba00c9b0b7b5cf35315d079411'',
        builtin_dependencies = [], spec_restrictions = default_restrictions\<rparr>),
      (Verify_ecdsa_sig, \<lparr>codename = ''VERIFY_ECDSA_SIG'',
        spec_description_digest = ''d05fe0811d2bce3ff737f351aa2ddd3ad2411c4c40f90b03a67577dbd9347ecf'',
        builtin_dependencies = [], spec_restrictions = default_restrictions\<rparr>)]"

definition builtin_protocol_feature_codenames :: "(builtin_protocol_feature_t \<times> builtin_protocol_feature_spec) list" where
  "builtin_protocol_feature_codenames = builtin_protocol_feature_codenames1 @ builtin_protocol_feature_codenames2"

definition find_builtin :: "builtin_protocol_feature_t \<Rightarrow> (chain_exception, builtin_protocol_feature_spec) result" where
  "find_builtin c =
     (case map_of builtin_protocol_feature_codenames c of
        None \<Rightarrow> Inl Protocol_feature_validation_exception
      | Some spec \<Rightarrow> Inr spec)"

definition builtin_protocol_feature_codename :: "builtin_protocol_feature_t \<Rightarrow> (chain_exception, string) result" where
  "builtin_protocol_feature_codename c = rbind (find_builtin c) (\<lambda>spec. Inr (codename spec))"

text \<open>
  A \<^verbatim>\<open>builtin_protocol_feature\<close>. The fields \<^verbatim>\<open>protocol_feature_type\<close> and \<^verbatim>\<open>builtin_feature_codename\<close> are the texts
  read from or written to JSON, from which \<^verbatim>\<open>reflector_init\<close> finds the enumerators.
\<close>

record builtin_protocol_feature =
  protocol_feature_type :: string
  description_digest :: digest_type
  dependencies :: "digest_type list"
  subjective_restrictions :: protocol_feature_subjective_restrictions
  builtin_feature_codename :: string
  feature_codename :: builtin_protocol_feature_t

definition make_builtin_protocol_feature :: "builtin_protocol_feature_t \<Rightarrow> digest_type \<Rightarrow> digest_type list \<Rightarrow>
    protocol_feature_subjective_restrictions \<Rightarrow> (chain_exception, builtin_protocol_feature) result" where
  "make_builtin_protocol_feature c desc deps restrictions =
     rbind (find_builtin c) (\<lambda>spec.
     Inr \<lparr>protocol_feature_type = ''builtin'', description_digest = desc, dependencies = deps,
          subjective_restrictions = restrictions, builtin_feature_codename = codename spec, feature_codename = c\<rparr>)"

definition builtin_reflector_init :: "builtin_protocol_feature \<Rightarrow> (chain_exception, builtin_protocol_feature) result" where
  "builtin_reflector_init f =
     rbind (eos_assert (protocol_feature_type f = ''builtin'') Protocol_feature_validation_exception) (\<lambda>_.
     case find (\<lambda>p. builtin_feature_codename f = codename (snd p)) builtin_protocol_feature_codenames of
       None \<Rightarrow> Inl Protocol_feature_validation_exception
     | Some p \<Rightarrow> Inr (f\<lparr>feature_codename := fst p\<rparr>))"

text \<open>
  \<^verbatim>\<open>builtin_protocol_feature::digest\<close> hashes the packed description digest, dependencies and codename.
\<close>

type_synonym feature_hash = "digest_type \<times> digest_type list \<times> builtin_protocol_feature_t \<Rightarrow> digest_type"

definition feature_digest_of :: "feature_hash \<Rightarrow> builtin_protocol_feature \<Rightarrow> digest_type" where
  "feature_digest_of hash f = hash (description_digest f, dependencies f, feature_codename f)"

section \<open>The recognized features\<close>

record protocol_feature =
  feature_digest :: digest_type
  pf_description_digest :: digest_type
  pf_dependencies :: "digest_type list"
  pf_earliest_allowed_activation_time :: time_point
  pf_preactivation_required :: bool
  pf_enabled :: bool
  builtin_feature :: "builtin_protocol_feature_t option"

text \<open>
  The \<^verbatim>\<open>std::set\<close> of features is a map from their digests. An entry of \<^verbatim>\<open>_recognized_builtin_protocol_features\<close> is an
  iterator into the set: the digest of the feature it points to, or \<open>None\<close> for \<^verbatim>\<open>end()\<close>.
\<close>

record protocol_feature_set =
  recognized_protocol_features :: "digest_type \<rightharpoonup> protocol_feature"
  recognized_builtin_protocol_features :: "digest_type option list"

definition empty_feature_set :: protocol_feature_set where
  "empty_feature_set = \<lparr>recognized_protocol_features = Map.empty, recognized_builtin_protocol_features = []\<rparr>"

datatype recognized_t = Unrecognized | Disabled | Too_early | Ready

definition is_recognized :: "digest_type \<Rightarrow> time_point \<Rightarrow> protocol_feature_set \<Rightarrow> recognized_t" where
  "is_recognized d now pfs =
     (case recognized_protocol_features pfs d of
        None \<Rightarrow> Unrecognized
      | Some f \<Rightarrow>
          if \<not> pf_enabled f then Disabled
          else if pf_earliest_allowed_activation_time f > now then Too_early
          else Ready)"

definition get_builtin_digest :: "builtin_protocol_feature_t \<Rightarrow> protocol_feature_set \<Rightarrow> digest_type option" where
  "get_builtin_digest c pfs =
     (let indx = feature_index c
      in if length (recognized_builtin_protocol_features pfs) \<le> indx then None
         else recognized_builtin_protocol_features pfs ! indx)"

definition get_protocol_feature :: "digest_type \<Rightarrow> protocol_feature_set \<Rightarrow> (chain_exception, protocol_feature) result" where
  "get_protocol_feature d pfs =
     (case recognized_protocol_features pfs d of None \<Rightarrow> Inl Protocol_feature_exception | Some f \<Rightarrow> Inr f)"

definition validate_dependencies :: "digest_type \<Rightarrow> (digest_type \<Rightarrow> bool) \<Rightarrow> protocol_feature_set \<Rightarrow> bool" where
  "validate_dependencies d validator pfs =
     (case recognized_protocol_features pfs d of None \<Rightarrow> False | Some f \<Rightarrow> list_all validator (pf_dependencies f))"

text \<open>
  \<^verbatim>\<open>make_default_builtin_protocol_feature\<close>: the callback gives the digest of a builtin dependency and may throw.
\<close>

fun handle_dependencies :: "(builtin_protocol_feature_t \<Rightarrow> (chain_exception, digest_type) result) \<Rightarrow>
    builtin_protocol_feature_t list \<Rightarrow> (chain_exception, digest_type list) result" where
  "handle_dependencies h [] = Inr []"
| "handle_dependencies h (d # ds) =
     rbind (h d) (\<lambda>x. rbind (handle_dependencies h ds) (\<lambda>xs. Inr (List.insert x xs)))"

definition make_default_builtin_protocol_feature :: "(string \<Rightarrow> digest_type) \<Rightarrow> builtin_protocol_feature_t \<Rightarrow>
    (builtin_protocol_feature_t \<Rightarrow> (chain_exception, digest_type) result) \<Rightarrow>
    (chain_exception, builtin_protocol_feature) result" where
  "make_default_builtin_protocol_feature of_hex c handle_dependency =
     rbind (find_builtin c) (\<lambda>spec.
     rbind (handle_dependencies handle_dependency (builtin_dependencies spec)) (\<lambda>deps.
     make_builtin_protocol_feature c (of_hex (spec_description_digest spec)) deps (spec_restrictions spec)))"

text \<open>
  The loop of \<^verbatim>\<open>add_feature\<close> over the dependencies: the expected builtin features among them, or an exception at a
  dependency that is not recognized.
\<close>

fun satisfied_builtins :: "protocol_feature_set \<Rightarrow> builtin_protocol_feature_t list \<Rightarrow> digest_type list \<Rightarrow>
    builtin_protocol_feature_t list \<Rightarrow> (chain_exception, builtin_protocol_feature_t list) result" where
  "satisfied_builtins pfs expected [] acc = Inr acc"
| "satisfied_builtins pfs expected (d # ds) acc =
     (case recognized_protocol_features pfs d of
        None \<Rightarrow> Inl Protocol_feature_exception
      | Some f \<Rightarrow>
          satisfied_builtins pfs expected ds
            (case builtin_feature f of
               None \<Rightarrow> acc
             | Some b \<Rightarrow> if b \<in> set expected then List.insert b acc else acc))"

definition add_feature :: "feature_hash \<Rightarrow> builtin_protocol_feature \<Rightarrow> protocol_feature_set \<Rightarrow>
    (chain_exception, protocol_feature_set) result" where
  "add_feature hash f pfs =
     rbind (find_builtin (feature_codename f)) (\<lambda>spec.
     let indx = feature_index (feature_codename f); builtins = recognized_builtin_protocol_features pfs in
     rbind (eos_assert (length builtins \<le> indx \<or> builtins ! indx = None) Protocol_feature_exception) (\<lambda>_.
     let d = feature_digest_of hash f; expected = builtin_dependencies spec in
     rbind (satisfied_builtins pfs expected (dependencies f) []) (\<lambda>sat.
     rbind (eos_assert (length expected \<le> length sat) Protocol_feature_validation_exception) (\<lambda>_.
     rbind (eos_assert (recognized_protocol_features pfs d = None) Protocol_feature_exception) (\<lambda>_.
     Inr \<lparr>recognized_protocol_features = (recognized_protocol_features pfs)(d \<mapsto>
            \<lparr>feature_digest = d, pf_description_digest = description_digest f, pf_dependencies = dependencies f,
             pf_earliest_allowed_activation_time = earliest_allowed_activation_time (subjective_restrictions f),
             pf_preactivation_required = preactivation_required (subjective_restrictions f),
             pf_enabled = enabled (subjective_restrictions f), builtin_feature = Some (feature_codename f)\<rparr>),
          recognized_builtin_protocol_features =
            (builtins @ replicate (Suc indx - length builtins) None)[indx := Some d]\<rparr>)))))"

section \<open>Activation sets\<close>

text \<open>\<^verbatim>\<open>protocol_feature_activation::reflector_init\<close>, run on every unpacked header extension.\<close>

definition activation_reflector_init :: "digest_type list \<Rightarrow> (chain_exception, unit) result" where
  "activation_reflector_init ds =
     rbind (eos_assert (length ds > 0) Ill_formed_protocol_feature_activation) (\<lambda>_.
     eos_assert (distinct ds) Ill_formed_protocol_feature_activation)"

definition protocol_feature_activation_set :: "digest_type set \<Rightarrow> digest_type list \<Rightarrow> bool \<Rightarrow>
    (chain_exception, digest_type set) result" where
  "protocol_feature_activation_set s1 additional enforce_disjoint =
     (let s = s1 \<union> set additional
      in rbind (eos_assert (\<not> enforce_disjoint \<or> card s = card s1 + length additional) Invalid_block_header_extension)
           (\<lambda>_. Inr s))"

section \<open>The manager\<close>

text \<open>
  \<^verbatim>\<open>no_previous\<close>, the largest \<^verbatim>\<open>size_t\<close>, is \<open>None\<close>; \<^verbatim>\<open>not_active\<close> is the largest \<^verbatim>\<open>uint32_t\<close>. The iterator of an
  activated feature is its digest.
\<close>

record builtin_protocol_feature_entry =
  previous :: "nat option"
  builtin_activation_block_num :: u32

definition not_active :: u32 where
  "not_active = numeric_max"

definition inactive_entry :: builtin_protocol_feature_entry where
  "inactive_entry = \<lparr>previous = None, builtin_activation_block_num = not_active\<rparr>"

record protocol_feature_manager =
  pfm_feature_set :: protocol_feature_set
  activated_protocol_features :: "(digest_type \<times> u32) list"
  builtin_entries :: "builtin_protocol_feature_entry list"
  head_of_builtin_activation_list :: "nat option"
  pfm_initialized :: bool

definition make_manager :: "protocol_feature_set \<Rightarrow> protocol_feature_manager" where
  "make_manager pfs =
     \<lparr>pfm_feature_set = pfs, activated_protocol_features = [],
      builtin_entries = replicate (length (recognized_builtin_protocol_features pfs)) inactive_entry,
      head_of_builtin_activation_list = None, pfm_initialized = False\<rparr>"

definition is_builtin_activated :: "builtin_protocol_feature_t \<Rightarrow> u32 \<Rightarrow> protocol_feature_manager \<Rightarrow> bool" where
  "is_builtin_activated c current_block_num pfm =
     (feature_index c < length (builtin_entries pfm) \<and>
      builtin_activation_block_num (builtin_entries pfm ! feature_index c) \<le> current_block_num)"

text \<open>Every check of \<^verbatim>\<open>activate_feature\<close> precedes its first assignment: an exception leaves the manager as it was.\<close>

definition activate_feature :: "digest_type \<Rightarrow> u32 \<Rightarrow> protocol_feature_manager \<Rightarrow>
    (chain_exception, protocol_feature_manager) result" where
  "activate_feature d current_block_num pfm =
     rbind (eos_assert (pfm_initialized pfm) Protocol_feature_exception) (\<lambda>_.
     rbind (get_protocol_feature d (pfm_feature_set pfm)) (\<lambda>f.
     rbind (eos_assert (activated_protocol_features pfm = [] \<or>
              snd (last (activated_protocol_features pfm)) \<le> current_block_num) Protocol_feature_exception) (\<lambda>_.
     case builtin_feature f of
       None \<Rightarrow> Inl Protocol_feature_exception
     | Some c \<Rightarrow>
         let indx = feature_index c in
         rbind (eos_assert (indx < length (builtin_entries pfm)) Protocol_feature_exception) (\<lambda>_.
         rbind (eos_assert (builtin_activation_block_num (builtin_entries pfm ! indx) = not_active)
                  Protocol_feature_exception) (\<lambda>_.
         Inr (pfm\<lparr>activated_protocol_features := activated_protocol_features pfm @ [(d, current_block_num)],
                  builtin_entries := (builtin_entries pfm)[indx :=
                    \<lparr>previous = head_of_builtin_activation_list pfm, builtin_activation_block_num = current_block_num\<rparr>],
                  head_of_builtin_activation_list := Some indx\<rparr>))))))"

text \<open>
  \<^verbatim>\<open>init\<close> replays the activations of the state database. When one of them throws, the scoped exit clears the flag; the
  activations before it stay.
\<close>

fun activate_all :: "(digest_type \<times> u32) list \<Rightarrow> protocol_feature_manager \<Rightarrow>
    (chain_exception \<times> protocol_feature_manager, protocol_feature_manager) result" where
  "activate_all [] pfm = Inr pfm"
| "activate_all ((d, n) # fs) pfm =
     (case activate_feature d n pfm of Inl e \<Rightarrow> Inl (e, pfm) | Inr pfm' \<Rightarrow> activate_all fs pfm')"

definition init :: "(digest_type \<times> u32) list \<Rightarrow> protocol_feature_manager \<Rightarrow>
    (chain_exception \<times> protocol_feature_manager, protocol_feature_manager) result" where
  "init fs pfm =
     (if pfm_initialized pfm then Inl (Protocol_feature_exception, pfm)
      else (case activate_all fs (pfm\<lparr>pfm_initialized := True\<rparr>) of
              Inl (e, pfm') \<Rightarrow> Inl (e, pfm'\<lparr>pfm_initialized := False\<rparr>)
            | Inr pfm' \<Rightarrow> Inr pfm'))"

text \<open>
  The first loop of \<^verbatim>\<open>popped_blocks_to\<close> follows the threaded list; its fuel is the number of entries, and a read
  outside the vector is \<open>None\<close>.
\<close>

fun unthread :: "nat \<Rightarrow> u32 \<Rightarrow> nat option \<Rightarrow> builtin_protocol_feature_entry list \<Rightarrow>
    (nat option \<times> builtin_protocol_feature_entry list) option" where
  "unthread fuel block_num None es = Some (None, es)"
| "unthread fuel block_num (Some i) es =
     (if length es \<le> i then None
      else if builtin_activation_block_num (es ! i) \<le> block_num then Some (Some i, es)
      else (case fuel of
              0 \<Rightarrow> None
            | Suc fuel' \<Rightarrow> unthread fuel' block_num (previous (es ! i)) (es[i := inactive_entry])))"

text \<open>The second loop pops from the back of the vector.\<close>

definition pop_activated :: "u32 \<Rightarrow> (digest_type \<times> u32) list \<Rightarrow> (digest_type \<times> u32) list" where
  "pop_activated block_num fs = rev (dropWhile (\<lambda>f. block_num < snd f) (rev fs))"

definition popped_blocks_to :: "u32 \<Rightarrow> protocol_feature_manager \<Rightarrow>
    (chain_exception, protocol_feature_manager) result option" where
  "popped_blocks_to block_num pfm =
     (if \<not> pfm_initialized pfm then Some (Inl Protocol_feature_exception)
      else (case unthread (length (builtin_entries pfm)) block_num (head_of_builtin_activation_list pfm) (builtin_entries pfm) of
              None \<Rightarrow> None
            | Some (h, es) \<Rightarrow>
                Some (Inr (pfm\<lparr>head_of_builtin_activation_list := h, builtin_entries := es,
                  activated_protocol_features := pop_activated block_num (activated_protocol_features pfm)\<rparr>))))"

section \<open>Iterators over the activated features\<close>

text \<open>A non-singular iterator of the manager is its index, or \<open>None\<close> for \<^verbatim>\<open>end_index\<close>.\<close>

definition iterator_increment :: "nat option \<Rightarrow> protocol_feature_manager \<Rightarrow> (chain_exception, nat option) result" where
  "iterator_increment it pfm =
     (case it of
        None \<Rightarrow> Inl Protocol_feature_iterator_exception
      | Some i \<Rightarrow> Inr (if length (activated_protocol_features pfm) \<le> Suc i then None else Some (Suc i)))"

definition iterator_decrement :: "nat option \<Rightarrow> protocol_feature_manager \<Rightarrow> (chain_exception, nat option) result" where
  "iterator_decrement it pfm =
     (case it of
        None \<Rightarrow>
          rbind (eos_assert (length (activated_protocol_features pfm) > 0) Protocol_feature_iterator_exception) (\<lambda>_.
          Inr (Some (length (activated_protocol_features pfm) - 1)))
      | Some i \<Rightarrow>
          rbind (eos_assert (i > 0) Protocol_feature_iterator_exception) (\<lambda>_. Inr (Some (i - 1))))"

definition iterator_activation_block_num :: "nat option \<Rightarrow> protocol_feature_manager \<Rightarrow> (chain_exception, u32) result" where
  "iterator_activation_block_num it pfm =
     (case it of
        None \<Rightarrow> Inl Protocol_feature_iterator_exception
      | Some i \<Rightarrow>
          if i < length (activated_protocol_features pfm) then Inr (snd (activated_protocol_features pfm ! i))
          else Inl Undefined_behaviour)"

definition cbegin :: "protocol_feature_manager \<Rightarrow> nat option" where
  "cbegin pfm = (if length (activated_protocol_features pfm) = 0 then None else Some 0)"

definition at_activation_ordinal :: "nat \<Rightarrow> protocol_feature_manager \<Rightarrow> nat option" where
  "at_activation_ordinal i pfm = (if length (activated_protocol_features pfm) \<le> i then None else Some i)"

text \<open>\<^verbatim>\<open>std::lower_bound\<close> and \<^verbatim>\<open>std::upper_bound\<close> on a range that is partitioned by the predicate.\<close>

definition activation_lower_bound :: "u32 \<Rightarrow> protocol_feature_manager \<Rightarrow> nat option" where
  "activation_lower_bound block_num pfm =
     (let i = length (takeWhile (\<lambda>f. snd f < block_num) (activated_protocol_features pfm))
      in if i = length (activated_protocol_features pfm) then None else Some i)"

definition activation_upper_bound :: "u32 \<Rightarrow> protocol_feature_manager \<Rightarrow> nat option" where
  "activation_upper_bound block_num pfm =
     (let i = length (takeWhile (\<lambda>f. \<not> block_num < snd f) (activated_protocol_features pfm))
      in if i = length (activated_protocol_features pfm) then None else Some i)"

section \<open>The vector and the threaded list agree\<close>

text \<open>Every enumerator has an entry in the table, and one entry has a dependency.\<close>

lemma builtin_table:
  "map (\<lambda>(c, spec). (c, builtin_dependencies spec)) builtin_protocol_feature_codenames =
     map (\<lambda>c. (c, if c = No_duplicate_deferred_id then [Replace_deferred] else [])) builtin_protocol_features"
  by (simp add: builtin_protocol_feature_codenames_def builtin_protocol_feature_codenames1_def
      builtin_protocol_feature_codenames2_def builtin_protocol_features_def)

lemma builtin_protocol_features_all: "c \<in> set builtin_protocol_features"
  by (cases c) (simp_all add: builtin_protocol_features_def)

lemma find_builtin_total:
  "\<exists>spec. find_builtin c = Inr spec \<and>
     builtin_dependencies spec = (if c = No_duplicate_deferred_id then [Replace_deferred] else [])"
proof -
  have "map_option builtin_dependencies (map_of builtin_protocol_feature_codenames c) =
      map_of (map (\<lambda>(c, spec). (c, builtin_dependencies spec)) builtin_protocol_feature_codenames) c"
    by (simp add: map_of_map)
  also have "\<dots> = Some (if c = No_duplicate_deferred_id then [Replace_deferred] else [])"
    unfolding builtin_table using builtin_protocol_features_all by (simp add: map_of_map_restrict)
  finally show ?thesis
    by (auto simp: find_builtin_def)
qed

lemma feature_index_inj: "feature_index c = feature_index c' \<longleftrightarrow> c = c'"
  by (cases c; cases c'; simp)

text \<open>\<open>thread es h is\<close>: following \<^verbatim>\<open>previous\<close> from \<open>h\<close> visits the entries \<open>is\<close> and ends.\<close>

fun thread :: "builtin_protocol_feature_entry list \<Rightarrow> nat option \<Rightarrow> nat list \<Rightarrow> bool" where
  "thread es h [] \<longleftrightarrow> h = None"
| "thread es h (i # is) \<longleftrightarrow> h = Some i \<and> i < length es \<and> thread es (previous (es ! i)) is"

lemma thread_update: "i \<notin> set is \<Longrightarrow> thread (es[i := e]) h is = thread es h is"
  by (induction es h "is" rule: thread.induct) auto

lemma unthread_thread:
  assumes "thread es h is" "distinct is" "length is \<le> fuel"
  shows "\<exists>h' es'. unthread fuel n h es = Some (h', es') \<and> length es' = length es \<and>
    thread es' h' (dropWhile (\<lambda>i. n < builtin_activation_block_num (es ! i)) is) \<and>
    (\<forall>i. es' ! i = (if i \<in> set (takeWhile (\<lambda>i. n < builtin_activation_block_num (es ! i)) is) then inactive_entry else es ! i))"
  using assms
proof (induction fuel n h es arbitrary: "is" rule: unthread.induct)
  case (1 fuel n es)
  then show ?case by (cases "is") auto
next
  case (2 fuel n i es)
  obtain js where js: "is = i # js" and i: "i < length es" "thread es (previous (es ! i)) js"
    using 2(2) by (cases "is") auto
  show ?case
  proof (cases "builtin_activation_block_num (es ! i) \<le> n")
    case True
    with js i show ?thesis by (simp add: leD)
  next
    case False
    obtain fuel' where fuel: "fuel = Suc fuel'" using 2(4) js by (cases fuel) auto
    let ?es = "es[i := inactive_entry]"
    have nj: "i \<notin> set js" "distinct js" using 2(3) js by auto
    have IH: "\<exists>h' es'. unthread fuel' n (previous (es ! i)) ?es = Some (h', es') \<and> length es' = length ?es \<and>
        thread es' h' (dropWhile (\<lambda>i. n < builtin_activation_block_num (?es ! i)) js) \<and>
        (\<forall>j. es' ! j = (if j \<in> set (takeWhile (\<lambda>i. n < builtin_activation_block_num (?es ! i)) js) then inactive_entry else ?es ! j))"
      using 2(1) [of fuel' js] i False fuel nj 2(4) js by (simp add: thread_update)
    have eq: "takeWhile (\<lambda>i. n < builtin_activation_block_num (?es ! i)) js = takeWhile (\<lambda>i. n < builtin_activation_block_num (es ! i)) js"
      "dropWhile (\<lambda>i. n < builtin_activation_block_num (?es ! i)) js = dropWhile (\<lambda>i. n < builtin_activation_block_num (es ! i)) js"
    proof -
      have "?es ! x = es ! x" if "x \<in> set js" for x using that nj by (auto intro: nth_list_update_neq)
      then show "takeWhile (\<lambda>i. n < builtin_activation_block_num (?es ! i)) js = takeWhile (\<lambda>i. n < builtin_activation_block_num (es ! i)) js"
        "dropWhile (\<lambda>i. n < builtin_activation_block_num (?es ! i)) js = dropWhile (\<lambda>i. n < builtin_activation_block_num (es ! i)) js"
        by (simp_all cong: takeWhile_cong dropWhile_cong)
    qed
    from IH show ?thesis
      unfolding eq using i False fuel js by (auto simp: nth_list_update not_le)
  qed
qed

definition builtin_index :: "protocol_feature_set \<Rightarrow> digest_type \<Rightarrow> nat" where
  "builtin_index pfs d =
     (case recognized_protocol_features pfs d of
        Some f \<Rightarrow> (case builtin_feature f of Some c \<Rightarrow> feature_index c | None \<Rightarrow> 0)
      | None \<Rightarrow> 0)"

definition activated_ok :: "protocol_feature_set \<Rightarrow> digest_type \<Rightarrow> bool" where
  "activated_ok pfs d \<longleftrightarrow> (\<exists>f c. recognized_protocol_features pfs d = Some f \<and> builtin_feature f = Some c)"

text \<open>
  The invariant of an initialized manager: the vector is sorted by block number and names distinct builtin features,
  the threaded list visits their entries in reverse order, an entry of the vector carries its block number and every
  other entry is not active.
\<close>

definition pfm_inv :: "protocol_feature_manager \<Rightarrow> bool" where
  "pfm_inv pfm \<longleftrightarrow>
     (let fs = activated_protocol_features pfm; es = builtin_entries pfm;
          idx = (\<lambda>f. builtin_index (pfm_feature_set pfm) (fst f))
      in pfm_initialized pfm \<and>
         (\<forall>f \<in> set fs. activated_ok (pfm_feature_set pfm) (fst f) \<and> snd f \<noteq> not_active \<and> idx f < length es \<and>
            builtin_activation_block_num (es ! idx f) = snd f) \<and>
         distinct (map idx fs) \<and> sorted (map snd fs) \<and>
         (\<forall>i < length es. i \<notin> idx ` set fs \<longrightarrow> builtin_activation_block_num (es ! i) = not_active) \<and>
         thread es (head_of_builtin_activation_list pfm) (rev (map idx fs)))"

lemma make_manager_inv: "pfm_inv ((make_manager pfs)\<lparr>pfm_initialized := True\<rparr>)"
  by (simp add: pfm_inv_def make_manager_def inactive_entry_def Let_def)

lemma activate_featureE:
  assumes "activate_feature d n pfm = Inr pfm'"
  obtains f c where "pfm_initialized pfm" "recognized_protocol_features (pfm_feature_set pfm) d = Some f"
    "builtin_feature f = Some c" "activated_protocol_features pfm = [] \<or> snd (last (activated_protocol_features pfm)) \<le> n"
    "feature_index c < length (builtin_entries pfm)"
    "builtin_activation_block_num (builtin_entries pfm ! feature_index c) = not_active"
    "pfm' = pfm\<lparr>activated_protocol_features := activated_protocol_features pfm @ [(d, n)],
       builtin_entries := (builtin_entries pfm)[feature_index c :=
         \<lparr>previous = head_of_builtin_activation_list pfm, builtin_activation_block_num = n\<rparr>],
       head_of_builtin_activation_list := Some (feature_index c)\<rparr>"
  using assms by (auto simp: activate_feature_def get_protocol_feature_def Let_def result_simps split: option.splits)

lemma sorted_append_last: "sorted (xs @ [y]) \<longleftrightarrow> sorted xs \<and> (xs = [] \<or> last xs \<le> y)"
  by (cases xs rule: rev_cases) (auto simp: sorted_append)

lemma activate_feature_inv:
  assumes "activate_feature d n pfm = Inr pfm'" "pfm_inv pfm" "n \<noteq> not_active"
  shows "pfm_inv pfm'"
  using assms(1)
proof (cases rule: activate_featureE)
  case (1 f c)
  let ?fs = "activated_protocol_features pfm" and ?es = "builtin_entries pfm"
  let ?idx = "\<lambda>f. builtin_index (pfm_feature_set pfm) (fst f)"
  have idx: "builtin_index (pfm_feature_set pfm) d = feature_index c" using 1 by (simp add: builtin_index_def)
  have inv: "pfm_initialized pfm" "distinct (map ?idx ?fs)" "sorted (map snd ?fs)"
    "\<And>f. f \<in> set ?fs \<Longrightarrow> activated_ok (pfm_feature_set pfm) (fst f) \<and> snd f \<noteq> not_active \<and> ?idx f < length ?es \<and>
            builtin_activation_block_num (?es ! ?idx f) = snd f"
    "\<And>i. i < length ?es \<Longrightarrow> i \<notin> ?idx ` set ?fs \<Longrightarrow> builtin_activation_block_num (?es ! i) = not_active"
    "thread ?es (head_of_builtin_activation_list pfm) (rev (map ?idx ?fs))"
    using assms(2) by (auto simp: pfm_inv_def Let_def)
  have new: "feature_index c \<notin> ?idx ` set ?fs"
    using inv(4) 1(6) by fastforce
  then have new': "feature_index c \<notin> set (rev (map ?idx ?fs))" by simp
  have s: "sorted (map snd (?fs @ [(d, n)]))"
    using inv(3) 1(4) by (cases "?fs = []") (auto simp: sorted_append_last last_map)
  have ok: "activated_ok (pfm_feature_set pfm) d" using 1 by (auto simp: activated_ok_def)
  show ?thesis
    unfolding pfm_inv_def Let_def 1(7)
    using inv(1,2,4,5) s ok new 1(5) assms(3) idx inv(6) thread_update [OF new']
    by (auto simp: nth_list_update)
qed

lemma sorted_pop:
  "sorted (map snd fs) \<Longrightarrow> pop_activated n fs = filter (\<lambda>f. snd f \<le> n) fs"
proof (induction fs rule: rev_induct)
  case (snoc f fs)
  then have le: "\<forall>g \<in> set fs. snd g \<le> snd f" and s: "sorted (map snd fs)" by (auto simp: sorted_append)
  show ?case
  proof (cases "n < snd f")
    case True
    with snoc.IH [OF s] show ?thesis by (simp add: pop_activated_def leD)
  next
    case False
    with le have "filter (\<lambda>f. snd f \<le> n) fs = fs" by (auto simp: filter_id_conv)
    with False show ?thesis by (simp add: pop_activated_def)
  qed
qed (simp add: pop_activated_def)

lemma sorted_late:
  assumes "sorted (map snd fs)"
  shows "set (takeWhile (\<lambda>f. n < snd f) (rev fs)) = {f \<in> set fs. n < snd f}"
  using assms
proof (induction fs rule: rev_induct)
  case (snoc f fs)
  then show ?case by (auto simp: sorted_append)
qed simp

lemma popped_blocks_to_inv:
  assumes "pfm_inv pfm"
  shows "\<exists>pfm'. popped_blocks_to n pfm = Some (Inr pfm') \<and> pfm_inv pfm' \<and> pfm_feature_set pfm' = pfm_feature_set pfm \<and>
    activated_protocol_features pfm' = filter (\<lambda>f. snd f \<le> n) (activated_protocol_features pfm)"
proof -
  let ?fs = "activated_protocol_features pfm" and ?es = "builtin_entries pfm"
  let ?idx = "\<lambda>f. builtin_index (pfm_feature_set pfm) (fst f)"
  let ?late = "\<lambda>i. n < builtin_activation_block_num (?es ! i)"
  have inv: "pfm_initialized pfm" "distinct (map ?idx ?fs)" "sorted (map snd ?fs)"
    "\<And>f. f \<in> set ?fs \<Longrightarrow> activated_ok (pfm_feature_set pfm) (fst f) \<and> snd f \<noteq> not_active \<and> ?idx f < length ?es \<and>
            builtin_activation_block_num (?es ! ?idx f) = snd f"
    "\<And>i. i < length ?es \<Longrightarrow> i \<notin> ?idx ` set ?fs \<Longrightarrow> builtin_activation_block_num (?es ! i) = not_active"
    "thread ?es (head_of_builtin_activation_list pfm) (rev (map ?idx ?fs))"
    using assms by (auto simp: pfm_inv_def Let_def)
  have "set (map ?idx ?fs) \<subseteq> {..<length ?es}" using inv(4) by auto
  from card_mono [OF _ this] have len: "length (rev (map ?idx ?fs)) \<le> length ?es"
    using distinct_card [OF inv(2)] by simp
  have d: "distinct (rev (map ?idx ?fs))" using inv(2) by simp
  from unthread_thread [OF inv(6) d len, of n] obtain h es where u: "unthread (length ?es) n (head_of_builtin_activation_list pfm) ?es = Some (h, es)"
    and les: "length es = length ?es" and th: "thread es h (dropWhile ?late (rev (map ?idx ?fs)))"
    and nth: "\<And>i. es ! i = (if i \<in> set (takeWhile ?late (rev (map ?idx ?fs))) then inactive_entry else ?es ! i)"
    by blast
  have late: "?late (?idx f) \<longleftrightarrow> n < snd f" if "f \<in> set ?fs" for f
    using inv(4) [OF that] by simp
  have rm: "rev (map ?idx ?fs) = map ?idx (rev ?fs)" by (simp add: rev_map)
  have dw: "dropWhile ?late (rev (map ?idx ?fs)) = map ?idx (dropWhile (\<lambda>f. n < snd f) (rev ?fs))"
    unfolding rm dropWhile_map by (intro arg_cong [where f = "map ?idx"] dropWhile_cong refl) (simp add: late)
  have tw: "takeWhile ?late (rev (map ?idx ?fs)) = map ?idx (takeWhile (\<lambda>f. n < snd f) (rev ?fs))"
    unfolding rm takeWhile_map by (intro arg_cong [where f = "map ?idx"] takeWhile_cong refl) (simp add: late)
  let ?gs = "filter (\<lambda>f. snd f \<le> n) ?fs"
  have gs: "dropWhile (\<lambda>f. n < snd f) (rev ?fs) = rev ?gs"
    using sorted_pop [OF inv(3), of n] by (metis pop_activated_def rev_rev_ident)
  have tset: "set (takeWhile (\<lambda>f. n < snd f) (rev ?fs)) = {f \<in> set ?fs. n < snd f}"
    using sorted_late [OF inv(3)] .
  have nth': "es ! i = (if i \<in> ?idx ` {f \<in> set ?fs. n < snd f} then inactive_entry else ?es ! i)" for i
    using nth tw tset by simp
  have inj: "inj_on ?idx (set ?fs)" using inv(2) by (simp add: distinct_map)
  let ?pfm = "pfm\<lparr>head_of_builtin_activation_list := h, builtin_entries := es, activated_protocol_features := ?gs\<rparr>"
  have "builtin_activation_block_num (es ! ?idx f) = snd f" if "f \<in> set ?gs" for f
    using that inv(4) inj by (auto simp: nth' inj_on_def)
  moreover have "builtin_activation_block_num (es ! i) = not_active" if "i < length es" "i \<notin> ?idx ` set ?gs" for i
  proof (cases "i \<in> ?idx ` {f \<in> set ?fs. n < snd f}")
    case False
    with that(2) have "i \<notin> ?idx ` (set ?gs \<union> {f \<in> set ?fs. n < snd f})" by blast
    moreover have "set ?gs \<union> {f \<in> set ?fs. n < snd f} = set ?fs" by auto
    ultimately have "i \<notin> ?idx ` set ?fs" by simp
    with False inv(5) that(1) les show ?thesis by (simp add: nth')
  qed (simp add: nth' inactive_entry_def)
  moreover have "sorted (map snd ?gs)" using inv(3) by (rule sorted_filter)
  moreover have "distinct (map ?idx ?gs)" using inv(2) by (rule distinct_map_filter)
  moreover have "thread es h (rev (map ?idx ?gs))" using th dw gs by (simp add: rev_map)
  ultimately have "pfm_inv ?pfm"
    using inv(1,4) les unfolding pfm_inv_def by simp
  then show ?thesis
    using u inv(1) sorted_pop [OF inv(3), of n] by (auto simp: popped_blocks_to_def)
qed

subsection \<open>The log of activations\<close>

text \<open>
  What the chain relies on: the manager is a log of activations, to which \<^verbatim>\<open>activate_feature\<close> appends and from which
  \<^verbatim>\<open>popped_blocks_to\<close> removes the entries above a block number.
\<close>

locale activation_log =
  fixes inv :: "'s \<Rightarrow> bool"
    and log_of :: "'s \<Rightarrow> ('d \<times> u32) list"
    and activate :: "'d \<Rightarrow> u32 \<Rightarrow> 's \<Rightarrow> (chain_exception, 's) result"
    and pop :: "u32 \<Rightarrow> 's \<Rightarrow> (chain_exception, 's) result option"
  assumes activate_log: "inv s \<Longrightarrow> n \<noteq> numeric_max \<Longrightarrow> activate d n s = Inr s' \<Longrightarrow> inv s' \<and> log_of s' = log_of s @ [(d, n)]"
    and pop_log: "inv s \<Longrightarrow> \<exists>s'. pop n s = Some (Inr s') \<and> inv s' \<and> log_of s' = filter (\<lambda>f. snd f \<le> n) (log_of s)"
begin

lemma activate_list_log:
  assumes "for_each (\<lambda>(d, m). activate d m) fs s = Inr s'" "inv s" "\<forall>f \<in> set fs. snd f \<noteq> numeric_max"
  shows "inv s' \<and> log_of s' = log_of s @ fs"
  using assms
proof (induction fs arbitrary: s)
  case (Cons f fs)
  obtain s1 where a: "activate (fst f) (snd f) s = Inr s1" and r: "for_each (\<lambda>(d, m). activate d m) fs s1 = Inr s'"
    using Cons.prems(1) by (auto simp: rbind_eq_Inr_iff split: prod.splits)
  have "inv s1 \<and> log_of s1 = log_of s @ [f]"
    using activate_log [OF Cons.prems(2) _ a] Cons.prems(3) by simp
  with Cons.IH [OF r] Cons.prems(3) show ?case by simp
qed simp

lemma pop_undoes_activations:
  assumes "for_each (\<lambda>(d, m). activate d m) fs s = Inr s'" "inv s"
    and old: "\<forall>f \<in> set (log_of s). snd f \<le> n" and new: "\<forall>f \<in> set fs. n < snd f \<and> snd f \<noteq> numeric_max"
  shows "\<exists>s''. pop n s' = Some (Inr s'') \<and> inv s'' \<and> log_of s'' = log_of s"
proof -
  have "inv s'" and l: "log_of s' = log_of s @ fs" using activate_list_log [OF assms(1,2)] new by auto
  have "filter (\<lambda>f. snd f \<le> n) (log_of s') = log_of s"
    unfolding l using old new by (auto simp: filter_id_conv filter_empty_conv not_le)
  with pop_log [OF \<open>inv s'\<close>, of n] show ?thesis by simp
qed

end

lemma activate_feature_log:
  "activate_feature d n pfm = Inr pfm' \<Longrightarrow> activated_protocol_features pfm' = activated_protocol_features pfm @ [(d, n)]"
  by (erule activate_featureE) simp

interpretation pfm_log: activation_log pfm_inv activated_protocol_features activate_feature popped_blocks_to
proof
  fix s n
  show "\<exists>s'. popped_blocks_to n s = Some (Inr s') \<and> pfm_inv s' \<and>
      activated_protocol_features s' = filter (\<lambda>f. snd f \<le> n) (activated_protocol_features s)" if "pfm_inv s"
    using popped_blocks_to_inv [OF that] by blast
qed (auto simp: activate_feature_log not_active_def intro: activate_feature_inv)

text \<open>
  C20: switching forks. After activating any features in blocks above \<open>n\<close> (and below the largest
  32-bit number, which marks inactive entries), \<^verbatim>\<open>popped_blocks_to(n)\<close> returns (both of its
  loops end, without reading outside the vectors) and leaves exactly the activations of before, in a manager whose
  vector and threaded list agree again.
\<close>

theorem popped_blocks_undo_activations:
  assumes "pfm_inv pfm" "\<forall>f \<in> set (activated_protocol_features pfm). snd f \<le> n"
    "\<forall>f \<in> set fs. n < snd f \<and> snd f \<noteq> numeric_max"
    "for_each (\<lambda>(d, m). activate_feature d m) fs pfm = Inr pfm'"
  shows "\<exists>pfm''. popped_blocks_to n pfm' = Some (Inr pfm'') \<and> pfm_inv pfm'' \<and>
    activated_protocol_features pfm'' = activated_protocol_features pfm"
  using pfm_log.pop_undoes_activations [OF assms(4,1-3)] .

text \<open>
  \<^verbatim>\<open>is_builtin_activated\<close>, which reads only the entry of the builtin feature, answers whether a feature of that
  codename is in the log with a block number at most \<open>n\<close>, for every block number but the largest, which the code uses as
  the mark of inactive entries.
\<close>

theorem builtin_activated_iff:
  assumes "pfm_inv pfm" "n \<noteq> not_active"
  shows "is_builtin_activated c n pfm \<longleftrightarrow>
    (\<exists>d m f. (d, m) \<in> set (activated_protocol_features pfm) \<and> m \<le> n \<and>
       recognized_protocol_features (pfm_feature_set pfm) d = Some f \<and> builtin_feature f = Some c)"
proof
  assume a: "is_builtin_activated c n pfm"
  let ?es = "builtin_entries pfm"
  have i: "feature_index c < length ?es" "builtin_activation_block_num (?es ! feature_index c) \<le> n"
    using a by (auto simp: is_builtin_activated_def)
  then have "builtin_activation_block_num (?es ! feature_index c) \<noteq> not_active"
    using assms(2) by (auto simp: not_active_def word_order.extremum_unique)
  then obtain d m where f: "(d, m) \<in> set (activated_protocol_features pfm)"
    "feature_index c = builtin_index (pfm_feature_set pfm) d"
    using assms(1) i unfolding pfm_inv_def Let_def by force
  have "activated_ok (pfm_feature_set pfm) d" "builtin_activation_block_num (?es ! builtin_index (pfm_feature_set pfm) d) = m"
    using assms(1) f(1) unfolding pfm_inv_def Let_def by auto
  then obtain g where "recognized_protocol_features (pfm_feature_set pfm) d = Some g" "builtin_feature g = Some c" "m \<le> n"
    using f(2) i by (auto simp: activated_ok_def builtin_index_def feature_index_inj)
  with f(1) show "\<exists>d m f. (d, m) \<in> set (activated_protocol_features pfm) \<and> m \<le> n \<and>
       recognized_protocol_features (pfm_feature_set pfm) d = Some f \<and> builtin_feature f = Some c"
    by blast
next
  assume "\<exists>d m f. (d, m) \<in> set (activated_protocol_features pfm) \<and> m \<le> n \<and>
       recognized_protocol_features (pfm_feature_set pfm) d = Some f \<and> builtin_feature f = Some c"
  then obtain d m f where f: "(d, m) \<in> set (activated_protocol_features pfm)" "m \<le> n"
    "recognized_protocol_features (pfm_feature_set pfm) d = Some f" "builtin_feature f = Some c" by blast
  then have "builtin_index (pfm_feature_set pfm) d = feature_index c" by (simp add: builtin_index_def)
  with assms(1) f show "is_builtin_activated c n pfm"
    unfolding pfm_inv_def Let_def is_builtin_activated_def by force
qed

section \<open>The set of recognized features\<close>

lemma satisfied_builtins_eq_Inr:
  assumes "satisfied_builtins pfs expected ds acc = Inr sat"
  shows "(\<forall>d \<in> set ds. recognized_protocol_features pfs d \<noteq> None) \<and>
    set sat = set acc \<union> {b \<in> set expected. \<exists>d f. d \<in> set ds \<and> recognized_protocol_features pfs d = Some f \<and> builtin_feature f = Some b}
    \<and> (distinct acc \<longrightarrow> distinct sat)"
  using assms
proof (induction pfs expected ds acc rule: satisfied_builtins.induct)
  case (2 pfs expected d ds acc)
  obtain f where f: "recognized_protocol_features pfs d = Some f" using 2(2) by (auto split: option.splits)
  let ?acc = "case builtin_feature f of None \<Rightarrow> acc | Some b \<Rightarrow> if b \<in> set expected then List.insert b acc else acc"
  have "satisfied_builtins pfs expected ds ?acc = Inr sat" using 2(2) f by simp
  note IH = 2(1) [OF f this]
  have "set ?acc = set acc \<union> {b \<in> set expected. builtin_feature f = Some b}"
    by (auto split: option.split if_splits)
  moreover have "distinct acc \<longrightarrow> distinct ?acc" by (auto split: option.split)
  ultimately show ?case
    using IH f by auto
qed auto

inductive feature_set_reachable :: "feature_hash \<Rightarrow> protocol_feature_set \<Rightarrow> bool" for hash where
  empty: "feature_set_reachable hash empty_feature_set"
| add: "feature_set_reachable hash pfs \<Longrightarrow> add_feature hash f pfs = Inr pfs' \<Longrightarrow> feature_set_reachable hash pfs'"

definition builtins_found :: "protocol_feature_set \<Rightarrow> protocol_feature \<Rightarrow> bool" where
  "builtins_found pfs f \<longleftrightarrow> (\<forall>c spec. builtin_feature f = Some c \<longrightarrow> find_builtin c = Inr spec \<longrightarrow>
     (\<forall>b \<in> set (builtin_dependencies spec). \<exists>d \<in> set (pf_dependencies f). \<exists>g.
        recognized_protocol_features pfs d = Some g \<and> builtin_feature g = Some b))"

text \<open>
  The invariant of the set: the dependencies are recognized and acyclic, the builtin dependencies of the table are
  among them, and the vector of builtin features finds exactly the recognized ones.
\<close>

definition feature_set_inv :: "protocol_feature_set \<Rightarrow> bool" where
  "feature_set_inv pfs \<longleftrightarrow>
     (\<exists>rank :: digest_type \<Rightarrow> nat. \<forall>e f. recognized_protocol_features pfs e = Some f \<longrightarrow> (\<forall>d \<in> set (pf_dependencies f). rank d < rank e)) \<and>
     (\<forall>e f. recognized_protocol_features pfs e = Some f \<longrightarrow> feature_digest f = e \<and> builtins_found pfs f \<and>
        (\<forall>d \<in> set (pf_dependencies f). recognized_protocol_features pfs d \<noteq> None)) \<and>
     (\<forall>c d. get_builtin_digest c pfs = Some d \<longleftrightarrow>
        (\<exists>f. recognized_protocol_features pfs d = Some f \<and> builtin_feature f = Some c))"

lemma builtin_dependencies_distinct: "find_builtin c = Inr spec \<Longrightarrow> distinct (builtin_dependencies spec)"
  using find_builtin_total [of c] by auto

lemma add_featureE:
  assumes "add_feature hash f pfs = Inr pfs'"
  obtains spec d sat where "find_builtin (feature_codename f) = Inr spec" "d = feature_digest_of hash f"
    "get_builtin_digest (feature_codename f) pfs = None" "satisfied_builtins pfs (builtin_dependencies spec) (dependencies f) [] = Inr sat"
    "length (builtin_dependencies spec) \<le> length sat" "recognized_protocol_features pfs d = None"
    "recognized_protocol_features pfs' = (recognized_protocol_features pfs)(d \<mapsto>
       \<lparr>feature_digest = d, pf_description_digest = description_digest f, pf_dependencies = dependencies f,
        pf_earliest_allowed_activation_time = earliest_allowed_activation_time (subjective_restrictions f),
        pf_preactivation_required = preactivation_required (subjective_restrictions f),
        pf_enabled = enabled (subjective_restrictions f), builtin_feature = Some (feature_codename f)\<rparr>)"
    "\<And>c. get_builtin_digest c pfs' = (if c = feature_codename f then Some d else get_builtin_digest c pfs)"
proof -
  let ?i = "feature_index (feature_codename f)" and ?bs = "recognized_builtin_protocol_features pfs"
  from assms obtain spec sat where *: "find_builtin (feature_codename f) = Inr spec" "length ?bs \<le> ?i \<or> ?bs ! ?i = None"
    "satisfied_builtins pfs (builtin_dependencies spec) (dependencies f) [] = Inr sat" "length (builtin_dependencies spec) \<le> length sat"
    "recognized_protocol_features pfs (feature_digest_of hash f) = None"
    and pfs': "pfs' = \<lparr>recognized_protocol_features = (recognized_protocol_features pfs)(feature_digest_of hash f \<mapsto>
            \<lparr>feature_digest = feature_digest_of hash f, pf_description_digest = description_digest f, pf_dependencies = dependencies f,
             pf_earliest_allowed_activation_time = earliest_allowed_activation_time (subjective_restrictions f),
             pf_preactivation_required = preactivation_required (subjective_restrictions f),
             pf_enabled = enabled (subjective_restrictions f), builtin_feature = Some (feature_codename f)\<rparr>),
          recognized_builtin_protocol_features =
            (?bs @ replicate (Suc ?i - length ?bs) None)[?i := Some (feature_digest_of hash f)]\<rparr>"
    by (auto simp: add_feature_def Let_def result_simps)
  have "get_builtin_digest c pfs' = (if c = feature_codename f then Some (feature_digest_of hash f) else get_builtin_digest c pfs)" for c
    unfolding pfs' get_builtin_digest_def Let_def
    by (auto simp: nth_list_update nth_append feature_index_inj)
  moreover have "get_builtin_digest (feature_codename f) pfs = None"
    using *(2) by (auto simp: get_builtin_digest_def Let_def)
  ultimately show ?thesis using that * pfs' by simp
qed

lemma card_full: "distinct xs \<Longrightarrow> distinct ys \<Longrightarrow> set xs \<subseteq> set ys \<Longrightarrow> length ys \<le> length xs \<Longrightarrow> set xs = set ys"
  by (metis card_subset_eq distinct_card finite_set card_mono le_antisym)

lemma add_feature_inv:
  assumes "add_feature hash f pfs = Inr pfs'" "feature_set_inv pfs"
  shows "feature_set_inv pfs'"
  using assms(1)
proof (cases rule: add_featureE)
  case (1 spec d sat)
  let ?r = "recognized_protocol_features pfs" and ?r' = "recognized_protocol_features pfs'"
  note sat = satisfied_builtins_eq_Inr [OF 1(4)]
  have full: "set sat = set (builtin_dependencies spec)"
    using sat 1(5) builtin_dependencies_distinct [OF 1(1)] by (intro card_full) auto
  obtain rank :: "digest_type \<Rightarrow> nat" where rank: "\<And>e g x. ?r e = Some g \<Longrightarrow> x \<in> set (pf_dependencies g) \<Longrightarrow> rank x < rank e"
    using assms(2) unfolding feature_set_inv_def by blast
  have old: "?r e = Some g \<Longrightarrow> feature_digest g = e \<and> builtins_found pfs g \<and> (\<forall>x \<in> set (pf_dependencies g). ?r x \<noteq> None)" for e g
    using assms(2) unfolding feature_set_inv_def by blast
  have keep: "?r x = Some g \<Longrightarrow> ?r' x = Some g" for x g using 1(6,7) by auto
  have keepN: "?r x \<noteq> None \<Longrightarrow> ?r' x \<noteq> None" for x using 1(7) by auto
  have fresh: "x \<noteq> d" if "?r e = Some g" "x \<in> set (pf_dependencies g)" for e g x
    using old [OF that(1)] that(2) 1(6) by auto
  have fresh': "x \<noteq> d" if "x \<in> set (dependencies f)" for x using sat that 1(6) by auto
  let ?rank = "rank(d := Suc (sum_list (map rank (dependencies f))))"
  have "?rank x < ?rank e" if "?r' e = Some g" "x \<in> set (pf_dependencies g)" for e g x
  proof (cases "e = d")
    case True
    with that 1(7) have x: "x \<in> set (dependencies f)" by auto
    then have "rank x \<le> sum_list (map rank (dependencies f))" by (simp add: member_le_sum_list)
    with True fresh' [OF x] show ?thesis by simp
  next
    case False
    with that 1(7) fresh rank show ?thesis by (metis fun_upd_other)
  qed
  moreover have "feature_digest g = e \<and> builtins_found pfs' g \<and> (\<forall>x \<in> set (pf_dependencies g). ?r' x \<noteq> None)" if "?r' e = Some g" for e g
  proof (cases "e = d")
    case False
    with that 1(7) have "?r e = Some g" by simp
    from old [OF this] keep keepN show ?thesis unfolding builtins_found_def by blast
  next
    case True
    with that 1(7) have g: "feature_digest g = d" "pf_dependencies g = dependencies f" "builtin_feature g = Some (feature_codename f)" by auto
    have dep: "\<exists>x \<in> set (dependencies f). \<exists>g. ?r x = Some g \<and> builtin_feature g = Some b"
      if "b \<in> set (builtin_dependencies spec)" for b
    proof -
      have "b \<in> set sat" using full that by simp
      then have "b \<in> set [] \<union> {b \<in> set (builtin_dependencies spec). \<exists>x g. x \<in> set (dependencies f) \<and> ?r x = Some g \<and> builtin_feature g = Some b}"
        using sat by (simp only:)
      then show ?thesis by auto
    qed
    have "builtins_found pfs' g"
      unfolding builtins_found_def g
    proof (intro allI impI ballI)
      fix c s b
      assume "Some (feature_codename f) = Some c" "find_builtin c = Inr s" "b \<in> set (builtin_dependencies s)"
      with 1(1) have "b \<in> set (builtin_dependencies spec)" by simp
      from dep [OF this] keep show "\<exists>x \<in> set (dependencies f). \<exists>g. ?r' x = Some g \<and> builtin_feature g = Some b" by blast
    qed
    moreover have "\<forall>x \<in> set (pf_dependencies g). ?r' x \<noteq> None"
      unfolding g using sat keepN by blast
    ultimately show ?thesis using g True by simp
  qed
  moreover have "get_builtin_digest c pfs' = Some x \<longleftrightarrow> (\<exists>g. ?r' x = Some g \<and> builtin_feature g = Some c)" for c x
  proof -
    have "get_builtin_digest c pfs = Some x \<longleftrightarrow> (\<exists>g. ?r x = Some g \<and> builtin_feature g = Some c)" for c x
      using assms(2) unfolding feature_set_inv_def by blast
    note iff = this
    have none: "\<not> (?r x = Some g \<and> builtin_feature g = Some (feature_codename f))" for x g
      using iff [of "feature_codename f" x] 1(3) by auto
    show ?thesis using iff none 1(6,7,8) by (auto split: if_splits)
  qed
  ultimately show ?thesis unfolding feature_set_inv_def by blast
qed

text \<open>
  C29: every set of features built by \<^verbatim>\<open>add_feature\<close> has recognized and acyclic dependencies, contains for each feature
  the builtin dependencies its table entry demands, and \<^verbatim>\<open>get_builtin_digest\<close> finds exactly its builtin features.
\<close>

theorem recognized_features_well_founded:
  assumes "feature_set_reachable hash pfs"
  shows "feature_set_inv pfs"
  using assms
proof induction
  case empty
  then show ?case by (simp add: feature_set_inv_def empty_feature_set_def get_builtin_digest_def)
next
  case (add pfs f pfs')
  from add_feature_inv [OF add.hyps(2) add.IH] show ?case .
qed

text \<open>
  Extending the set of activated features with those of a block header succeeds exactly when the new digests are
  distinct and none was activated before, and then gives the union.
\<close>

theorem activation_set_disjoint:
  assumes "finite s1"
  shows "protocol_feature_activation_set s1 ds True =
    (if distinct ds \<and> set ds \<inter> s1 = {} then Inr (s1 \<union> set ds) else Inl Invalid_block_header_extension)"
proof -
  have "card (s1 \<union> set ds) = card s1 + length ds \<longleftrightarrow> distinct ds \<and> set ds \<inter> s1 = {}"
  proof
    assume c: "card (s1 \<union> set ds) = card s1 + length ds"
    have "card (s1 \<union> set ds) + card (s1 \<inter> set ds) = card s1 + card (set ds)"
      using card_Un_Int [OF assms, of "set ds"] by simp
    with c card_length [of ds] have "card (set ds) = length ds" "card (s1 \<inter> set ds) = 0" by linarith+
    with assms show "distinct ds \<and> set ds \<inter> s1 = {}" by (auto simp: card_distinct)
  next
    assume "distinct ds \<and> set ds \<inter> s1 = {}"
    with assms show "card (s1 \<union> set ds) = card s1 + length ds"
      by (subst card_Un_disjoint) (auto simp: distinct_card)
  qed
  then show ?thesis by (simp add: protocol_feature_activation_set_def Let_def eos_assert_def)
qed

section \<open>A concrete set of features\<close>

definition sample_feature_hash :: feature_hash where
  "sample_feature_hash = (\<lambda>(desc, deps, c). \<lparr>hash0 = of_nat (feature_index c), hash1 = 0, hash2 = 0, hash3 = 0\<rparr>)"

definition sample_feature :: "builtin_protocol_feature_t \<Rightarrow> digest_type list \<Rightarrow> builtin_protocol_feature" where
  "sample_feature c deps =
     \<lparr>protocol_feature_type = ''builtin'', description_digest = \<lparr>hash0 = 0, hash1 = 0, hash2 = 0, hash3 = 0\<rparr>,
      dependencies = deps, subjective_restrictions = default_restrictions, builtin_feature_codename = [],
      feature_codename = c\<rparr>"

definition sample_feature_digest :: "builtin_protocol_feature_t \<Rightarrow> digest_type" where
  "sample_feature_digest c = sample_feature_hash (\<lparr>hash0 = 0, hash1 = 0, hash2 = 0, hash3 = 0\<rparr>, [], c)"

lemmas feature_eval = sample_feature_hash_def sample_feature_def sample_feature_digest_def default_restrictions_def
  add_feature_def empty_feature_set_def feature_digest_of_def Let_def

theorem recognized_features_well_founded_witness:
  "\<exists>pfs1 pfs2. add_feature sample_feature_hash (sample_feature Replace_deferred []) empty_feature_set = Inr pfs1 \<and>
     add_feature sample_feature_hash (sample_feature No_duplicate_deferred_id [sample_feature_digest Replace_deferred]) pfs1 = Inr pfs2 \<and>
     feature_set_inv pfs2"
proof -
  obtain s1 s2 where s: "find_builtin Replace_deferred = Inr s1" "builtin_dependencies s1 = []"
    "find_builtin No_duplicate_deferred_id = Inr s2" "builtin_dependencies s2 = [Replace_deferred]"
    using find_builtin_total [of Replace_deferred] find_builtin_total [of No_duplicate_deferred_id] by auto
  obtain pfs1 where 1: "add_feature sample_feature_hash (sample_feature Replace_deferred []) empty_feature_set = Inr pfs1"
    by (simp add: feature_eval s)
  obtain pfs2 where 2: "add_feature sample_feature_hash
      (sample_feature No_duplicate_deferred_id [sample_feature_digest Replace_deferred]) pfs1 = Inr pfs2"
    using 1 by (auto simp: feature_eval s)
  have "feature_set_reachable sample_feature_hash pfs2"
    by (intro feature_set_reachable.add [OF _ 2] feature_set_reachable.add [OF _ 1] feature_set_reachable.empty)
  from recognized_features_well_founded [OF this] 1 2 show ?thesis by blast
qed

theorem activation_set_disjoint_witness:
  "protocol_feature_activation_set {sample_feature_digest Get_sender} [sample_feature_digest Webauthn_key] True =
     Inr {sample_feature_digest Get_sender, sample_feature_digest Webauthn_key}"
  using activation_set_disjoint [of "{sample_feature_digest Get_sender}" "[sample_feature_digest Webauthn_key]"]
  by (simp add: sample_feature_digest_def sample_feature_hash_def insert_commute)

definition sample_manager :: protocol_feature_manager where
  "sample_manager = (make_manager
     \<lparr>recognized_protocol_features = [sample_feature_digest Preactivate_feature \<mapsto>
        \<lparr>feature_digest = sample_feature_digest Preactivate_feature,
         pf_description_digest = sample_feature_digest Preactivate_feature, pf_dependencies = [],
         pf_earliest_allowed_activation_time = 0, pf_preactivation_required = False, pf_enabled = True,
         builtin_feature = Some Preactivate_feature\<rparr>],
      recognized_builtin_protocol_features = [Some (sample_feature_digest Preactivate_feature)]\<rparr>)\<lparr>pfm_initialized := True\<rparr>"

lemma sample_manager_inv: "pfm_inv sample_manager"
  unfolding sample_manager_def by (rule make_manager_inv)

theorem popped_blocks_undo_activations_witness:
  "\<exists>pfm1 pfm2. activate_feature (sample_feature_digest Preactivate_feature) 7 sample_manager = Inr pfm1 \<and>
     popped_blocks_to 6 pfm1 = Some (Inr pfm2) \<and> activated_protocol_features pfm2 = []"
  using popped_blocks_undo_activations
      [OF sample_manager_inv, of 6 "[(sample_feature_digest Preactivate_feature, 7)]"]
  by (simp add: sample_manager_def make_manager_def activate_feature_def get_protocol_feature_def inactive_entry_def
      not_active_def popped_blocks_to_def pop_activated_def)

theorem builtin_activated_iff_witness:
  "\<exists>pfm. activate_feature (sample_feature_digest Preactivate_feature) 7 sample_manager = Inr pfm \<and>
     is_builtin_activated Preactivate_feature 7 pfm \<and> \<not> is_builtin_activated Preactivate_feature 6 pfm"
proof -
  obtain pfm where a: "activate_feature (sample_feature_digest Preactivate_feature) 7 sample_manager = Inr pfm"
    by (simp add: sample_manager_def make_manager_def activate_feature_def get_protocol_feature_def inactive_entry_def
        not_active_def)
  have inv: "pfm_inv pfm" by (rule activate_feature_inv [OF a sample_manager_inv]) (simp add: not_active_def)
  have log: "activated_protocol_features pfm = [(sample_feature_digest Preactivate_feature, 7)]"
    using activate_feature_log [OF a] by (simp add: sample_manager_def make_manager_def)
  have fs: "pfm_feature_set pfm = pfm_feature_set sample_manager" using a by (auto elim: activate_featureE)
  show ?thesis
    using a builtin_activated_iff [OF inv, of 7] builtin_activated_iff [OF inv, of 6] log fs
    by (simp add: sample_manager_def make_manager_def not_active_def)
qed

end
