(* ===== verification/Producer_Schedule.thy ===== *)
theory Producer_Schedule
  imports Authority
begin

text \<open>
  \<^verbatim>\<open>producer_schedule.hpp\<close>: the weighted authority by which a producer signs blocks, producer schedules, and the
  conversion of schedules of the legacy format. The variant \<^verbatim>\<open>block_signing_authority\<close> has one alternative and is that
  alternative. The copies of these structures in shared memory hold the same data and are not modelled apart.
\<close>

section \<open>Block signing authorities\<close>

record 'k block_signing_authority_v0 =
  bsa_threshold :: u32
  bsa_keys :: "'k key_weight list"

text \<open>The loop of \<^verbatim>\<open>keys_satisfy_and_relevant\<close>: the saturating total of weights and the number of relevant keys.\<close>

fun tally_keys :: "u32 \<Rightarrow> 'k set \<Rightarrow> 'k key_weight list \<Rightarrow> u32 \<Rightarrow> nat \<Rightarrow> u32 \<times> nat" where
  "tally_keys thr presented [] tot num_relevant_keys = (tot, num_relevant_keys)"
| "tally_keys thr presented (kw # kws) tot num_relevant_keys =
     (if kw_key kw \<in> presented
      then tally_keys thr presented kws
             (if tot < thr then tot + min (numeric_max - tot) (ucast (kw_weight kw))
              else tot)
             (Suc num_relevant_keys)
      else tally_keys thr presented kws tot num_relevant_keys)"

definition keys_satisfy_and_relevant :: "'k set \<Rightarrow> 'k block_signing_authority_v0 \<Rightarrow> bool \<times> nat" where
  "keys_satisfy_and_relevant presented_keys a =
     (let (tot, num_relevant_keys) = tally_keys (bsa_threshold a) presented_keys (bsa_keys a) 0 0
      in (tot \<ge> bsa_threshold a, num_relevant_keys))"

section \<open>Schedules\<close>

record 'k producer_authority =
  producer_name :: account_name
  pa_authority :: "'k block_signing_authority_v0"

record 'k producer_authority_schedule =
  version :: u32
  producers :: "'k producer_authority list"

record 'k legacy_producer_key =
  lpk_producer_name :: account_name
  block_signing_key :: 'k

record 'k legacy_producer_schedule_type =
  lps_version :: u32
  lps_producers :: "'k legacy_producer_key list"

definition empty_schedule :: "'k producer_authority_schedule" where
  "empty_schedule = \<lparr>version = 0, producers = []\<rparr>"

definition single_key_authority :: "'k \<Rightarrow> 'k block_signing_authority_v0" where
  "single_key_authority k = \<lparr>bsa_threshold = 1, bsa_keys = [\<lparr>kw_key = k, kw_weight = 1\<rparr>]\<rparr>"

definition upgrade_schedule :: "'k legacy_producer_schedule_type \<Rightarrow> 'k producer_authority_schedule" where
  "upgrade_schedule old =
     \<lparr>version = lps_version old,
      producers = map (\<lambda>p. \<lparr>producer_name = lpk_producer_name p, pa_authority = single_key_authority (block_signing_key p)\<rparr>)
        (lps_producers old)\<rparr>"

text \<open>The conversion back, from \<^verbatim>\<open>pending_block_header_state::make_block_header\<close>.\<close>

fun downgrade_producers :: "'k producer_authority list \<Rightarrow> (chain_exception, 'k legacy_producer_key list) result" where
  "downgrade_producers [] = Inr []"
| "downgrade_producers (p # ps) =
     (case bsa_keys (pa_authority p) of
        [kw] \<Rightarrow>
          rbind (eos_assert (ucast (kw_weight kw) = bsa_threshold (pa_authority p)) Producer_schedule_exception) (\<lambda>_.
          rbind (downgrade_producers ps) (\<lambda>ks.
          Inr (\<lparr>lpk_producer_name = producer_name p, block_signing_key = kw_key kw\<rparr> # ks)))
      | _ \<Rightarrow> Inl Producer_schedule_exception)"

definition downgrade_schedule :: "'k producer_authority_schedule \<Rightarrow> (chain_exception, 'k legacy_producer_schedule_type) result" where
  "downgrade_schedule s =
     rbind (downgrade_producers (producers s)) (\<lambda>ks. Inr \<lparr>lps_version = version s, lps_producers = ks\<rparr>)"

section \<open>What the tally computes\<close>

definition relevant_weight :: "'k set \<Rightarrow> 'k key_weight list \<Rightarrow> nat" where
  "relevant_weight presented kws = (\<Sum>kw\<leftarrow>kws. if kw_key kw \<in> presented then unat (kw_weight kw) else 0)"

lemma saturating_add:
  fixes w :: u16 and t :: u32
  shows "unat (t + min (numeric_max - t) (ucast w)) = min (2 ^ 32 - 1) (unat t + unat w)"
proof -
  have room: "unat (numeric_max - t) = 2 ^ 32 - 1 - unat t"
    by (simp add: unat_sub unat_numeric_max)
  have "unat t + unat (min (numeric_max - t) (ucast w)) < 2 ^ 32"
    using unat_lt_32 [of t] by (simp add: unat_min room)
  then show ?thesis
    using unat_lt_32 [of t] by (simp add: unat_plus_exact unat_min room)
qed

lemma tally_keys_eq:
  "tally_keys thr presented kws t n = (t', n') \<Longrightarrow>
     n' = n + length (filter (\<lambda>kw. kw_key kw \<in> presented) kws) \<and>
     (thr \<le> t' \<longleftrightarrow> unat thr \<le> unat t + relevant_weight presented kws)"
proof (induction thr presented kws t n rule: tally_keys.induct)
  case (1 thr presented t n)
  then show ?case by (simp add: relevant_weight_def word_le_nat_alt)
next
  case (2 thr presented kw kws t n)
  have less: "t < thr \<longleftrightarrow> unat t < unat thr" by (simp add: word_less_nat_alt)
  show ?case
  proof (cases "kw_key kw \<in> presented")
    case True
    let ?t = "if t < thr then t + min (numeric_max - t) (ucast (kw_weight kw)) else t"
    have IH: "n' = Suc n + length (filter (\<lambda>kw. kw_key kw \<in> presented) kws) \<and>
        (thr \<le> t' \<longleftrightarrow> unat thr \<le> unat ?t + relevant_weight presented kws)"
      using 2 True by simp
    have "unat thr \<le> unat ?t + relevant_weight presented kws \<longleftrightarrow>
        unat thr \<le> unat t + unat (kw_weight kw) + relevant_weight presented kws"
      using unat_lt_32 [of thr] by (auto simp: saturating_add less)
    with IH True show ?thesis by (simp add: relevant_weight_def add.assoc)
  next
    case False
    with 2 show ?thesis by (simp add: relevant_weight_def)
  qed
qed

lemma keys_satisfy_and_relevant_eq:
  "keys_satisfy_and_relevant presented a =
     (unat (bsa_threshold a) \<le> relevant_weight presented (bsa_keys a),
      length (filter (\<lambda>kw. kw_key kw \<in> presented) (bsa_keys a)))"
  unfolding keys_satisfy_and_relevant_def
  by (cases "tally_keys (bsa_threshold a) presented (bsa_keys a) 0 0") (auto dest: tally_keys_eq)

lemma downgrade_upgrade: "downgrade_schedule (upgrade_schedule s) = Inr s"
proof -
  have "downgrade_producers (map (\<lambda>p. \<lparr>producer_name = lpk_producer_name p,
      pa_authority = single_key_authority (block_signing_key p)\<rparr>) ks) = Inr ks" for ks :: "'a legacy_producer_key list"
    by (induction ks) (simp_all add: single_key_authority_def)
  then show ?thesis by (simp add: downgrade_schedule_def upgrade_schedule_def)
qed

end
