(* ===== verification/Block_Header.thy ===== *)
theory Block_Header
  imports Producer_Schedule Protocol_Features
begin

text \<open>
  \<^verbatim>\<open>block_timestamp.hpp\<close>, \<^verbatim>\<open>block_header.hpp\<close> and \<^verbatim>\<open>block_header.cpp\<close>: time slots, block headers with their
  extensions, and block ids that carry the block number. Hashing, packing, byte reversal and key recovery belong to
  the fc library and are the fields of the record \<open>fc_lib\<close>, an argument of the definitions that use them.
\<close>

unbundle bit_operations_syntax

section \<open>Block timestamps\<close>

text \<open>
  A \<^verbatim>\<open>block_timestamp\<close> is its slot. The two conversions are between the slot and the milliseconds since 1970, which
  \<^verbatim>\<open>set_time_point\<close> computes from a \<^verbatim>\<open>time_point\<close> first and \<^verbatim>\<open>operator time_point\<close> computes last; the subtraction of
  the unsigned epoch makes the first one unsigned arithmetic.
\<close>

type_synonym block_timestamp_type = u32

definition block_interval_ms :: u16 where
  "block_interval_ms = 500"

definition block_timestamp_epoch :: u64 where
  "block_timestamp_epoch = 946684800000"

definition timestamp_next :: "block_timestamp_type \<Rightarrow> (chain_exception, block_timestamp_type) result" where
  "timestamp_next slot =
     rbind (eos_assert (numeric_max - slot \<ge> 1) Overflow_exception) (\<lambda>_. Inr (slot + 1))"

definition timestamp_to_msec :: "block_timestamp_type \<Rightarrow> i64" where
  "timestamp_to_msec slot = ucast slot * ucast block_interval_ms + block_timestamp_epoch"

definition timestamp_from_msec :: "i64 \<Rightarrow> block_timestamp_type" where
  "timestamp_from_msec msec_since_epoch =
     ucast ((msec_since_epoch - block_timestamp_epoch) div ucast block_interval_ms)"

section \<open>Headers\<close>

type_synonym extensions_type = "(u16 \<times> bytes) list"

record 'k block_header =
  bh_timestamp :: block_timestamp_type
  bh_producer :: account_name
  bh_confirmed :: u16
  bh_previous :: digest_type
  transaction_mroot :: digest_type
  action_mroot :: digest_type
  schedule_version :: u32
  new_producers :: "'k legacy_producer_schedule_type option"
  header_extensions :: extensions_type

record ('k, 's) signed_block_header = "'k block_header" +
  producer_signature :: 's

text \<open>
  \<^verbatim>\<open>emplace_extension\<close> inserts at the \<^verbatim>\<open>upper_bound\<close> of the id.
\<close>

definition emplace_extension :: "u16 \<Rightarrow> bytes \<Rightarrow> extensions_type \<Rightarrow> extensions_type" where
  "emplace_extension eid data exts =
     takeWhile (\<lambda>e. \<not> eid < fst e) exts @ (eid, data) # dropWhile (\<lambda>e. \<not> eid < fst e) exts"

datatype 'k block_header_extension =
    Protocol_feature_activation "digest_type list"
  | Producer_schedule_change_extension "'k producer_authority_schedule"

definition protocol_feature_activation_id :: u16 where
  "protocol_feature_activation_id = 0"

definition producer_schedule_change_extension_id :: u16 where
  "producer_schedule_change_extension_id = 1"

record ('k, 's) fc_lib =
  fc_header_hash :: "'k block_header \<Rightarrow> digest_type"
  fc_pair_hash :: pair_hash
  fc_schedule_hash :: "'k producer_authority_schedule \<Rightarrow> digest_type"
  fc_legacy_schedule_hash :: "'k legacy_producer_schedule_type \<Rightarrow> digest_type"
  fc_recover_key :: "'s \<Rightarrow> digest_type \<Rightarrow> (chain_exception, 'k) result"
  fc_endian_reverse_u32 :: "u32 \<Rightarrow> u32"
  fc_default_digest :: digest_type
  fc_default_signature :: 's
  fc_pack_activation :: "digest_type list \<Rightarrow> bytes"
  fc_unpack_activation :: "bytes \<Rightarrow> (chain_exception, digest_type list) result"
  fc_pack_schedule :: "'k producer_authority_schedule \<Rightarrow> bytes"
  fc_unpack_schedule :: "bytes \<Rightarrow> (chain_exception, 'k producer_authority_schedule) result"

text \<open>\<^verbatim>\<open>digest()\<close> hashes the \<^verbatim>\<open>block_header\<close> part of a signed header.\<close>

definition header_digest :: "('k, 's) fc_lib \<Rightarrow> ('k, 'x) block_header_scheme \<Rightarrow> digest_type" where
  "header_digest fc h = fc_header_hash fc (block_header.truncate h)"

definition num_from_id :: "('k, 's) fc_lib \<Rightarrow> digest_type \<Rightarrow> u32" where
  "num_from_id fc i = fc_endian_reverse_u32 fc (ucast (hash0 i))"

definition header_block_num :: "('k, 's) fc_lib \<Rightarrow> ('k, 'x) block_header_scheme \<Rightarrow> u32" where
  "header_block_num fc h = num_from_id fc (bh_previous h) + 1"

definition calculate_id :: "('k, 's) fc_lib \<Rightarrow> ('k, 'x) block_header_scheme \<Rightarrow> digest_type" where
  "calculate_id fc h =
     (let result = header_digest fc h;
          masked = hash0 result AND 0xffffffff00000000
      in result\<lparr>hash0 := masked + ucast (fc_endian_reverse_u32 fc (header_block_num fc h))\<rparr>)"

text \<open>
  \<^verbatim>\<open>decompose_t::extract\<close>: the unpacked extension and whether it must be unique, or no match for an unknown id.
  Unpacking a \<^verbatim>\<open>protocol_feature_activation\<close> runs its \<^verbatim>\<open>reflector_init\<close>.
\<close>

definition extract_extension :: "('k, 's) fc_lib \<Rightarrow> u16 \<Rightarrow> bytes \<Rightarrow>
    (chain_exception, ('k block_header_extension \<times> bool) option) result" where
  "extract_extension fc eid data =
     (if eid = protocol_feature_activation_id then
        rbind (fc_unpack_activation fc data) (\<lambda>ds.
        rbind (activation_reflector_init ds) (\<lambda>_. Inr (Some (Protocol_feature_activation ds, True))))
      else if eid = producer_schedule_change_extension_id then
        rbind (fc_unpack_schedule fc data) (\<lambda>s. Inr (Some (Producer_schedule_change_extension s, True)))
      else Inr None)"

text \<open>
  The loop of \<^verbatim>\<open>validate_and_extract_header_extensions\<close> with its index, the lower bound of the ids and the results so
  far. The ids never decrease, so that emplacing into the multimap appends.
\<close>

fun extract_extensions :: "('k, 's) fc_lib \<Rightarrow> nat \<Rightarrow> u16 \<Rightarrow> extensions_type \<Rightarrow> (u16 \<times> 'k block_header_extension) list \<Rightarrow>
    (chain_exception, (u16 \<times> 'k block_header_extension) list) result" where
  "extract_extensions fc i lower [] results = Inr results"
| "extract_extensions fc i lower ((eid, data) # exts) results =
     rbind (eos_assert (eid \<ge> lower) Invalid_block_header_extension) (\<lambda>_.
     rbind (extract_extension fc eid data) (\<lambda>match.
     case match of
       None \<Rightarrow> Inl Invalid_block_header_extension
     | Some (ext, enforce_unique) \<Rightarrow>
         rbind (eos_assert (\<not> enforce_unique \<or> i = 0 \<or> eid > lower) Invalid_block_header_extension) (\<lambda>_.
         extract_extensions fc (Suc i) eid exts (results @ [(eid, ext)]))))"

definition validate_and_extract_header_extensions :: "('k, 's) fc_lib \<Rightarrow> ('k, 'x) block_header_scheme \<Rightarrow>
    (chain_exception, (u16 \<times> 'k block_header_extension) list) result" where
  "validate_and_extract_header_extensions fc h = extract_extensions fc 0 0 (header_extensions h) []"

section \<open>Concrete headers\<close>

text \<open>
  An instance of the library to instantiate theorems with: the digest of a header carries its slot, a signature is the key
  that made it, and nothing is packed.
\<close>

definition digest_of :: "u64 \<Rightarrow> digest_type" where
  "digest_of w = \<lparr>hash0 = w, hash1 = 0, hash2 = 0, hash3 = 0\<rparr>"

definition sample_fc :: "(nat, nat) fc_lib" where
  "sample_fc = \<lparr>fc_header_hash = (\<lambda>h. digest_of (ucast (bh_timestamp h))), fc_pair_hash = (\<lambda>(a, b). a),
     fc_schedule_hash = (\<lambda>_. digest_of 0), fc_legacy_schedule_hash = (\<lambda>_. digest_of 0),
     fc_recover_key = (\<lambda>s _. Inr s), fc_endian_reverse_u32 = (\<lambda>x. x), fc_default_digest = digest_of 0,
     fc_default_signature = 0, fc_pack_activation = (\<lambda>_. []), fc_unpack_activation = (\<lambda>_. Inr []),
     fc_pack_schedule = (\<lambda>_. []), fc_unpack_schedule = (\<lambda>_. Inr empty_schedule)\<rparr>"

definition sample_header :: "u32 \<Rightarrow> u64 \<Rightarrow> u16 \<Rightarrow> digest_type \<Rightarrow> (nat, nat) signed_block_header" where
  "sample_header slot pro conf prv = \<lparr>bh_timestamp = slot, bh_producer = pro, bh_confirmed = conf, bh_previous = prv,
     transaction_mroot = digest_of 0, action_mroot = digest_of 0, schedule_version = 1, new_producers = None,
     header_extensions = [], producer_signature = unat pro\<rparr>"

section \<open>Properties of timestamps and ids\<close>

text \<open>
  Converting a time slot to milliseconds and back gives the slot, for all \<open>2\<^sup>3\<^sup>2\<close> slots: the epoch offset and the
  unsigned arithmetic never lose a slot.
\<close>

theorem timestamp_roundtrip: "timestamp_from_msec (timestamp_to_msec slot) = slot"
proof -
  have m: "unat (ucast slot * ucast block_interval_ms :: u64) = unat slot * 500"
    using unat_lt_32 [of slot] by (subst unat_mult_exact) (simp_all add: block_interval_ms_def)
  have "unat (ucast slot * ucast block_interval_ms div ucast block_interval_ms :: u64) = unat slot"
    by (subst unat_div) (simp add: m, simp add: block_interval_ms_def)
  then have "ucast slot * ucast block_interval_ms div ucast block_interval_ms = (ucast slot :: u64)"
    by (simp add: word_unat_eq_iff)
  moreover have "(ucast (ucast slot :: u64) :: u32) = slot"
    by (rule bit_eqI) (simp add: bit_simps)
  ultimately show ?thesis
    by (simp add: timestamp_from_msec_def timestamp_to_msec_def)
qed

text \<open>
  C38: the id of a block carries its number. For a byte reversal that is its own inverse, the number read from the id that
  \<^verbatim>\<open>calculate_id\<close> builds is the number of the header, whatever the digest of the header is.
\<close>

theorem id_carries_block_num:
  assumes "\<And>x. fc_endian_reverse_u32 fc (fc_endian_reverse_u32 fc x) = x"
  shows "num_from_id fc (calculate_id fc h) = header_block_num fc h"
proof -
  have mask: "(0xffffffff00000000 :: u64) = push_bit 32 (mask 32)"
    by (simp add: push_bit_eq_mult mask_eq_exp_minus_1)
  have "(ucast (((w :: u64) AND 0xffffffff00000000) + ucast (v :: u32)) :: u32) = v" for w v
  proof -
    have d: "(w AND 0xffffffff00000000) + ucast v = (w AND 0xffffffff00000000) OR (ucast v :: u64)"
      unfolding mask by (rule disjunctive_add) (auto simp: bit_simps dest!: bit_imp_le_length)
    show ?thesis
      unfolding d unfolding mask by (rule bit_eqI) (simp add: bit_simps)
  qed
  note low = this
  have "num_from_id fc (calculate_id fc h) = fc_endian_reverse_u32 fc
      (ucast ((hash0 (header_digest fc h) AND 0xffffffff00000000) + ucast (fc_endian_reverse_u32 fc (header_block_num fc h))))"
    unfolding num_from_id_def calculate_id_def Let_def by simp
  also have "\<dots> = header_block_num fc h"
    unfolding low by (rule assms)
  finally show ?thesis .
qed

theorem id_carries_block_num_witness:
  "num_from_id sample_fc (calculate_id sample_fc (sample_header 36 1 0 (digest_of 4))) = 5"
  by (subst id_carries_block_num) (simp_all add: header_block_num_def num_from_id_def sample_fc_def sample_header_def digest_of_def)

end
