(* ===== verification/Block_Header_State.thy ===== *)
theory Block_Header_State
  imports Block_Header Merkle Ordered_Index
begin

text \<open>
  \<^verbatim>\<open>block_header_state.hpp\<close> and \<^verbatim>\<open>block_header_state.cpp\<close>: the state needed to validate the next header. \<^verbatim>\<open>next\<close> takes
  the state of the head to the pending state of the block of a producer: it counts the confirmations, computes the last
  irreversible block and promotes a pending schedule. \<^verbatim>\<open>finish_next\<close> checks a header against the pending state and
  turns it into the new head state; \<^verbatim>\<open>verify_signee\<close> checks the signatures.

  A \<^verbatim>\<open>flat_map\<close> is an index ordered by its key. The activated protocol features are a set of digests, and the callback
  that validates the activation of new ones is an argument.
\<close>

section \<open>States\<close>

record 'k schedule_info =
  schedule_lib_num :: u32
  schedule_hash :: digest_type
  schedule :: "'k producer_authority_schedule"

record 'k block_header_state_common =
  block_num :: u32
  dpos_proposed_irreversible_blocknum :: u32
  dpos_irreversible_blocknum :: u32
  active_schedule :: "'k producer_authority_schedule"
  blockroot_merkle :: incremental_merkle
  producer_to_last_produced :: "(account_name, u32) index"
  producer_to_last_implied_irb :: "(account_name, u32) index"
  valid_block_signing_authority :: "'k block_signing_authority_v0"
  confirm_count :: "u8 list"

record 'k pending_block_header_state = "'k block_header_state_common" +
  prev_activated_protocol_features :: "digest_type set"
  prev_pending_schedule :: "'k schedule_info"
  was_pending_promoted :: bool
  pb_previous :: digest_type
  pb_producer :: account_name
  pb_timestamp :: block_timestamp_type
  active_schedule_version :: u32
  pb_confirmed :: u16

record ('k, 's) block_header_state = "'k block_header_state_common" +
  bhs_id :: digest_type
  bhs_header :: "('k, 's) signed_block_header"
  pending_schedule :: "'k schedule_info"
  activated_protocol_features :: "digest_type set"
  additional_signatures :: "'s list"
  header_exts :: "(u16 \<times> 'k block_header_extension) list"

definition producer_repetitions :: nat where
  "producer_repetitions = 12"

definition maximum_tracked_dpos_confirmations :: nat where
  "maximum_tracked_dpos_confirmations = 1024"

definition builtin_activated_in :: "digest_type set \<Rightarrow> protocol_feature_set \<Rightarrow> builtin_protocol_feature_t \<Rightarrow> bool" where
  "builtin_activated_in pfa pfs c = (case get_builtin_digest c pfs of None \<Rightarrow> False | Some d \<Rightarrow> d \<in> pfa)"

section \<open>The next block\<close>

text \<open>With an empty schedule the remainder has a zero divisor, which is undefined.\<close>

definition get_scheduled_producer :: "('k, 'x) block_header_state_common_scheme \<Rightarrow> block_timestamp_type \<Rightarrow>
    (chain_exception, 'k producer_authority) result" where
  "get_scheduled_producer s t =
     (let ps = producers (active_schedule s)
      in if ps = [] then Inl Undefined_behaviour
         else Inr (ps ! (unat t mod (length ps * producer_repetitions) div producer_repetitions)))"

text \<open>\<^verbatim>\<open>std::nth_element\<close> leaves at the index what sorting would leave there.\<close>

definition calc_dpos_last_irreversible :: "('k, 'x) block_header_state_common_scheme \<Rightarrow> account_name \<Rightarrow> u32" where
  "calc_dpos_last_irreversible s producer_of_next_block =
     (let blocknums = map (\<lambda>(p, n). if p = producer_of_next_block then dpos_proposed_irreversible_blocknum s else n)
            (producer_to_last_implied_irb s)
      in if blocknums = [] then 0 else sort blocknums ! ((length blocknums - 1) div 3))"

text \<open>The confirmation count grows by the requirement of the new block, within its bound.\<close>

definition grow_confirm_count :: "u8 list \<Rightarrow> u8 \<Rightarrow> u8 list" where
  "grow_confirm_count cc required_confs =
     (if length cc < maximum_tracked_dpos_confirmations then cc @ [required_confs] else tl cc @ [required_confs])"

text \<open>
  The \<^verbatim>\<open>while\<close> loop over the confirmation count, from the back. \<open>n\<close> is \<^verbatim>\<open>i + 1\<close>; the result has the new proposed
  irreversible block number when some count drops to zero, in which case the counts up to it are removed.
\<close>

fun confirm_loop :: "u32 \<Rightarrow> nat \<Rightarrow> u32 \<Rightarrow> u8 list \<Rightarrow> u32 option \<times> u8 list" where
  "confirm_loop bn 0 blocks_to_confirm cc = (None, cc)"
| "confirm_loop bn (Suc i) blocks_to_confirm cc =
     (if blocks_to_confirm = 0 then (None, cc)
      else
        let cc' = cc[i := cc ! i - 1]
        in if cc' ! i = 0 then (Some (bn - of_nat (length cc' - 1 - i)), drop (Suc i) cc')
           else confirm_loop bn i (blocks_to_confirm - 1) cc')"

definition promoted_last_produced :: "account_name \<Rightarrow> u32 \<Rightarrow> u32 \<Rightarrow> (account_name, u32) index \<Rightarrow> 'k producer_authority list \<Rightarrow>
    (account_name, u32) index" where
  "promoted_last_produced pro bn lib old ps =
     idx_put pro bn
       (fold (\<lambda>p m. idx_put (producer_name p)
          (if producer_name p = pro then bn
           else case map_of old (producer_name p) of Some n \<Rightarrow> n | None \<Rightarrow> lib) m) ps [])"

definition promoted_implied_irb :: "account_name \<Rightarrow> u32 \<Rightarrow> u32 \<Rightarrow> (account_name, u32) index \<Rightarrow> 'k producer_authority list \<Rightarrow>
    (account_name, u32) index" where
  "promoted_implied_irb pro proposed lib old ps =
     fold (\<lambda>p m. idx_put (producer_name p)
       (if producer_name p = pro then proposed
        else case map_of old (producer_name p) of Some n \<Rightarrow> n | None \<Rightarrow> lib) m) ps []"

definition next_when :: "('k, 's) block_header_state \<Rightarrow> block_timestamp_type \<Rightarrow> (chain_exception, block_timestamp_type) result" where
  "next_when s when =
     (if when \<noteq> 0
      then rbind (eos_assert (when > bh_timestamp (bhs_header s)) Block_validate_exception) (\<lambda>_. Inr when)
      else Inr (bh_timestamp (bhs_header s) + 1))"

definition next_pending :: "('k, 's) fc_lib \<Rightarrow> ('k, 's) block_header_state \<Rightarrow> block_timestamp_type \<Rightarrow> u16 \<Rightarrow>
    (chain_exception, 'k pending_block_header_state) result" where
  "next_pending fc s when0 num_prev_blocks_to_confirm =
     rbind (next_when s when0) (\<lambda>when.
     rbind (get_scheduled_producer s when) (\<lambda>proauth.
     let pro = producer_name proauth; bn = block_num s + 1 in
     rbind (case map_of (producer_to_last_produced s) pro of
              None \<Rightarrow> Inr ()
            | Some last_produced \<Rightarrow>
                eos_assert (last_produced < bn - ucast num_prev_blocks_to_confirm) Producer_double_confirm) (\<lambda>_.
     case append_node (fc_pair_hash fc) (bhs_id s) (blockroot_merkle s) of
       None \<Rightarrow> Inl Undefined_behaviour
     | Some bmroot \<Rightarrow>
         let required_confs = (of_nat (length (producers (active_schedule s)) * 2 div 3) :: u32) + 1;
             cc = grow_confirm_count (confirm_count s) (ucast required_confs);
             (proposed, cc') = confirm_loop bn (length cc) (ucast num_prev_blocks_to_confirm + 1) cc;
             lib = calc_dpos_last_irreversible s pro;
             promote = producers (schedule (pending_schedule s)) \<noteq> [] \<and> lib \<ge> schedule_lib_num (pending_schedule s);
             sched = (if promote then schedule (pending_schedule s) else active_schedule s)
         in Inr
           \<lparr>block_num = bn,
            dpos_proposed_irreversible_blocknum =
              (case proposed of Some n \<Rightarrow> n | None \<Rightarrow> dpos_proposed_irreversible_blocknum s),
            dpos_irreversible_blocknum = lib,
            active_schedule = sched,
            blockroot_merkle = bmroot,
            producer_to_last_produced =
              (if promote then promoted_last_produced pro bn lib (producer_to_last_produced s) (producers sched)
               else idx_put pro bn (producer_to_last_produced s)),
            producer_to_last_implied_irb =
              (if promote
               then promoted_implied_irb pro (dpos_proposed_irreversible_blocknum s) lib (producer_to_last_implied_irb s) (producers sched)
               else idx_put pro (dpos_proposed_irreversible_blocknum s) (producer_to_last_implied_irb s)),
            valid_block_signing_authority = pa_authority proauth,
            confirm_count = cc',
            prev_activated_protocol_features = activated_protocol_features s,
            prev_pending_schedule = pending_schedule s,
            was_pending_promoted = promote,
            pb_previous = bhs_id s,
            pb_producer = pro,
            pb_timestamp = when,
            active_schedule_version = version (active_schedule s),
            pb_confirmed = num_prev_blocks_to_confirm\<rparr>)))"

section \<open>The header of the next block\<close>

definition make_block_header :: "('k, 's) fc_lib \<Rightarrow> 'k pending_block_header_state \<Rightarrow> digest_type \<Rightarrow> digest_type \<Rightarrow>
    'k producer_authority_schedule option \<Rightarrow> digest_type list \<Rightarrow> protocol_feature_set \<Rightarrow>
    (chain_exception, ('k, 's) signed_block_header) result" where
  "make_block_header fc p tmroot amroot new_prods new_protocol_feature_activations pfs =
     (let h = \<lparr>bh_timestamp = pb_timestamp p, bh_producer = pb_producer p, bh_confirmed = pb_confirmed p,
               bh_previous = pb_previous p, transaction_mroot = tmroot, action_mroot = amroot,
               schedule_version = active_schedule_version p, new_producers = None,
               header_extensions =
                 (if new_protocol_feature_activations = [] then []
                  else emplace_extension protocol_feature_activation_id
                         (fc_pack_activation fc new_protocol_feature_activations) []),
               producer_signature = fc_default_signature fc\<rparr>
      in case new_prods of
           None \<Rightarrow> Inr h
         | Some sch \<Rightarrow>
             if builtin_activated_in (prev_activated_protocol_features p) pfs Wtmsig_block_signatures
             then Inr (h\<lparr>header_extensions :=
                    emplace_extension producer_schedule_change_extension_id (fc_pack_schedule fc sch) (header_extensions h)\<rparr>)
             else rbind (downgrade_schedule sch) (\<lambda>legacy. Inr (h\<lparr>new_producers := Some legacy\<rparr>)))"

section \<open>Accepting a header\<close>

text \<open>
  A \<^verbatim>\<open>flat_multimap\<close> of extensions is the list of its entries in order. \<^verbatim>\<open>lower_bound\<close> followed by \<^verbatim>\<open>std::get\<close> fails
  when there is no entry from the id on, or when the entry holds the other alternative.
\<close>

type_synonym 'k header_exts = "(u16 \<times> 'k block_header_extension) list"

definition exts_count :: "u16 \<Rightarrow> 'k header_exts \<Rightarrow> nat" where
  "exts_count eid exts = length (filter (\<lambda>e. fst e = eid) exts)"

definition exts_activation :: "'k header_exts \<Rightarrow> (chain_exception, digest_type list) result" where
  "exts_activation exts =
     (case find (\<lambda>e. fst e \<ge> protocol_feature_activation_id) exts of
        None \<Rightarrow> Inl Undefined_behaviour
      | Some (_, Protocol_feature_activation ds) \<Rightarrow> Inr ds
      | Some (_, Producer_schedule_change_extension _) \<Rightarrow> Inl Bad_variant_access)"

definition exts_schedule :: "'k header_exts \<Rightarrow> (chain_exception, 'k producer_authority_schedule) result" where
  "exts_schedule exts =
     (case find (\<lambda>e. fst e \<ge> producer_schedule_change_extension_id) exts of
        None \<Rightarrow> Inl Undefined_behaviour
      | Some (_, Producer_schedule_change_extension sch) \<Rightarrow> Inr sch
      | Some (_, Protocol_feature_activation _) \<Rightarrow> Inl Bad_variant_access)"

text \<open>The conditions under which a header may propose a schedule.\<close>

definition check_new_schedule :: "'k pending_block_header_state \<Rightarrow> u32 \<Rightarrow> (chain_exception, unit) result" where
  "check_new_schedule p ver =
     rbind (eos_assert (ver = version (active_schedule p) + 1) Producer_schedule_exception) (\<lambda>_.
     eos_assert (producers (schedule (prev_pending_schedule p)) = []) Producer_schedule_exception)"

definition new_schedule_of_header :: "('k, 's) fc_lib \<Rightarrow> protocol_feature_set \<Rightarrow> 'k pending_block_header_state \<Rightarrow>
    ('k, 's) signed_block_header \<Rightarrow> 'k header_exts \<Rightarrow>
    (chain_exception, ('k producer_authority_schedule \<times> digest_type) option) result" where
  "new_schedule_of_header fc pfs p h exts =
     (let in_exts = exts_count producer_schedule_change_extension_id exts > 0;
          wtmsig_enabled = (new_producers h \<noteq> None \<or> in_exts) \<and>
            builtin_activated_in (prev_activated_protocol_features p) pfs Wtmsig_block_signatures
      in
      rbind (case new_producers h of
               None \<Rightarrow> Inr None
             | Some np \<Rightarrow>
                 rbind (eos_assert (\<not> wtmsig_enabled) Producer_schedule_exception) (\<lambda>_.
                 rbind (eos_assert (\<not> was_pending_promoted p) Producer_schedule_exception) (\<lambda>_.
                 rbind (check_new_schedule p (lps_version np)) (\<lambda>_.
                 Inr (Some (upgrade_schedule np, fc_legacy_schedule_hash fc np)))))) (\<lambda>maybe_new.
      if in_exts then
        rbind (eos_assert wtmsig_enabled Producer_schedule_exception) (\<lambda>_.
        rbind (eos_assert (\<not> was_pending_promoted p) Producer_schedule_exception) (\<lambda>_.
        rbind (exts_schedule exts) (\<lambda>sch.
        rbind (check_new_schedule p (version sch)) (\<lambda>_.
        Inr (Some (sch, fc_schedule_hash fc sch))))))
      else Inr maybe_new))"

text \<open>
  The call \<^verbatim>\<open>exts.count(protocol_feature_activation::extension_id() > 0)\<close> counts the entries whose id is the value of
  the comparison.
\<close>

definition new_activated_features :: "(block_timestamp_type \<Rightarrow> digest_type set \<Rightarrow> digest_type list \<Rightarrow> (chain_exception, unit) result) \<Rightarrow>
    'k pending_block_header_state \<Rightarrow> 'k header_exts \<Rightarrow> (chain_exception, digest_type set) result" where
  "new_activated_features validator p exts =
     (if exts_count (if protocol_feature_activation_id > 0 then 1 else 0) exts > 0 then
        rbind (exts_activation exts) (\<lambda>ds.
        rbind (validator (pb_timestamp p) (prev_activated_protocol_features p) ds) (\<lambda>_.
        protocol_feature_activation_set (prev_activated_protocol_features p) ds True))
      else Inr (prev_activated_protocol_features p))"

definition check_header_matches :: "'k pending_block_header_state \<Rightarrow> ('k, 's) signed_block_header \<Rightarrow> (chain_exception, unit) result" where
  "check_header_matches p h =
     rbind (eos_assert (bh_timestamp h = pb_timestamp p) Block_validate_exception) (\<lambda>_.
     rbind (eos_assert (bh_previous h = pb_previous p) Unlinkable_block_exception) (\<lambda>_.
     rbind (eos_assert (bh_confirmed h = pb_confirmed p) Block_validate_exception) (\<lambda>_.
     rbind (eos_assert (bh_producer h = pb_producer p) Wrong_producer) (\<lambda>_.
     eos_assert (schedule_version h = active_schedule_version p) Producer_schedule_exception))))"

definition finish_next_unchecked :: "('k, 's) fc_lib \<Rightarrow> 'k pending_block_header_state \<Rightarrow> ('k, 's) signed_block_header \<Rightarrow> protocol_feature_set \<Rightarrow>
    (block_timestamp_type \<Rightarrow> digest_type set \<Rightarrow> digest_type list \<Rightarrow> (chain_exception, unit) result) \<Rightarrow>
    (chain_exception, ('k, 's) block_header_state) result" where
  "finish_next_unchecked fc p h pfs validator =
     rbind (check_header_matches p h) (\<lambda>_.
     rbind (validate_and_extract_header_extensions fc h) (\<lambda>exts.
     rbind (new_schedule_of_header fc pfs p h exts) (\<lambda>maybe_new.
     rbind (new_activated_features validator p exts) (\<lambda>feats.
     Inr
       \<lparr>block_num = block_num p,
        dpos_proposed_irreversible_blocknum = dpos_proposed_irreversible_blocknum p,
        dpos_irreversible_blocknum = dpos_irreversible_blocknum p,
        active_schedule = active_schedule p,
        blockroot_merkle = blockroot_merkle p,
        producer_to_last_produced = producer_to_last_produced p,
        producer_to_last_implied_irb = producer_to_last_implied_irb p,
        valid_block_signing_authority = valid_block_signing_authority p,
        confirm_count = confirm_count p,
        bhs_id = calculate_id fc h,
        bhs_header = h,
        pending_schedule =
          (case maybe_new of
             Some (sch, hash) \<Rightarrow> \<lparr>schedule_lib_num = block_num p, schedule_hash = hash, schedule = sch\<rparr>
           | None \<Rightarrow>
               \<lparr>schedule_lib_num = schedule_lib_num (prev_pending_schedule p),
                schedule_hash = schedule_hash (prev_pending_schedule p),
                schedule =
                  (if was_pending_promoted p
                   then empty_schedule\<lparr>version := version (schedule (prev_pending_schedule p))\<rparr>
                   else schedule (prev_pending_schedule p))\<rparr>),
        activated_protocol_features = feats,
        additional_signatures = [],
        header_exts = exts\<rparr>))))"

section \<open>Signatures\<close>

definition sig_digest :: "('k, 's) fc_lib \<Rightarrow> ('k, 's) block_header_state \<Rightarrow> digest_type" where
  "sig_digest fc s =
     (let header_bmroot = fc_pair_hash fc (header_digest fc (bhs_header s), get_root (fc_default_digest fc) (blockroot_merkle s))
      in fc_pair_hash fc (header_bmroot, schedule_hash (pending_schedule s)))"

text \<open>The keys recovered from the additional signatures, each of which must be new.\<close>

fun recover_keys :: "('k, 's) fc_lib \<Rightarrow> digest_type \<Rightarrow> 's list \<Rightarrow> 'k set \<Rightarrow> (chain_exception, 'k set) result" where
  "recover_keys fc d [] ks = Inr ks"
| "recover_keys fc d (s # ss) ks =
     rbind (fc_recover_key fc s d) (\<lambda>k.
     rbind (eos_assert (k \<notin> ks) Wrong_signing_key) (\<lambda>_.
     recover_keys fc d ss (insert k ks)))"

definition verify_signee :: "('k, 's) fc_lib \<Rightarrow> ('k, 's) block_header_state \<Rightarrow> (chain_exception, unit) result" where
  "verify_signee fc s =
     (let auth = valid_block_signing_authority s; d = sig_digest fc s in
     rbind (eos_assert (1 + length (additional_signatures s) \<le> length (bsa_keys auth)) Wrong_signing_key) (\<lambda>_.
     rbind (fc_recover_key fc (producer_signature (bhs_header s)) d) (\<lambda>k.
     rbind (recover_keys fc d (additional_signatures s) {k}) (\<lambda>ks.
     let (is_satisfied, relevant_sig_count) = keys_satisfy_and_relevant ks auth in
     rbind (eos_assert (relevant_sig_count = card ks) Wrong_signing_key) (\<lambda>_.
     eos_assert is_satisfied Wrong_signing_key)))))"

definition assign_signatures :: "('k, 's) fc_lib \<Rightarrow> 's list \<Rightarrow> ('k, 's) block_header_state \<Rightarrow> (chain_exception, ('k, 's) block_header_state) result" where
  "assign_signatures fc sigs s =
     rbind (eos_assert (sigs \<noteq> []) No_block_signatures) (\<lambda>_.
     let s' = s\<lparr>bhs_header := (bhs_header s)\<lparr>producer_signature := last sigs\<rparr>, additional_signatures := butlast sigs\<rparr> in
     rbind (verify_signee fc s') (\<lambda>_. Inr s'))"

definition sign_block :: "('k, 's) fc_lib \<Rightarrow> (digest_type \<Rightarrow> 's list) \<Rightarrow> ('k, 's) block_header_state \<Rightarrow> (chain_exception, ('k, 's) block_header_state) result" where
  "sign_block fc signer s = assign_signatures fc (signer (sig_digest fc s)) s"

definition finish_next :: "('k, 's) fc_lib \<Rightarrow> 'k pending_block_header_state \<Rightarrow> ('k, 's) signed_block_header \<Rightarrow> 's list \<Rightarrow> protocol_feature_set \<Rightarrow>
    (block_timestamp_type \<Rightarrow> digest_type set \<Rightarrow> digest_type list \<Rightarrow> (chain_exception, unit) result) \<Rightarrow> bool \<Rightarrow>
    (chain_exception, ('k, 's) block_header_state) result" where
  "finish_next fc p h sigs pfs validator skip_validate_signee =
     rbind (if sigs \<noteq> []
            then eos_assert (builtin_activated_in (prev_activated_protocol_features p) pfs Wtmsig_block_signatures)
                   Producer_schedule_exception
            else Inr ()) (\<lambda>_.
     rbind (finish_next_unchecked fc p h pfs validator) (\<lambda>result.
     let result = (if sigs \<noteq> [] then result\<lparr>additional_signatures := sigs\<rparr> else result) in
     rbind (if \<not> skip_validate_signee then verify_signee fc result else Inr ()) (\<lambda>_.
     Inr result)))"

definition next_header :: "('k, 's) fc_lib \<Rightarrow> ('k, 's) block_header_state \<Rightarrow> ('k, 's) signed_block_header \<Rightarrow> 's list \<Rightarrow> protocol_feature_set \<Rightarrow>
    (block_timestamp_type \<Rightarrow> digest_type set \<Rightarrow> digest_type list \<Rightarrow> (chain_exception, unit) result) \<Rightarrow> bool \<Rightarrow>
    (chain_exception, ('k, 's) block_header_state) result" where
  "next_header fc s h sigs pfs validator skip_validate_signee =
     rbind (next_pending fc s (bh_timestamp h) (bh_confirmed h)) (\<lambda>p.
     finish_next fc p h sigs pfs validator skip_validate_signee)"

definition get_new_protocol_feature_activations :: "('k, 's) block_header_state \<Rightarrow> (chain_exception, digest_type list) result" where
  "get_new_protocol_feature_activations s =
     (if exts_count protocol_feature_activation_id (header_exts s) = 0 then Inr []
      else exts_activation (header_exts s))"

section \<open>States of legacy snapshots\<close>

record 'k legacy_schedule_info =
  lsi_schedule_lib_num :: u32
  lsi_schedule_hash :: digest_type
  lsi_schedule :: "'k legacy_producer_schedule_type"

record ('k, 's) snapshot_block_header_state_v2 =
  sv_block_num :: u32
  sv_dpos_proposed_irreversible_blocknum :: u32
  sv_dpos_irreversible_blocknum :: u32
  sv_active_schedule :: "'k legacy_producer_schedule_type"
  sv_blockroot_merkle :: incremental_merkle
  sv_producer_to_last_produced :: "(account_name, u32) index"
  sv_producer_to_last_implied_irb :: "(account_name, u32) index"
  sv_block_signing_key :: 'k
  sv_confirm_count :: "u8 list"
  sv_id :: digest_type
  sv_header :: "('k, 's) signed_block_header"
  sv_pending_schedule :: "'k legacy_schedule_info"
  sv_activated_protocol_features :: "digest_type set"

definition of_legacy_snapshot :: "('k, 's) snapshot_block_header_state_v2 \<Rightarrow> ('k, 's) block_header_state" where
  "of_legacy_snapshot sv =
     \<lparr>block_num = sv_block_num sv,
      dpos_proposed_irreversible_blocknum = sv_dpos_proposed_irreversible_blocknum sv,
      dpos_irreversible_blocknum = sv_dpos_irreversible_blocknum sv,
      active_schedule = upgrade_schedule (sv_active_schedule sv),
      blockroot_merkle = sv_blockroot_merkle sv,
      producer_to_last_produced = sv_producer_to_last_produced sv,
      producer_to_last_implied_irb = sv_producer_to_last_implied_irb sv,
      valid_block_signing_authority = single_key_authority (sv_block_signing_key sv),
      confirm_count = sv_confirm_count sv,
      bhs_id = sv_id sv,
      bhs_header = sv_header sv,
      pending_schedule =
        \<lparr>schedule_lib_num = lsi_schedule_lib_num (sv_pending_schedule sv),
         schedule_hash = lsi_schedule_hash (sv_pending_schedule sv),
         schedule = upgrade_schedule (lsi_schedule (sv_pending_schedule sv))\<rparr>,
      activated_protocol_features = sv_activated_protocol_features sv,
      additional_signatures = [],
      header_exts = []\<rparr>"


section \<open>The quorum of the last irreversible block\<close>

lemma sorted_nth_ge_iff:
  fixes ys :: "'a :: linorder list"
  assumes "sorted ys" "k < length ys"
  shows "x \<le> ys ! k \<longleftrightarrow> length ys - k \<le> length (filter (\<lambda>y. x \<le> y) ys)"
proof
  assume le: "x \<le> ys ! k"
  have "x \<le> y" if "y \<in> set (drop k ys)" for y
  proof -
    from that obtain i where i: "i < length ys - k" "y = ys ! (k + i)"
      by (auto simp: in_set_conv_nth)
    then have "ys ! k \<le> ys ! (k + i)" using assms(1) by (simp add: sorted_nth_mono)
    with le i(2) show ?thesis by simp
  qed
  then have "filter (\<lambda>y. x \<le> y) (drop k ys) = drop k ys" by (simp add: filter_id_conv)
  then have "length (filter (\<lambda>y. x \<le> y) ys) = length (filter (\<lambda>y. x \<le> y) (take k ys)) + (length ys - k)"
    by (metis append_take_drop_id filter_append length_append length_drop)
  then show "length ys - k \<le> length (filter (\<lambda>y. x \<le> y) ys)" by simp
next
  assume le: "length ys - k \<le> length (filter (\<lambda>y. x \<le> y) ys)"
  show "x \<le> ys ! k"
  proof (rule ccontr)
    assume less: "\<not> x \<le> ys ! k"
    have "\<not> x \<le> y" if "y \<in> set (take (Suc k) ys)" for y
    proof -
      from that obtain i where "i \<le> k" "y = ys ! i"
        by (auto simp: in_set_conv_nth less_Suc_eq_le)
      with assms less show ?thesis by (meson order_trans sorted_nth_mono)
    qed
    then have "filter (\<lambda>y. x \<le> y) (take (Suc k) ys) = []" by (simp add: filter_empty_conv)
    then have "length (filter (\<lambda>y. x \<le> y) ys) = length (filter (\<lambda>y. x \<le> y) (drop (Suc k) ys))"
      by (metis append_Nil append_take_drop_id filter_append)
    also have "\<dots> \<le> length ys - Suc k" by (metis length_drop length_filter_le)
    finally show False using le assms(2) by simp
  qed
qed

lemma length_filter_sort: "length (filter P (sort xs)) = length (filter P xs)"
  by (metis mset_filter mset_sort size_mset)

lemma two_thirds:
  assumes "0 < n"
  shows "n - (n - 1) div 3 \<le> c \<longleftrightarrow> 2 * n < 3 * (c :: nat)"
proof -
  define q r where "q = (n - 1) div 3" and "r = (n - 1) mod 3"
  have "n - 1 = 3 * q + r" "r < 3" unfolding q_def r_def by simp_all
  with assms have "n = 3 * q + r + 1" "r < 3" by simp_all
  then show ?thesis unfolding q_def [symmetric] by auto
qed

definition implied_irb :: "('k, 'x) block_header_state_common_scheme \<Rightarrow> account_name \<Rightarrow> account_name \<times> u32 \<Rightarrow> u32" where
  "implied_irb s pro r = (if fst r = pro then dpos_proposed_irreversible_blocknum s else snd r)"

lemma calc_dpos_ge_iff:
  assumes "producer_to_last_implied_irb s \<noteq> []"
  shows "n \<le> calc_dpos_last_irreversible s pro \<longleftrightarrow>
     2 * length (producer_to_last_implied_irb s)
       < 3 * length (filter (\<lambda>r. n \<le> implied_irb s pro r) (producer_to_last_implied_irb s))"
proof -
  let ?irbs = "producer_to_last_implied_irb s"
  let ?ys = "sort (map (implied_irb s pro) ?irbs)"
  let ?k = "(length ?irbs - 1) div 3"
  have calc: "calc_dpos_last_irreversible s pro = ?ys ! ?k"
    using assms by (simp add: calc_dpos_last_irreversible_def implied_irb_def [abs_def] case_prod_unfold)
  have "?k < length ?irbs" using assms by (cases ?irbs) auto
  then have "n \<le> ?ys ! ?k \<longleftrightarrow> length ?irbs - ?k \<le> length (filter (\<lambda>y. n \<le> y) ?ys)"
    by (subst sorted_nth_ge_iff) simp_all
  also have "length (filter (\<lambda>y. n \<le> y) ?ys) = length (filter (\<lambda>r. n \<le> implied_irb s pro r) ?irbs)" (is "_ = ?c")
    by (simp add: length_filter_sort filter_map comp_def)
  also have "length ?irbs - ?k \<le> ?c \<longleftrightarrow> 2 * length ?irbs < 3 * ?c"
    by (rule two_thirds) (use assms in simp)
  finally show ?thesis unfolding calc .
qed

section \<open>What an accepted header does\<close>

lemma confirm_loop_spec:
  assumes "n \<le> length cc"
  shows "case confirm_loop bn n m cc of
      (None, cc') \<Rightarrow>
        length cc' = length cc \<and>
        (\<forall>k < length cc. cc' ! k = (if k < n \<and> n - unat m \<le> k then cc ! k - 1 else cc ! k)) \<and>
        (\<forall>k < n. n - unat m \<le> k \<longrightarrow> cc ! k \<noteq> 1)
    | (Some x, cc') \<Rightarrow>
        \<exists>i < n. n - unat m \<le> i \<and> cc ! i = 1 \<and> x = bn - of_nat (length cc - 1 - i) \<and>
          length cc' = length cc - Suc i \<and> (\<forall>k < n. i < k \<longrightarrow> cc ! k \<noteq> 1) \<and>
          (\<forall>k. Suc i + k < length cc \<longrightarrow>
             cc' ! k = (if Suc i + k < n then cc ! (Suc i + k) - 1 else cc ! (Suc i + k)))"
  using assms
proof (induction bn n m cc rule: confirm_loop.induct)
  case (1 bn m cc)
  then show ?case by simp
next
  case (2 bn i m cc)
  show ?case
  proof (cases "m = 0")
    case True
    then show ?thesis by simp
  next
    case m: False
    let ?cc = "cc[i := cc ! i - 1]"
    have um: "unat (m - 1) = unat m - 1" "0 < unat m"
      using m by (simp_all add: unat_minus_one unat_gt_0)
    show ?thesis
    proof (cases "cc ! i = 1")
      case True
      then show ?thesis using m 2(2) um by (auto simp: Let_def intro!: exI [of _ i])
    next
      case False
      then have nz: "?cc ! i \<noteq> 0" using 2(2) by simp
      have IH: "case confirm_loop bn i (m - 1) ?cc of
        (None, cc') \<Rightarrow>
          length cc' = length ?cc \<and>
          (\<forall>k < length ?cc. cc' ! k = (if k < i \<and> i - unat (m - 1) \<le> k then ?cc ! k - 1 else ?cc ! k)) \<and>
          (\<forall>k < i. i - unat (m - 1) \<le> k \<longrightarrow> ?cc ! k \<noteq> 1)
      | (Some x, cc') \<Rightarrow>
          \<exists>j < i. i - unat (m - 1) \<le> j \<and> ?cc ! j = 1 \<and> x = bn - of_nat (length ?cc - 1 - j) \<and>
            length cc' = length ?cc - Suc j \<and> (\<forall>k < i. j < k \<longrightarrow> ?cc ! k \<noteq> 1) \<and>
            (\<forall>k. Suc j + k < length ?cc \<longrightarrow>
               cc' ! k = (if Suc j + k < i then ?cc ! (Suc j + k) - 1 else ?cc ! (Suc j + k)))"
        using 2 m nz by simp
      have lo: "i - unat (m - 1) = Suc i - unat m" using um by simp
      have eq: "confirm_loop bn (Suc i) m cc = confirm_loop bn i (m - 1) ?cc"
        using m nz by (simp add: Let_def)
      obtain r cc' where res: "confirm_loop bn i (m - 1) ?cc = (r, cc')" by force
      show ?thesis
      proof (cases r)
        case None
        show ?thesis
          using IH 2(2) False um(2) unfolding eq res None lo
          by (auto simp: nth_list_update less_Suc_eq)
      next
        case (Some x)
        with IH res obtain j where "j < i" and j: "i - unat (m - 1) \<le> j" "?cc ! j = 1"
          "x = bn - of_nat (length ?cc - 1 - j)" "length cc' = length ?cc - Suc j"
          "\<forall>k < i. j < k \<longrightarrow> ?cc ! k \<noteq> 1"
          "\<forall>k. Suc j + k < length ?cc \<longrightarrow>
             cc' ! k = (if Suc j + k < i then ?cc ! (Suc j + k) - 1 else ?cc ! (Suc j + k))"
          by auto
        then show ?thesis
          using 2(2) False unfolding eq res Some prod.case option.case lo
          by (intro exI [of _ j]) (auto simp: nth_list_update less_Suc_eq)
      qed
    qed
  qed
qed


text \<open>The promotion of a pending schedule, as \<^verbatim>\<open>next\<close> decides it for a header of the producer \<open>pro\<close>.\<close>

definition promotes :: "('k, 's) block_header_state \<Rightarrow> account_name \<Rightarrow> bool" where
  "promotes s pro \<longleftrightarrow> producers (schedule (pending_schedule s)) \<noteq> [] \<and>
     schedule_lib_num (pending_schedule s) \<le> calc_dpos_last_irreversible s pro"

lemma new_schedule_Some:
  "new_schedule_of_header fc pfs p h exts = Inr (Some (sch, hash)) \<Longrightarrow>
     \<not> was_pending_promoted p \<and> producers (schedule (prev_pending_schedule p)) = []"
  by (auto simp: new_schedule_of_header_def check_new_schedule_def Let_def result_simps split: option.splits if_splits)

lemma finish_next_Inr:
  assumes "finish_next fc p h sigs pfs validator skip = Inr s'"
  shows "block_num s' = block_num p"
    "dpos_proposed_irreversible_blocknum s' = dpos_proposed_irreversible_blocknum p"
    "dpos_irreversible_blocknum s' = dpos_irreversible_blocknum p"
    "active_schedule s' = active_schedule p"
    "blockroot_merkle s' = blockroot_merkle p"
    "producer_to_last_produced s' = producer_to_last_produced p"
    "producer_to_last_implied_irb s' = producer_to_last_implied_irb p"
    "valid_block_signing_authority s' = valid_block_signing_authority p"
    "confirm_count s' = confirm_count p"
    "bhs_id s' = calculate_id fc h" "bhs_header s' = h" "additional_signatures s' = sigs"
    "bh_timestamp h = pb_timestamp p" "bh_previous h = pb_previous p" "bh_producer h = pb_producer p"
    "bh_confirmed h = pb_confirmed p"
  using assms
  by (auto simp: finish_next_def finish_next_unchecked_def check_header_matches_def Let_def result_simps split: if_splits)

lemma finish_next_pending:
  assumes "finish_next fc p h sigs pfs validator skip = Inr s'"
    and "producers (schedule (pending_schedule s')) \<noteq> []"
  shows "schedule_lib_num (pending_schedule s') = block_num p \<or>
     (\<not> was_pending_promoted p \<and> pending_schedule s' = prev_pending_schedule p)"
  using assms
  by (auto simp: finish_next_def finish_next_unchecked_def Let_def result_simps empty_schedule_def
      split: if_splits option.splits)

lemma next_pending_Inr:
  assumes "next_pending fc s when n = Inr p"
  obtains proauth pr where
    "next_when s when = Inr (pb_timestamp p)"
    "get_scheduled_producer s (pb_timestamp p) = Inr proauth" "pb_producer p = producer_name proauth"
    "\<And>l. map_of (producer_to_last_produced s) (pb_producer p) = Some l \<Longrightarrow> l < block_num s + 1 - ucast n"
    "append_node (fc_pair_hash fc) (bhs_id s) (blockroot_merkle s) = Some (blockroot_merkle p)"
    "confirm_loop (block_num s + 1)
       (length (grow_confirm_count (confirm_count s) (ucast ((of_nat (length (producers (active_schedule s)) * 2 div 3) :: u32) + 1))))
       (ucast n + 1)
       (grow_confirm_count (confirm_count s) (ucast ((of_nat (length (producers (active_schedule s)) * 2 div 3) :: u32) + 1)))
       = (pr, confirm_count p)"
    "dpos_proposed_irreversible_blocknum p = (case pr of Some n \<Rightarrow> n | None \<Rightarrow> dpos_proposed_irreversible_blocknum s)"
    "block_num p = block_num s + 1" "pb_confirmed p = n" "pb_previous p = bhs_id s"
    "valid_block_signing_authority p = pa_authority proauth"
    "dpos_irreversible_blocknum p = calc_dpos_last_irreversible s (pb_producer p)"
    "was_pending_promoted p = promotes s (pb_producer p)"
    "prev_pending_schedule p = pending_schedule s"
    "prev_activated_protocol_features p = activated_protocol_features s"
    "active_schedule p = (if promotes s (pb_producer p) then schedule (pending_schedule s) else active_schedule s)"
    "producer_to_last_produced p =
       (if promotes s (pb_producer p)
        then promoted_last_produced (pb_producer p) (block_num s + 1) (dpos_irreversible_blocknum p)
               (producer_to_last_produced s) (producers (active_schedule p))
        else idx_put (pb_producer p) (block_num s + 1) (producer_to_last_produced s))"
    "producer_to_last_implied_irb p =
       (if promotes s (pb_producer p)
        then promoted_implied_irb (pb_producer p) (dpos_proposed_irreversible_blocknum s) (dpos_irreversible_blocknum p)
               (producer_to_last_implied_irb s) (producers (active_schedule p))
        else idx_put (pb_producer p) (dpos_proposed_irreversible_blocknum s) (producer_to_last_implied_irb s))"
proof -
  obtain w proauth where w: "next_when s when = Inr w" "get_scheduled_producer s w = Inr proauth"
    using assms by (auto simp: next_pending_def result_simps)
  obtain bm where bm: "append_node (fc_pair_hash fc) (bhs_id s) (blockroot_merkle s) = Some bm"
    using assms w by (auto simp: next_pending_def Let_def result_simps split: option.splits)
  let ?cc = "grow_confirm_count (confirm_count s) (ucast ((of_nat (length (producers (active_schedule s)) * 2 div 3) :: u32) + 1))"
  obtain pr cc where cl: "confirm_loop (block_num s + 1) (length ?cc) (ucast n + 1) ?cc = (pr, cc)" by force
  show ?thesis
    by (rule that [of proauth pr])
      (use assms w bm cl in \<open>auto simp: next_pending_def Let_def result_simps promotes_def split: option.splits\<close>)
qed

section \<open>Confirmations along a chain\<close>

lemma confirm_loop_window:
  assumes "confirm_loop bn (length cc) m cc = (r, cc')" and nz: "\<forall>j < length cc. cc ! (length cc - Suc j) \<noteq> 0"
  shows "length cc' \<le> length cc"
    and "j < length cc' \<Longrightarrow>
      cc' ! (length cc' - Suc j) = cc ! (length cc - Suc j) - (if j < unat m then 1 else 0) \<and>
      (cc' ! (length cc' - Suc j) \<noteq> 0)"
    and "r = None \<Longrightarrow> length cc' = length cc"
    and "r = Some x \<Longrightarrow> x = bn - of_nat (length cc') \<and> length cc' < length cc \<and> length cc' < unat m \<and>
      cc ! (length cc - Suc (length cc')) = 1"
proof -
  note spec = confirm_loop_spec [where n = "length cc" and cc = cc and bn = bn and m = m, unfolded assms(1), simplified]
  have "length cc' \<le> length cc \<and>
    (\<forall>j < length cc'. cc' ! (length cc' - Suc j) = cc ! (length cc - Suc j) - (if j < unat m then 1 else 0) \<and>
       (cc' ! (length cc' - Suc j) \<noteq> 0)) \<and> (r = None \<longrightarrow> length cc' = length cc) \<and>
    (\<forall>x. r = Some x \<longrightarrow> x = bn - of_nat (length cc') \<and> length cc' < length cc \<and> length cc' < unat m \<and>
       cc ! (length cc - Suc (length cc')) = 1)"
  proof (cases r)
    case None
    have c: "cc' ! (length cc - Suc j) = cc ! (length cc - Suc j) - (if j < unat m then 1 else 0) \<and>
        (cc' ! (length cc - Suc j) \<noteq> 0)" if "j < length cc" for j
    proof -
      have "length cc - unat m \<le> length cc - Suc j \<longleftrightarrow> j < unat m" using that by linarith
      with spec nz that None show ?thesis by simp
    qed
    have l: "length cc' = length cc" using spec None by simp
    show ?thesis using c unfolding l None by blast
  next
    case (Some x)
    with spec obtain i where "i < length cc" and i: "length cc - unat m \<le> i" "cc ! i = 1"
      "x = bn - of_nat (length cc - 1 - i)" "length cc' = length cc - Suc i" "\<forall>k < length cc. i < k \<longrightarrow> cc ! k \<noteq> 1"
      "\<forall>k. Suc (i + k) < length cc \<longrightarrow> cc' ! k = cc ! Suc (i + k) - 1"
      by auto
    have c: "cc' ! (length cc' - Suc j) = cc ! (length cc - Suc j) - (if j < unat m then 1 else 0) \<and>
        (cc' ! (length cc' - Suc j) \<noteq> 0)" if "j < length cc'" for j
    proof -
      have "Suc (i + (length cc' - Suc j)) = length cc - Suc j" "j < unat m" "i < length cc - Suc j"
        using that i(1,4) \<open>i < length cc\<close> by linarith+
      with i(5,6) show ?thesis by (simp add: that)
    qed
    have "length cc' < unat m" "i = length cc - Suc (length cc')" "length cc - 1 - i = length cc'" "length cc' < length cc"
      using i(1,4) \<open>i < length cc\<close> by linarith+
    then have e: "x = bn - of_nat (length cc') \<and> length cc' < length cc \<and> length cc' < unat m \<and>
        cc ! (length cc - Suc (length cc')) = 1"
      using i(2,3) by simp
    show ?thesis
      unfolding Some using c e less_imp_le [of "length cc'" "length cc"] by blast
  qed
  then show "length cc' \<le> length cc"
    "j < length cc' \<Longrightarrow> cc' ! (length cc' - Suc j) = cc ! (length cc - Suc j) - (if j < unat m then 1 else 0) \<and>
      (cc' ! (length cc' - Suc j) \<noteq> 0)"
    "r = None \<Longrightarrow> length cc' = length cc"
    "r = Some x \<Longrightarrow> x = bn - of_nat (length cc') \<and> length cc' < length cc \<and> length cc' < unat m \<and>
      cc ! (length cc - Suc (length cc')) = 1"
    by blast+
qed

lemma grow_confirm_count_nth:
  assumes "j < length (grow_confirm_count cc r)"
  shows "grow_confirm_count cc r ! (length (grow_confirm_count cc r) - Suc j) =
      (case j of 0 \<Rightarrow> r | Suc j' \<Rightarrow> cc ! (length cc - Suc j'))"
    and "j \<le> length cc"
  using assms
  by (auto simp: grow_confirm_count_def nth_append nth_tl Suc_diff_Suc maximum_tracked_dpos_confirmations_def split: nat.splits if_splits)

text \<open>
  The blocks of a chain as the confirmations see them: the number of the block, its producer, the number of previous
  blocks it confirms and the size of the schedule it is built under.
\<close>

record dpos_block =
  db_num :: nat
  db_producer :: account_name
  db_confirmed :: nat
  db_producers :: nat

definition db_confirms :: "dpos_block \<Rightarrow> nat \<Rightarrow> bool" where
  "db_confirms d b \<longleftrightarrow> b \<le> db_num d \<and> db_num d \<le> b + db_confirmed d"

text \<open>The chains of headers that \<^verbatim>\<open>block_header_state::next\<close> accepts, from a state on.\<close>

inductive dpos_run :: "('k, 's) fc_lib \<Rightarrow> protocol_feature_set \<Rightarrow>
    (block_timestamp_type \<Rightarrow> digest_type set \<Rightarrow> digest_type list \<Rightarrow> (chain_exception, unit) result) \<Rightarrow>
    ('k, 's) block_header_state \<Rightarrow> dpos_block list \<Rightarrow> ('k, 's) block_header_state \<Rightarrow> bool"
  for fc pfs validator s0 where
  start: "dpos_run fc pfs validator s0 [] s0"
| accept: "dpos_run fc pfs validator s0 hist s \<Longrightarrow> next_header fc s h sigs pfs validator skip = Inr s' \<Longrightarrow>
    dpos_run fc pfs validator s0
      (hist @ [\<lparr>db_num = unat (block_num s'), db_producer = bh_producer h, db_confirmed = unat (bh_confirmed h),
                db_producers = length (producers (active_schedule s))\<rparr>]) s'"

definition required_confirmations :: "nat \<Rightarrow> nat" where
  "required_confirmations n = n * 2 div 3 + 1"

lemma required_confirmations_word:
  assumes "n \<le> 125"
  shows "unat (ucast ((of_nat (n * 2 div 3) :: u32) + 1) :: u8) = required_confirmations n"
proof -
  have "n * 2 div 3 \<le> 83" using assms by linarith
  then show ?thesis
    by (simp add: required_confirmations_def unat_plus_exact unat_of_nat take_bit_nat_eq_self unsigned_ucast_eq)
qed


text \<open>
  What the confirmation counts mean: the count \<open>j\<close> places from the back belongs to the block \<open>j\<close> before the head, and is
  what this block still misses of its required confirmations.
\<close>

definition confirmations :: "dpos_block list \<Rightarrow> nat \<Rightarrow> nat" where
  "confirmations hist b = length (filter (\<lambda>d. db_confirms d b) hist)"

definition window_ok :: "dpos_block list \<Rightarrow> nat \<Rightarrow> u8 list \<Rightarrow> bool" where
  "window_ok hist bn cc \<longleftrightarrow> length cc \<le> bn \<and>
     (\<forall>j < length cc. cc ! (length cc - Suc j) \<noteq> 0 \<and>
        (\<exists>d \<in> set hist. db_num d = bn - j \<and>
           unat (cc ! (length cc - Suc j)) + confirmations hist (bn - j) = required_confirmations (db_producers d)))"

lemma window_step:
  assumes win: "window_ok hist bn cc" and below: "\<forall>d \<in> set hist. db_num d \<le> bn"
    and d: "db_num d = Suc bn" "db_producers d = n" "db_confirmed d = unat c" "n \<le> 125"
    and loop: "confirm_loop w (length cc1) (ucast (c :: u16) + 1) cc1 = (r, cc')"
    and cc1: "cc1 = grow_confirm_count cc (ucast ((of_nat (n * 2 div 3) :: u32) + 1))"
  shows "window_ok (hist @ [d]) (Suc bn) cc'"
    and "r = Some x \<Longrightarrow> x = w - of_nat (length cc') \<and> length cc' \<le> length cc \<and>
      (\<exists>e \<in> set (hist @ [d]). db_num e = Suc bn - length cc' \<and>
         confirmations (hist @ [d]) (Suc bn - length cc') = required_confirmations (db_producers e))"
    and "r = None \<Longrightarrow> length cc' \<le> Suc (length cc)"
proof -
  have m: "unat (ucast c + 1 :: u32) = Suc (unat c)"
    using unsigned_less [of c, where ?'a = nat] by (subst unat_plus_exact) (simp_all add: unat_ucast_up)
  have r: "unat (ucast ((of_nat (n * 2 div 3) :: u32) + 1) :: u8) = required_confirmations n"
    by (rule required_confirmations_word) fact
  have old: "\<exists>e \<in> set (hist @ [d]). db_num e = Suc bn - j \<and> cc1 ! (length cc1 - Suc j) \<noteq> 0 \<and>
      unat (cc1 ! (length cc1 - Suc j)) + confirmations hist (Suc bn - j) = required_confirmations (db_producers e)"
    if "j < length cc1" for j
  proof (cases j)
    case 0
    have "unat (cc1 ! (length cc1 - Suc j)) = required_confirmations n"
      using grow_confirm_count_nth(1) that r unfolding cc1 0 by simp
    moreover have "confirmations hist (Suc bn) = 0"
      using below by (force simp: confirmations_def filter_empty_conv db_confirms_def)
    ultimately show ?thesis
      using d 0 by (auto simp: required_confirmations_def)
  next
    case (Suc i)
    with that have "i < length cc" "cc1 ! (length cc1 - Suc j) = cc ! (length cc - Suc i)"
      using grow_confirm_count_nth [OF that [unfolded cc1]] unfolding cc1 by simp_all
    with win Suc show ?thesis by (fastforce simp: window_ok_def)
  qed
  have nz: "\<forall>j < length cc1. cc1 ! (length cc1 - Suc j) \<noteq> 0" using old by blast
  note w = confirm_loop_window [OF loop nz]
  have len: "length cc1 \<le> Suc bn" "length cc1 \<le> Suc (length cc)"
    using win by (auto simp: cc1 grow_confirm_count_def window_ok_def)
  have conf: "db_confirms d (Suc bn - j) \<longleftrightarrow> j < Suc (unat c)" if "j < length cc1" for j
    using that len d(1,3) by (auto simp: db_confirms_def)
  have snoc: "confirmations (hist @ [d]) b = confirmations hist b + (if db_confirms d b then 1 else 0)" for b
    by (simp add: confirmations_def)
  have "cc' ! (length cc' - Suc j) \<noteq> 0 \<and> (\<exists>e \<in> set (hist @ [d]). db_num e = Suc bn - j \<and>
      unat (cc' ! (length cc' - Suc j)) + confirmations (hist @ [d]) (Suc bn - j) = required_confirmations (db_producers e))"
    if "j < length cc'" for j
  proof -
    from that w(1) have j: "j < length cc1" by simp
    from old [OF j] obtain e where e: "e \<in> set (hist @ [d])" "db_num e = Suc bn - j"
      "cc1 ! (length cc1 - Suc j) \<noteq> 0"
      "unat (cc1 ! (length cc1 - Suc j)) + confirmations hist (Suc bn - j) = required_confirmations (db_producers e)"
      by blast
    have "unat (cc' ! (length cc' - Suc j)) + (if j < Suc (unat c) then 1 else 0) = unat (cc1 ! (length cc1 - Suc j))"
      using w(2) [OF that] e(3) m by (auto simp: unat_minus_one unat_gt_0 Suc_leI)
    with e w(2) [OF that] conf [OF j] show ?thesis unfolding snoc
      by (intro conjI bexI [of _ e]) auto
  qed
  with w(1) len show "window_ok (hist @ [d]) (Suc bn) cc'" by (auto simp: window_ok_def)
  show "r = Some x \<Longrightarrow> x = w - of_nat (length cc') \<and> length cc' \<le> length cc \<and>
      (\<exists>e \<in> set (hist @ [d]). db_num e = Suc bn - length cc' \<and>
         confirmations (hist @ [d]) (Suc bn - length cc') = required_confirmations (db_producers e))"
  proof -
    assume "r = Some x"
    note s = w(4) [OF this]
    from s old [of "length cc'"] obtain e where "e \<in> set (hist @ [d])" "db_num e = Suc bn - length cc'"
      "Suc (confirmations hist (Suc bn - length cc')) = required_confirmations (db_producers e)"
      by auto
    moreover have "db_confirms d (Suc bn - length cc')" using conf [of "length cc'"] s m by simp
    ultimately show ?thesis unfolding snoc using s len by auto
  qed
  show "r = None \<Longrightarrow> length cc' \<le> Suc (length cc)" using w(3) len by simp
qed

lemma fold_idx_put:
  assumes "idx_ok m"
  shows "idx_ok (fold (\<lambda>p m. idx_put (f p) (g (f p)) m) ps m) \<and>
    map_of (fold (\<lambda>p m. idx_put (f p) (g (f p)) m) ps m) k = (if k \<in> f ` set ps then Some (g k) else map_of m k)"
  using assms by (induction ps arbitrary: m) (auto simp: idx_ok_put map_of_idx_put)

lemma promoted_last_produced_spec:
  "idx_ok (promoted_last_produced pro bn lib old ps)"
  "map_of (promoted_last_produced pro bn lib old ps) k =
     (if k = pro then Some bn
      else if k \<in> producer_name ` set ps then Some (case map_of old k of Some n \<Rightarrow> n | None \<Rightarrow> lib) else None)"
  using fold_idx_put [where f = producer_name and ps = ps and m = "[]" and k = k and
    g = "\<lambda>k. if k = pro then bn else case map_of old k of Some n \<Rightarrow> n | None \<Rightarrow> lib"]
  by (auto simp: promoted_last_produced_def idx_ok_put map_of_idx_put)

lemma promoted_implied_irb_spec:
  "idx_ok (promoted_implied_irb pro proposed lib old ps)"
  "map_of (promoted_implied_irb pro proposed lib old ps) k =
     (if k \<in> producer_name ` set ps
      then Some (if k = pro then proposed else case map_of old k of Some n \<Rightarrow> n | None \<Rightarrow> lib) else None)"
  using fold_idx_put [where f = producer_name and ps = ps and m = "[]" and k = k and
    g = "\<lambda>k. if k = pro then proposed else case map_of old k of Some n \<Rightarrow> n | None \<Rightarrow> lib"]
  by (auto simp: promoted_implied_irb_def)

text \<open>
  Every block of the chain is covered by the last block its producer is known to have produced. A producer that is not
  tracked is not active, and its blocks are older than a pending schedule, which may bring it back.
\<close>

definition producers_ok :: "dpos_block list \<Rightarrow> ('k, 's) block_header_state \<Rightarrow> bool" where
  "producers_ok hist s \<longleftrightarrow> idx_ok (producer_to_last_produced s) \<and>
     (\<forall>d \<in> set hist.
        db_num d \<le> unat (block_num s) \<and>
        (case map_of (producer_to_last_produced s) (db_producer d) of
           Some l \<Rightarrow> db_num d \<le> unat l
         | None \<Rightarrow> db_producer d \<notin> producer_name ` set (producers (active_schedule s)) \<and>
             (producers (schedule (pending_schedule s)) \<noteq> [] \<longrightarrow> db_num d < unat (schedule_lib_num (pending_schedule s))))) \<and>
     sorted_wrt (\<lambda>d e. db_producer d = db_producer e \<longrightarrow> db_num d < db_num e - db_confirmed e) hist"

lemma get_scheduled_producer_in: "get_scheduled_producer s t = Inr p \<Longrightarrow> p \<in> set (producers (active_schedule s))"
proof -
  assume a: "get_scheduled_producer s t = Inr p"
  let ?ps = "producers (active_schedule s)"
  have ne: "?ps \<noteq> []" and p: "p = ?ps ! (unat t mod (length ?ps * producer_repetitions) div producer_repetitions)"
    using a by (auto simp: get_scheduled_producer_def Let_def split: if_splits)
  have "unat t mod (length ?ps * producer_repetitions) div producer_repetitions < length ?ps"
    using ne by (intro less_mult_imp_div_less) (simp add: producer_repetitions_def)
  with p show ?thesis by simp
qed

lemma producers_step:
  assumes ok: "producers_ok hist s" and step: "next_header fc s h sigs pfs validator skip = Inr s'"
    and nowrap: "unat (block_num s) + 1 < 2 ^ 32"
    and d: "db_num d = unat (block_num s')" "db_producer d = bh_producer h" "db_confirmed d = unat (bh_confirmed h)"
    and conf: "db_confirmed d \<le> db_num d"
  shows "producers_ok (hist @ [d]) s'"
proof -
  obtain p where np: "next_pending fc s (bh_timestamp h) (bh_confirmed h) = Inr p"
    and fin: "finish_next fc p h sigs pfs validator skip = Inr s'"
    using step by (auto simp: next_header_def result_simps)
  note f = finish_next_Inr [OF fin]
  obtain proauth where pro: "get_scheduled_producer s (pb_timestamp p) = Inr proauth" "pb_producer p = producer_name proauth"
    and dc: "\<And>l. map_of (producer_to_last_produced s) (pb_producer p) = Some l \<Longrightarrow> l < block_num s + 1 - ucast (bh_confirmed h)"
    and bn: "block_num p = block_num s + 1"
    and lib: "dpos_irreversible_blocknum p = calc_dpos_last_irreversible s (pb_producer p)"
    and prom: "was_pending_promoted p = promotes s (pb_producer p)" "prev_pending_schedule p = pending_schedule s"
    and act: "active_schedule p = (if promotes s (pb_producer p) then schedule (pending_schedule s) else active_schedule s)"
    and last: "producer_to_last_produced p =
       (if promotes s (pb_producer p)
        then promoted_last_produced (pb_producer p) (block_num s + 1) (dpos_irreversible_blocknum p)
               (producer_to_last_produced s) (producers (active_schedule p))
        else idx_put (pb_producer p) (block_num s + 1) (producer_to_last_produced s))"
    by (rule next_pending_Inr [OF np]) blast
  have ubn: "unat (block_num s + 1) = unat (block_num s) + 1" using nowrap by (simp add: unat_plus_exact)
  let ?last = "producer_to_last_produced s" and ?last' = "producer_to_last_produced s'"
  have idx: "idx_ok ?last" "idx_ok ?last'"
    using ok unfolding f last producers_ok_def by (simp_all add: promoted_last_produced_spec idx_ok_put)
  have pro_in: "pb_producer p \<in> producer_name ` set (producers (active_schedule s))"
    using get_scheduled_producer_in [OF pro(1)] pro(2) by simp
  have num: "db_num d = unat (block_num s) + 1" "db_producer d = pb_producer p" using d f bn ubn by simp_all
  have old: "db_num e \<le> unat (block_num s)"
    "case map_of ?last (db_producer e) of
       Some l \<Rightarrow> db_num e \<le> unat l
     | None \<Rightarrow> db_producer e \<notin> producer_name ` set (producers (active_schedule s)) \<and>
         (producers (schedule (pending_schedule s)) \<noteq> [] \<longrightarrow> db_num e < unat (schedule_lib_num (pending_schedule s)))"
    if "e \<in> set hist" for e
    using ok that by (auto simp: producers_ok_def)
  have pending: "db_num e < unat (schedule_lib_num (pending_schedule s'))"
    if "producers (schedule (pending_schedule s')) \<noteq> []" "e \<in> set hist"
      "promotes s (pb_producer p) \<or> map_of ?last (db_producer e) = None" for e
    using finish_next_pending [OF fin that(1)] old [OF that(2)] that(1,3) prom bn ubn by auto
  have keep: "case map_of ?last' (db_producer e) of
       Some l \<Rightarrow> db_num e \<le> unat l
     | None \<Rightarrow> db_producer e \<notin> producer_name ` set (producers (active_schedule s')) \<and>
         (producers (schedule (pending_schedule s')) \<noteq> [] \<longrightarrow> db_num e < unat (schedule_lib_num (pending_schedule s')))"
    if e: "e \<in> set hist" for e
  proof (cases "promotes s (pb_producer p)")
    case True
    then have l: "producers (schedule (pending_schedule s)) \<noteq> []"
      "unat (schedule_lib_num (pending_schedule s)) \<le> unat (calc_dpos_last_irreversible s (pb_producer p))"
      by (simp_all add: promotes_def word_le_nat_alt)
    show ?thesis
      using True old [OF e] pending [OF _ e] l ubn unfolding f last act lib
      by (auto simp: promoted_last_produced_spec split: option.splits)
  next
    case False
    then show ?thesis
      using old [OF e] pending [OF _ e] ubn pro_in idx(1) unfolding f last act
      by (auto simp: map_of_idx_put split: option.splits)
  qed
  have new: "map_of ?last' (pb_producer p) = Some (block_num s + 1)"
    using idx(1) unfolding f last by (simp add: promoted_last_produced_spec map_of_idx_put)
  have "db_num e < db_num d - db_confirmed d" if e: "e \<in> set hist" "db_producer e = db_producer d" for e
  proof -
    obtain l where l: "map_of ?last (pb_producer p) = Some l" "db_num e \<le> unat l"
      using old(2) [OF e(1)] e(2) num pro_in by (auto split: option.splits)
    have "unat (block_num s + 1 - ucast (bh_confirmed h)) = db_num d - db_confirmed d"
      using conf num d(3) ubn by (subst unat_sub) (simp_all add: word_le_nat_alt unat_ucast_up)
    with dc [OF l(1)] l(2) show ?thesis by (simp add: word_less_nat_alt)
  qed
  with ok keep new num old(1) idx(2) f(1) bn ubn show ?thesis
    by (auto simp: producers_ok_def sorted_wrt_append le_SucI)
qed

lemma confirmations_card:
  assumes "sorted_wrt (\<lambda>d e. db_producer d = db_producer e \<longrightarrow> db_num d < db_num e - db_confirmed e) hist"
  shows "confirmations hist b = card (db_producer ` {d \<in> set hist. db_confirms d b})"
proof -
  have "distinct (map db_producer (filter (\<lambda>d. db_confirms d b) hist))"
    using assms by (induction hist) (auto simp: db_confirms_def)
  then have "card (set (map db_producer (filter (\<lambda>d. db_confirms d b) hist))) = confirmations hist b"
    by (simp only: distinct_card length_map confirmations_def)
  then show ?thesis by simp
qed

lemma next_header_cases:
  assumes "next_header fc s h sigs pfs validator skip = Inr s'"
  obtains p where "next_pending fc s (bh_timestamp h) (bh_confirmed h) = Inr p"
    "finish_next fc p h sigs pfs validator skip = Inr s'"
  using assms by (auto simp: next_header_def result_simps)

lemma next_header_confirm:
  assumes "next_header fc s h sigs pfs validator skip = Inr s'"
  obtains r where
    "confirm_loop (block_num s + 1)
       (length (grow_confirm_count (confirm_count s) (ucast ((of_nat (length (producers (active_schedule s)) * 2 div 3) :: u32) + 1))))
       (ucast (bh_confirmed h) + 1)
       (grow_confirm_count (confirm_count s) (ucast ((of_nat (length (producers (active_schedule s)) * 2 div 3) :: u32) + 1)))
       = (r, confirm_count s')"
    "dpos_proposed_irreversible_blocknum s' = (case r of Some n \<Rightarrow> n | None \<Rightarrow> dpos_proposed_irreversible_blocknum s)"
    "block_num s' = block_num s + 1"
proof -
  from assms obtain p where p: "next_pending fc s (bh_timestamp h) (bh_confirmed h) = Inr p"
    "finish_next fc p h sigs pfs validator skip = Inr s'"
    by (rule next_header_cases)
  note f = finish_next_Inr [OF p(2)]
  obtain r where "confirm_loop (block_num s + 1)
       (length (grow_confirm_count (confirm_count s) (ucast ((of_nat (length (producers (active_schedule s)) * 2 div 3) :: u32) + 1))))
       (ucast (bh_confirmed h) + 1)
       (grow_confirm_count (confirm_count s) (ucast ((of_nat (length (producers (active_schedule s)) * 2 div 3) :: u32) + 1)))
       = (r, confirm_count p)"
    "dpos_proposed_irreversible_blocknum p = (case r of Some n \<Rightarrow> n | None \<Rightarrow> dpos_proposed_irreversible_blocknum s)"
    "block_num p = block_num s + 1"
    by (rule next_pending_Inr [OF p(1)]) blast
  then show ?thesis by (intro that [of r]) (simp_all only: f)
qed

lemma producers_run:
  assumes "dpos_run fc pfs validator s0 hist s" "idx_ok (producer_to_last_produced s0)"
    "unat (block_num s0) + length hist < 2 ^ 32" "\<forall>d \<in> set hist. db_confirmed d \<le> db_num d"
  shows "producers_ok hist s \<and> unat (block_num s) = unat (block_num s0) + length hist"
  using assms
proof (induction rule: dpos_run.induct)
  case start
  then show ?case by (simp add: producers_ok_def)
next
  case (accept hist s h sigs skip s')
  then have IH: "producers_ok hist s" "unat (block_num s) = unat (block_num s0) + length hist" by simp_all
  have "block_num s' = block_num s + 1" using accept(2) by (rule next_header_confirm)
  with IH(2) accept.prems(2) have "unat (block_num s') = unat (block_num s0) + length hist + 1"
    by (simp add: unat_plus_exact)
  moreover have "producers_ok (hist @ [\<lparr>db_num = unat (block_num s'), db_producer = bh_producer h,
      db_confirmed = unat (bh_confirmed h), db_producers = length (producers (active_schedule s))\<rparr>]) s'"
    using accept.prems IH by (intro producers_step [OF IH(1) accept(2)]) simp_all
  ultimately show ?case by simp
qed

text \<open>The proposed irreversible block has the confirmations it requires.\<close>

definition proposed_ok :: "('k, 's) block_header_state \<Rightarrow> dpos_block list \<Rightarrow> ('k, 's) block_header_state \<Rightarrow> bool" where
  "proposed_ok s0 hist s \<longleftrightarrow>
     dpos_proposed_irreversible_blocknum s = dpos_proposed_irreversible_blocknum s0 \<or>
     (\<exists>d \<in> set hist. db_num d = unat (dpos_proposed_irreversible_blocknum s) \<and>
        required_confirmations (db_producers d) \<le> confirmations hist (unat (dpos_proposed_irreversible_blocknum s)))"

lemma confirmations_run:
  assumes "dpos_run fc pfs validator s0 hist s" "idx_ok (producer_to_last_produced s0)" "confirm_count s0 = []"
    "dpos_proposed_irreversible_blocknum s0 \<le> block_num s0"
    "unat (block_num s0) + length hist < 2 ^ 32"
    "\<forall>d \<in> set hist. db_confirmed d \<le> db_num d \<and> db_producers d \<le> 125"
  shows "window_ok hist (unat (block_num s)) (confirm_count s) \<and> proposed_ok s0 hist s \<and>
    unat (dpos_proposed_irreversible_blocknum s) + length (confirm_count s) \<le> unat (block_num s) \<and>
    dpos_proposed_irreversible_blocknum s0 \<le> dpos_proposed_irreversible_blocknum s"
  using assms
proof (induction rule: dpos_run.induct)
  case start
  then show ?case by (simp add: window_ok_def proposed_ok_def word_le_nat_alt)
next
  case (accept hist s h sigs skip s')
  define d where "d = \<lparr>db_num = unat (block_num s'), db_producer = bh_producer h, db_confirmed = unat (bh_confirmed h),
    db_producers = length (producers (active_schedule s))\<rparr>"
  from accept have IH: "window_ok hist (unat (block_num s)) (confirm_count s)" "proposed_ok s0 hist s"
    "unat (dpos_proposed_irreversible_blocknum s) + length (confirm_count s) \<le> unat (block_num s)"
    "dpos_proposed_irreversible_blocknum s0 \<le> dpos_proposed_irreversible_blocknum s"
    by simp_all
  have pr: "producers_ok hist s" "unat (block_num s) = unat (block_num s0) + length hist"
    using producers_run [OF accept(1)] accept.prems by simp_all
  obtain r where r: "confirm_loop (block_num s + 1)
       (length (grow_confirm_count (confirm_count s) (ucast ((of_nat (length (producers (active_schedule s)) * 2 div 3) :: u32) + 1))))
       (ucast (bh_confirmed h) + 1)
       (grow_confirm_count (confirm_count s) (ucast ((of_nat (length (producers (active_schedule s)) * 2 div 3) :: u32) + 1)))
       = (r, confirm_count s')"
    "dpos_proposed_irreversible_blocknum s' = (case r of Some n \<Rightarrow> n | None \<Rightarrow> dpos_proposed_irreversible_blocknum s)"
    and bn: "block_num s' = block_num s + 1"
    using accept(2) by (rule next_header_confirm)
  have ubn: "unat (block_num s') = Suc (unat (block_num s))"
    using pr(2) accept.prems(4) bn by (simp add: unat_plus_exact)
  have below: "\<forall>d \<in> set hist. db_num d \<le> unat (block_num s)" using pr(1) by (simp add: producers_ok_def)
  have d_sel: "db_num d = Suc (unat (block_num s))" "db_producers d = length (producers (active_schedule s))"
    "db_confirmed d = unat (bh_confirmed h)" "length (producers (active_schedule s)) \<le> 125"
    using ubn accept.prems(5) by (simp_all add: d_def)
  note w = window_step [OF IH(1) below d_sel r(1) refl]
  have win: "window_ok (hist @ [d]) (unat (block_num s')) (confirm_count s')" unfolding ubn by (rule w(1))
  have "proposed_ok s0 (hist @ [d]) s' \<and>
      unat (dpos_proposed_irreversible_blocknum s') + length (confirm_count s') \<le> unat (block_num s') \<and>
      dpos_proposed_irreversible_blocknum s \<le> dpos_proposed_irreversible_blocknum s'"
  proof (cases r)
    case None
    then have eq: "dpos_proposed_irreversible_blocknum s' = dpos_proposed_irreversible_blocknum s" using r(2) by simp
    have mono: "confirmations hist b \<le> confirmations (hist @ [d]) b" for b by (simp add: confirmations_def)
    have "proposed_ok s0 (hist @ [d]) s'"
      using IH(2) order_trans [OF _ mono] unfolding proposed_ok_def eq by auto
    with w(3) [OF None] IH(3) ubn eq show ?thesis by simp
  next
    case (Some x)
    then have eq: "dpos_proposed_irreversible_blocknum s' = x" using r(2) by simp
    note s = w(2) [OF Some]
    have len: "length (confirm_count s') \<le> length (confirm_count s)" using s by simp
    have "unat (of_nat (length (confirm_count s')) :: u32) = length (confirm_count s')"
      using len IH(3) unat_lt_32 [of "block_num s"] by (simp add: unat_of_nat take_bit_nat_eq_self)
    then have x: "unat x = Suc (unat (block_num s)) - length (confirm_count s')"
      using s len IH(3) ubn bn by (simp add: unat_sub word_le_nat_alt)
    have "proposed_ok s0 (hist @ [d]) s'"
      using s unfolding proposed_ok_def eq x by auto
    moreover have "unat (dpos_proposed_irreversible_blocknum s) \<le> unat x" "length (confirm_count s') \<le> Suc (unat (block_num s))"
      using x len IH(3) by linarith+
    ultimately show ?thesis using x ubn unfolding eq word_le_nat_alt by simp
  qed
  with win IH(4) have "window_ok (hist @ [d]) (unat (block_num s')) (confirm_count s') \<and> proposed_ok s0 (hist @ [d]) s' \<and>
      unat (dpos_proposed_irreversible_blocknum s') + length (confirm_count s') \<le> unat (block_num s') \<and>
      dpos_proposed_irreversible_blocknum s0 \<le> dpos_proposed_irreversible_blocknum s'"
    using order_trans by blast
  then show ?case unfolding d_def .
qed

section \<open>Concrete chains\<close>

text \<open>
  A chain of three producers to instantiate the theorems, from a state at block 1. The producers \<open>1\<close>, \<open>2\<close> and \<open>3\<close>
  produce in turns of twelve slots.
\<close>

definition sample_producer :: "u64 \<Rightarrow> nat producer_authority" where
  "sample_producer n = \<lparr>producer_name = n, pa_authority = single_key_authority (unat n)\<rparr>"

definition sample_state :: "(nat, nat) block_header_state" where
  "sample_state = \<lparr>block_num = 1, dpos_proposed_irreversible_blocknum = 0, dpos_irreversible_blocknum = 0,
     active_schedule = \<lparr>version = 1, producers = map sample_producer [1, 2, 3]\<rparr>,
     blockroot_merkle = \<lparr>node_count = 0, active_nodes = []\<rparr>,
     producer_to_last_produced = [], producer_to_last_implied_irb = [],
     valid_block_signing_authority = single_key_authority 1, confirm_count = [],
     bhs_id = digest_of 1, bhs_header = sample_header 35 1 0 (digest_of 0),
     pending_schedule = \<lparr>schedule_lib_num = 0, schedule_hash = digest_of 0, schedule = empty_schedule\<rparr>,
     activated_protocol_features = {}, additional_signatures = [], header_exts = []\<rparr>"

text \<open>The state after blocks given by slot, producer and number of confirmed blocks, each signed by its producer.\<close>

primrec sample_chain :: "(u32 \<times> u64 \<times> u16) list \<Rightarrow> (nat, nat) block_header_state \<Rightarrow> (chain_exception, (nat, nat) block_header_state) result" where
  "sample_chain [] s = Inr s"
| "sample_chain (b # bs) s =
     rbind (next_header sample_fc s (sample_header (fst b) (fst (snd b)) (snd (snd b)) (bhs_id s)) [] empty_feature_set
       (\<lambda>_ _ _. Inr ()) False) (sample_chain bs)"

definition sample_turns :: "(u32 \<times> u64 \<times> u16) list" where
  "sample_turns = [(36, 1, 0), (48, 2, 1), (60, 3, 2)]"

definition sample_wrap :: "(u32 \<times> u64 \<times> u16) list" where
  "sample_wrap = [(36, 1, 9), (37, 1, 9), (38, 1, 9)]"

primrec sample_history :: "(u32 \<times> u64 \<times> u16) list \<Rightarrow> (nat, nat) block_header_state \<Rightarrow> dpos_block list" where
  "sample_history [] s = []"
| "sample_history (b # bs) s =
     (case sample_chain [b] s of
        Inl _ \<Rightarrow> []
      | Inr s' \<Rightarrow>
          \<lparr>db_num = unat (block_num s'), db_producer = fst (snd b), db_confirmed = unat (snd (snd b)),
           db_producers = length (producers (active_schedule s))\<rparr> # sample_history bs s')"

lemma sample_run:
  "dpos_run sample_fc empty_feature_set (\<lambda>_ _ _. Inr ()) s0 hist s \<Longrightarrow> sample_chain bs s = Inr s' \<Longrightarrow>
     dpos_run sample_fc empty_feature_set (\<lambda>_ _ _. Inr ()) s0 (hist @ sample_history bs s) s'"
proof (induction bs arbitrary: hist s)
  case (Cons b bs)
  let ?h = "sample_header (fst b) (fst (snd b)) (snd (snd b)) (bhs_id s)"
  from Cons.prems(2) obtain s1 where s1: "next_header sample_fc s ?h [] empty_feature_set (\<lambda>_ _ _. Inr ()) False = Inr s1"
    "sample_chain bs s1 = Inr s'"
    by (auto simp: result_simps)
  from Cons.IH [OF dpos_run.accept [OF Cons.prems(1) s1(1)] s1(2)] s1(1) show ?case
    by (simp add: sample_header_def result_simps)
qed simp

lemma sample_turns_run:
  obtains s where "dpos_run sample_fc empty_feature_set (\<lambda>_ _ _. Inr ()) sample_state (sample_history sample_turns sample_state) s"
    "dpos_proposed_irreversible_blocknum s = 2"
proof -
  have "case sample_chain sample_turns sample_state of Inl _ \<Rightarrow> False | Inr s \<Rightarrow> dpos_proposed_irreversible_blocknum s = 2"
    by code_simp
  then obtain s where s: "sample_chain sample_turns sample_state = Inr s" "dpos_proposed_irreversible_blocknum s = 2"
    by (auto split: sum.splits)
  show ?thesis using sample_run [OF dpos_run.start s(1)] s(2) by (intro that [of s]) simp_all
qed

lemma sample_turns_history:
  "sample_history sample_turns sample_state =
     [\<lparr>db_num = 2, db_producer = 1, db_confirmed = 0, db_producers = 3\<rparr>,
      \<lparr>db_num = 3, db_producer = 2, db_confirmed = 1, db_producers = 3\<rparr>,
      \<lparr>db_num = 4, db_producer = 3, db_confirmed = 2, db_producers = 3\<rparr>]"
  by code_simp

lemma sample_turns_facts:
  "idx_ok (producer_to_last_produced sample_state)" "confirm_count sample_state = []"
  "dpos_proposed_irreversible_blocknum sample_state = 0" "unat (block_num sample_state) = 1"
  "length (sample_history sample_turns sample_state) = 3"
  "\<forall>d \<in> set (sample_history sample_turns sample_state). db_confirmed d \<le> db_num d \<and> db_producers d \<le> 125"
  by (simp_all add: sample_turns_history) (simp_all add: sample_state_def)

section \<open>Properties of the confirmations\<close>

text \<open>
  C11: no producer confirms a block twice. On every chain of accepted headers that does not exhaust the block numbers and
  in which no header claims to confirm more blocks than there are, the ranges of blocks that two blocks of the same
  producer confirm are disjoint, whatever schedules are promoted on the way and even if the producer leaves the
  schedule and comes back.
\<close>

theorem no_double_confirmation:
  assumes "dpos_run fc pfs validator s0 hist s"
    and "idx_ok (producer_to_last_produced s0)" "unat (block_num s0) + length hist < 2 ^ 32"
    and "\<forall>d \<in> set hist. db_confirmed d \<le> db_num d"
    and "i < j" "j < length hist" "db_producer (hist ! i) = db_producer (hist ! j)"
  shows "\<not> (db_confirms (hist ! i) b \<and> db_confirms (hist ! j) b)"
proof -
  have "sorted_wrt (\<lambda>d e. db_producer d = db_producer e \<longrightarrow> db_num d < db_num e - db_confirmed e) hist"
    using producers_run [OF assms(1-4)] by (simp add: producers_ok_def)
  then have "db_num (hist ! i) < db_num (hist ! j) - db_confirmed (hist ! j)"
    using assms(5-7) by (simp add: sorted_wrt_iff_nth_less)
  then show ?thesis by (auto simp: db_confirms_def)
qed

text \<open>
  C1: a block is proposed as irreversible only when more than two thirds of the producers confirm it. On every chain of
  accepted headers from a state with no open confirmations that does not exhaust the block numbers, in which no header
  claims to confirm more blocks than there are and no schedule has more than \<^verbatim>\<open>max_producers\<close> (125) producers, if the
  proposed irreversible block number has changed, it is the number of a block of the chain, and the distinct producers of
  the blocks that confirm it are more than two thirds of the producers scheduled when this block was built.
\<close>

theorem proposed_irreversible_confirmed:
  assumes "dpos_run fc pfs validator s0 hist s"
    and "idx_ok (producer_to_last_produced s0)" "confirm_count s0 = []"
    and "dpos_proposed_irreversible_blocknum s0 \<le> block_num s0" "unat (block_num s0) + length hist < 2 ^ 32"
    and "\<forall>d \<in> set hist. db_confirmed d \<le> db_num d \<and> db_producers d \<le> 125"
    and "dpos_proposed_irreversible_blocknum s \<noteq> dpos_proposed_irreversible_blocknum s0"
  shows "\<exists>d \<in> set hist. db_num d = unat (dpos_proposed_irreversible_blocknum s) \<and>
     2 * db_producers d < 3 * card (db_producer ` {e \<in> set hist. db_confirms e (unat (dpos_proposed_irreversible_blocknum s))})"
proof -
  have "sorted_wrt (\<lambda>d e. db_producer d = db_producer e \<longrightarrow> db_num d < db_num e - db_confirmed e) hist"
    using producers_run [OF assms(1,2,5)] assms(6) by (simp add: producers_ok_def)
  note card = confirmations_card [OF this, symmetric]
  obtain d where d: "d \<in> set hist" "db_num d = unat (dpos_proposed_irreversible_blocknum s)"
    "required_confirmations (db_producers d) \<le> confirmations hist (unat (dpos_proposed_irreversible_blocknum s))"
    using confirmations_run [OF assms(1-6)] assms(7) by (auto simp: proposed_ok_def)
  have "2 * n < 3 * required_confirmations n" for n
  proof -
    define q r where "q = n * 2 div 3" and "r = n * 2 mod 3"
    have "n * 2 = 3 * q + r" "r < 3" unfolding q_def r_def by simp_all
    then show ?thesis unfolding required_confirmations_def q_def [symmetric] by simp
  qed
  from this [of "db_producers d"] d show ?thesis unfolding card by (intro bexI [of _ d]) simp_all
qed

theorem no_double_confirmation_witness:
  "\<exists>s. dpos_run sample_fc empty_feature_set (\<lambda>_ _ _. Inr ()) sample_state
     [\<lparr>db_num = 2, db_producer = 1, db_confirmed = 0, db_producers = 3\<rparr>,
      \<lparr>db_num = 3, db_producer = 1, db_confirmed = 0, db_producers = 3\<rparr>] s \<and>
     \<not> db_confirms \<lparr>db_num = 3, db_producer = 1, db_confirmed = 0, db_producers = 3\<rparr> 2"
proof -
  let ?h = "[\<lparr>db_num = 2, db_producer = 1, db_confirmed = 0, db_producers = 3\<rparr>,
    \<lparr>db_num = 3, db_producer = 1, db_confirmed = 0, db_producers = 3\<rparr>]"
  have "case sample_chain [(36, 1, 0), (37, 1, 0)] sample_state of Inl _ \<Rightarrow> False | Inr s \<Rightarrow> True" by code_simp
  then obtain s where s: "sample_chain [(36, 1, 0), (37, 1, 0)] sample_state = Inr s" by (auto split: sum.splits)
  have h: "sample_history [(36, 1, 0), (37, 1, 0)] sample_state = ?h" by code_simp
  have run: "dpos_run sample_fc empty_feature_set (\<lambda>_ _ _. Inr ()) sample_state ?h s"
    using sample_run [OF dpos_run.start s] unfolding h by simp
  have "\<not> (db_confirms (?h ! 0) 2 \<and> db_confirms (?h ! 1) 2)"
    by (rule no_double_confirmation [OF run]) (simp_all add: sample_turns_facts)
  then have "\<not> db_confirms (?h ! 1) 2" by (simp add: db_confirms_def)
  with run show ?thesis by auto
qed

theorem proposed_irreversible_confirmed_witness:
  "\<exists>d \<in> set (sample_history sample_turns sample_state). db_num d = 2 \<and>
     2 * db_producers d < 3 * card (db_producer ` {e \<in> set (sample_history sample_turns sample_state). db_confirms e 2})"
proof -
  obtain s where s: "dpos_run sample_fc empty_feature_set (\<lambda>_ _ _. Inr ()) sample_state (sample_history sample_turns sample_state) s"
    "dpos_proposed_irreversible_blocknum s = 2"
    by (rule sample_turns_run)
  show ?thesis
    using proposed_irreversible_confirmed [OF s(1) sample_turns_facts(1,2) _ _ sample_turns_facts(6)]
    by (simp add: s(2) sample_turns_facts)
qed

section \<open>Claims of too many confirmations\<close>

text \<open>
  The bound on the confirmed blocks is needed: a chain from the initial state on which one producer of three confirms its
  own block three times.
\<close>

lemma wrapped_chain:
  "\<exists>s. dpos_run sample_fc empty_feature_set (\<lambda>_ _ _. Inr ()) sample_state (sample_history sample_wrap sample_state) s \<and>
     db_producer ` set (sample_history sample_wrap sample_state) = {1} \<and>
     length (producers (active_schedule sample_state)) = 3 \<and> dpos_proposed_irreversible_blocknum s = 2"
proof -
  have "case sample_chain sample_wrap sample_state of Inl _ \<Rightarrow> False | Inr s \<Rightarrow> dpos_proposed_irreversible_blocknum s = 2"
    by code_simp
  then obtain s where s: "sample_chain sample_wrap sample_state = Inr s" "dpos_proposed_irreversible_blocknum s = 2"
    by (auto split: sum.splits)
  moreover have "db_producer ` set (sample_history sample_wrap sample_state) = {1}"
    "length (producers (active_schedule sample_state)) = 3"
    by code_simp+
  ultimately show ?thesis
    using sample_run [OF dpos_run.start s(1)] by auto
qed

lemma last_open_confirmed:
  assumes "length cc < maximum_tracked_dpos_confirmations" "length cc < unat m" "i < length cc" "cc ! i = 1"
    and "\<forall>k < length cc. i < k \<longrightarrow> cc ! k \<noteq> 1" "r \<noteq> 1"
  obtains cc' where "confirm_loop bn (length (grow_confirm_count cc r)) m (grow_confirm_count cc r) =
    (Some (bn - of_nat (length cc - i)), cc')"
proof -
  have grow: "grow_confirm_count cc r = cc @ [r]" using assms(1) by (simp add: grow_confirm_count_def)
  obtain x cc' where l: "confirm_loop bn (Suc (length cc)) m (cc @ [r]) = (x, cc')" by force
  note spec = confirm_loop_spec [where n = "Suc (length cc)" and cc = "cc @ [r]" and bn = bn and m = m, unfolded l, simplified]
  have one: "(cc @ [r]) ! i = 1" using assms(3,4) by (simp add: nth_append)
  have "x = Some (bn - of_nat (length cc - i))"
  proof (cases x)
    case None
    with spec assms(2,3) one show ?thesis by auto
  next
    case (Some y)
    with spec obtain j where j: "j < Suc (length cc)" "(cc @ [r]) ! j = 1" "y = bn - of_nat (length cc - j)"
      "\<forall>k < Suc (length cc). j < k \<longrightarrow> (cc @ [r]) ! k \<noteq> 1"
      by auto
    have "j < length cc" using j(1,2) assms(6) by (auto simp: less_Suc_eq)
    moreover have "\<not> j < i" using j(4) one assms(3) by auto
    moreover have "\<not> i < j" using assms(5) j(2) \<open>j < length cc\<close> by (auto simp: nth_append)
    ultimately show ?thesis using Some j(3) by (metis linorder_neqE_nat)
  qed
  with l show ?thesis by (intro that) (simp add: grow)
qed

lemma required_confirmations_ne_1:
  assumes "1 < n" "n \<le> 125"
  shows "(ucast ((of_nat (n * 2 div 3) :: u32) + 1) :: u8) \<noteq> 1"
  using assms required_confirmations_word [of n] by (auto simp: required_confirmations_def)

text \<open>
  C36: the test for double confirmations does not hold for headers that claim to confirm more blocks than there are. A
  producer whose last block overlaps the claimed range is rejected as long as the range starts at block 0 or later. But when
  the number of claimed blocks exceeds the number of the new block, the unsigned difference wraps around and the test
  passes, whatever the producer has confirmed before, the head included: the claim counts as a confirmation of every open
  block, and the last one of them that misses a single confirmation becomes the proposed irreversible block.
\<close>

theorem wrapped_confirmations:
  assumes "next_when s t0 = Inr t" "get_scheduled_producer s t = Inr proauth"
    and "map_of (producer_to_last_produced s) (producer_name proauth) = Some l" "l \<le> block_num s"
    and "append_node (fc_pair_hash fc) (bhs_id s) (blockroot_merkle s) = Some bm"
    and "1 < length (producers (active_schedule s))" "length (producers (active_schedule s)) \<le> 125"
    and "length (confirm_count s) \<le> unat (block_num s)" "length (confirm_count s) < maximum_tracked_dpos_confirmations"
    and "i < length (confirm_count s)" "confirm_count s ! i = 1"
    and "\<forall>k < length (confirm_count s). i < k \<longrightarrow> confirm_count s ! k \<noteq> 1"
    and "unat (block_num s) + 1 < unat n"
  shows "(\<exists>p. next_pending fc s t0 n = Inr p \<and> pb_producer p = producer_name proauth \<and>
      dpos_proposed_irreversible_blocknum p = block_num s + 1 - of_nat (length (confirm_count s) - i)) \<and>
    (\<forall>m. unat m \<le> unat (block_num s) + 1 \<and> unat (block_num s) + 1 \<le> unat l + unat m \<longrightarrow>
      next_pending fc s t0 m = Inl Producer_double_confirm)"
proof -
  let ?bn = "block_num s + 1"
  have n: "unat n < 65536" using unsigned_less [of n] by simp
  have bn: "unat ?bn = unat (block_num s) + 1" using n assms(13) by (subst unat_plus_exact) simp_all
  have "unat (?bn - ucast n) = 2 ^ 32 + unat (block_num s) + 1 - unat n"
    using bn n assms(13) by (simp add: unat_sub_if_size word_size)
  then have pass: "l < ?bn - ucast n"
    using assms(4,13) n by (simp add: word_less_nat_alt word_le_nat_alt)
  have m: "unat ((ucast n :: u32) + 1) = unat n + 1" using n by (subst unat_plus_exact) simp_all
  obtain cc' where "confirm_loop ?bn (length (grow_confirm_count (confirm_count s)
      (ucast ((of_nat (length (producers (active_schedule s)) * 2 div 3) :: u32) + 1)))) (ucast n + 1)
      (grow_confirm_count (confirm_count s) (ucast ((of_nat (length (producers (active_schedule s)) * 2 div 3) :: u32) + 1))) =
      (Some (?bn - of_nat (length (confirm_count s) - i)), cc')"
    using assms(8,13) m required_confirmations_ne_1 [OF assms(6,7)]
    by (elim last_open_confirmed [OF assms(9) _ assms(10,11,12), rotated -1]) simp_all
  then have "\<exists>p. next_pending fc s t0 n = Inr p \<and> pb_producer p = producer_name proauth \<and>
      dpos_proposed_irreversible_blocknum p = ?bn - of_nat (length (confirm_count s) - i)"
    using assms(1-3,5) pass by (simp add: next_pending_def Let_def result_simps)
  moreover have "next_pending fc s t0 k = Inl Producer_double_confirm"
    if "unat k \<le> unat (block_num s) + 1 \<and> unat (block_num s) + 1 \<le> unat l + unat k" for k
  proof -
    have "unat (?bn - ucast k) = unat (block_num s) + 1 - unat k"
      using bn that by (subst unat_sub) (simp_all add: word_le_nat_alt)
    then have "\<not> l < ?bn - ucast k" using that unfolding word_less_nat_alt by linarith
    then show ?thesis using assms(1-3) by (simp add: next_pending_def Let_def eos_assert_def)
  qed
  ultimately show ?thesis by blast
qed

lemma sample_append: "append_node (fc_pair_hash sample_fc) (bhs_id sample_state) (blockroot_merkle sample_state) \<noteq> None"
  by code_simp

theorem wrapped_confirmations_witness:
  "\<exists>p. next_pending sample_fc (sample_state\<lparr>block_num := 3, confirm_count := [1, 2], producer_to_last_produced := [(1, 3)]\<rparr>) 36 9 = Inr p \<and>
     dpos_proposed_irreversible_blocknum p = 2"
proof -
  let ?s = "sample_state\<lparr>block_num := 3, confirm_count := [1, 2], producer_to_last_produced := [(1, 3)]\<rparr>"
  have "next_when ?s 36 = Inr 36" "get_scheduled_producer ?s 36 = Inr (sample_producer 1)"
    "producer_name (sample_producer 1) = 1" "length (producers (active_schedule ?s)) = 3"
    by (simp_all add: next_when_def get_scheduled_producer_def sample_state_def sample_header_def sample_producer_def
        producer_repetitions_def Let_def)
  moreover obtain bm where "append_node (fc_pair_hash sample_fc) (bhs_id ?s) (blockroot_merkle ?s) = Some bm"
    using sample_append by (auto simp: sample_state_def)
  moreover have "map_of (producer_to_last_produced ?s) 1 = Some 3" "confirm_count ?s = [1, 2]" "block_num ?s = 3" by simp_all
  moreover have "\<forall>k < length [1, 2 :: u8]. 0 < k \<longrightarrow> [1, 2 :: u8] ! k \<noteq> 1" by (simp add: less_Suc_eq)
  ultimately have "\<exists>p. next_pending sample_fc ?s 36 9 = Inr p \<and> pb_producer p = 1 \<and>
      dpos_proposed_irreversible_blocknum p = 3 + 1 - of_nat (2 - 0)"
    using wrapped_confirmations [where s = ?s and n = 9 and fc = sample_fc and i = 0 and l = 3 and ?t0.0 = 36 and t = 36
        and proauth = "sample_producer 1" and bm = bm]
    by (simp add: maximum_tracked_dpos_confirmations_def)
  then show ?thesis by auto
qed

text \<open>
  C21: the last irreversible block number is the greatest one that more than two thirds of the producers imply, where the
  producer of the next block implies the proposed one: a number is at most the computed one if and only if more than
  two thirds of the entries support it.
\<close>

theorem last_irreversible_quorum:
  assumes "producer_to_last_implied_irb s \<noteq> []"
  shows "n \<le> calc_dpos_last_irreversible s pro \<longleftrightarrow>
     2 * length (producer_to_last_implied_irb s)
       < 3 * length (filter (\<lambda>r. n \<le> implied_irb s pro r) (producer_to_last_implied_irb s))"
  using assms by (rule calc_dpos_ge_iff)

theorem last_irreversible_quorum_witness:
  "5 \<le> calc_dpos_last_irreversible (sample_state\<lparr>dpos_proposed_irreversible_blocknum := 5,
       producer_to_last_implied_irb := [(1, 3), (2, 5), (3, 5)]\<rparr>) 1"
  by (subst last_irreversible_quorum) (simp_all add: implied_irb_def)

section \<open>The last irreversible block\<close>

lemma calc_dpos_le:
  assumes "\<forall>r \<in> set (producer_to_last_implied_irb s). snd r \<le> dpos_proposed_irreversible_blocknum s"
  shows "calc_dpos_last_irreversible s pro \<le> dpos_proposed_irreversible_blocknum s"
proof (cases "producer_to_last_implied_irb s = []")
  case True
  then show ?thesis by (simp add: calc_dpos_last_irreversible_def)
next
  case False
  let ?irbs = "producer_to_last_implied_irb s" and ?c = "calc_dpos_last_irreversible s pro"
  have "2 * length ?irbs < 3 * length (filter (\<lambda>r. ?c \<le> implied_irb s pro r) ?irbs)"
    using iffD1 [OF calc_dpos_ge_iff [OF False]] by blast
  then have "filter (\<lambda>r. ?c \<le> implied_irb s pro r) ?irbs \<noteq> []" by auto
  then obtain r where "r \<in> set ?irbs" "?c \<le> implied_irb s pro r" by (auto simp: filter_empty_conv)
  with assms show ?thesis by (auto simp: implied_irb_def split: if_splits)
qed

definition irreversible_ok :: "('k, 's) block_header_state \<Rightarrow> bool" where
  "irreversible_ok s \<longleftrightarrow> idx_ok (producer_to_last_implied_irb s) \<and>
     (\<forall>k n. map_of (producer_to_last_implied_irb s) k = Some n \<longrightarrow> n \<le> dpos_proposed_irreversible_blocknum s) \<and>
     dpos_irreversible_blocknum s \<le> dpos_proposed_irreversible_blocknum s"

lemma next_header_irb:
  assumes "next_header fc s h sigs pfs validator skip = Inr s'"
  shows "dpos_irreversible_blocknum s' = calc_dpos_last_irreversible s (bh_producer h)"
    "active_schedule s' = (if promotes s (bh_producer h) then schedule (pending_schedule s) else active_schedule s)"
    "producer_to_last_implied_irb s' =
       (if promotes s (bh_producer h)
        then promoted_implied_irb (bh_producer h) (dpos_proposed_irreversible_blocknum s) (dpos_irreversible_blocknum s')
               (producer_to_last_implied_irb s) (producers (active_schedule s'))
        else idx_put (bh_producer h) (dpos_proposed_irreversible_blocknum s) (producer_to_last_implied_irb s))"
proof -
  from assms obtain p where p: "next_pending fc s (bh_timestamp h) (bh_confirmed h) = Inr p"
    "finish_next fc p h sigs pfs validator skip = Inr s'"
    by (rule next_header_cases)
  note f = finish_next_Inr [OF p(2)]
  have "dpos_irreversible_blocknum p = calc_dpos_last_irreversible s (pb_producer p) \<and>
    active_schedule p = (if promotes s (pb_producer p) then schedule (pending_schedule s) else active_schedule s) \<and>
    producer_to_last_implied_irb p =
       (if promotes s (pb_producer p)
        then promoted_implied_irb (pb_producer p) (dpos_proposed_irreversible_blocknum s) (dpos_irreversible_blocknum p)
               (producer_to_last_implied_irb s) (producers (active_schedule p))
        else idx_put (pb_producer p) (dpos_proposed_irreversible_blocknum s) (producer_to_last_implied_irb s))"
    by (rule next_pending_Inr [OF p(1)]) blast
  then show "dpos_irreversible_blocknum s' = calc_dpos_last_irreversible s (bh_producer h)"
    "active_schedule s' = (if promotes s (bh_producer h) then schedule (pending_schedule s) else active_schedule s)"
    "producer_to_last_implied_irb s' =
       (if promotes s (bh_producer h)
        then promoted_implied_irb (bh_producer h) (dpos_proposed_irreversible_blocknum s) (dpos_irreversible_blocknum s')
               (producer_to_last_implied_irb s) (producers (active_schedule s'))
        else idx_put (bh_producer h) (dpos_proposed_irreversible_blocknum s) (producer_to_last_implied_irb s))"
    unfolding f by blast+
qed

lemma irreversible_step:
  assumes ok: "irreversible_ok s" and step: "next_header fc s h sigs pfs validator skip = Inr s'"
    and mono: "dpos_proposed_irreversible_blocknum s \<le> dpos_proposed_irreversible_blocknum s'"
  shows "irreversible_ok s'"
proof -
  note i = next_header_irb [OF step]
  let ?p = "dpos_proposed_irreversible_blocknum s"
  have idx: "idx_ok (producer_to_last_implied_irb s)" and le: "\<And>k n. map_of (producer_to_last_implied_irb s) k = Some n \<Longrightarrow> n \<le> ?p"
    using ok by (auto simp: irreversible_ok_def)
  have lib: "dpos_irreversible_blocknum s' \<le> ?p"
    unfolding i(1) using idx le
    by (intro calc_dpos_le) (blast dest: idx_ok_lookup)
  have "n \<le> ?p" if "map_of (producer_to_last_implied_irb s') k = Some n" for k n
    using that le lib idx unfolding i(3)
    by (auto simp: promoted_implied_irb_spec map_of_idx_put split: if_splits option.splits)
  moreover have "idx_ok (producer_to_last_implied_irb s')"
    using idx unfolding i(3) by (simp add: promoted_implied_irb_spec idx_ok_put)
  ultimately show ?thesis using lib mono unfolding irreversible_ok_def by (meson order_trans)
qed

lemma proposed_step:
  assumes "next_header fc s h sigs pfs validator skip = Inr s'"
    and "unat (dpos_proposed_irreversible_blocknum s) + length (confirm_count s) \<le> unat (block_num s)"
    and "unat (block_num s) + 1 < 2 ^ 32"
  shows "dpos_proposed_irreversible_blocknum s \<le> dpos_proposed_irreversible_blocknum s'"
proof -
  let ?cc = "grow_confirm_count (confirm_count s) (ucast ((of_nat (length (producers (active_schedule s)) * 2 div 3) :: u32) + 1))"
  obtain r where loop: "confirm_loop (block_num s + 1) (length ?cc) (ucast (bh_confirmed h) + 1) ?cc = (r, confirm_count s')"
    and r: "dpos_proposed_irreversible_blocknum s' = (case r of Some n \<Rightarrow> n | None \<Rightarrow> dpos_proposed_irreversible_blocknum s)"
    by (rule next_header_confirm [OF assms(1)])
  show ?thesis
  proof (cases r)
    case None
    then show ?thesis by (simp add: r)
  next
    case (Some x)
    note spec = confirm_loop_spec [where n = "length ?cc" and cc = ?cc and bn = "block_num s + 1" and m = "ucast (bh_confirmed h) + 1",
      unfolded loop Some, simplified prod.case option.case]
    obtain i where i: "i < length ?cc" "x = block_num s + 1 - of_nat (length ?cc - 1 - i)"
      using spec by auto
    define k where "k = length ?cc - 1 - i"
    have k: "k \<le> length (confirm_count s)" unfolding k_def by (simp add: grow_confirm_count_def)
    have "unat (of_nat k :: u32) = k"
      using k assms(2,3) by (simp add: unat_of_nat take_bit_nat_eq_self)
    moreover have "unat (block_num s + 1) = unat (block_num s) + 1" using assms(3) by (simp add: unat_plus_exact)
    ultimately have "unat x = unat (block_num s) + 1 - k"
      using k assms(2) unfolding i(2) k_def [symmetric] by (simp add: unat_sub word_le_nat_alt)
    with k assms(2) Some show ?thesis by (simp add: r word_le_nat_alt)
  qed
qed

lemma irreversible_run:
  assumes "dpos_run fc pfs validator s0 hist s" "idx_ok (producer_to_last_produced s0)" "confirm_count s0 = []"
    "dpos_proposed_irreversible_blocknum s0 \<le> block_num s0" "unat (block_num s0) + length hist < 2 ^ 32"
    "\<forall>d \<in> set hist. db_confirmed d \<le> db_num d \<and> db_producers d \<le> 125" "irreversible_ok s0"
  shows "irreversible_ok s"
  using assms
proof (induction rule: dpos_run.induct)
  case (accept hist s h sigs skip s')
  then have ok: "irreversible_ok s" by simp
  have "unat (dpos_proposed_irreversible_blocknum s) + length (confirm_count s) \<le> unat (block_num s)"
    using confirmations_run [OF accept(1)] accept.prems by simp
  moreover have "unat (block_num s) + 1 < 2 ^ 32"
    using producers_run [OF accept(1)] accept.prems by simp
  ultimately show ?case
    by (intro irreversible_step [OF ok accept(2)] proposed_step [OF accept(2)])
qed

section \<open>Properties of the last irreversible block\<close>

text \<open>
  C22: the block numbers of the confirmation protocol stay in order. On every chain of accepted headers from a state in
  order with no open confirmations that does not exhaust the block numbers, in which no header claims to confirm more blocks
  than there are and no schedule has more than 125 producers, the last irreversible block is at most the proposed one,
  which is at most the head and never goes back.
\<close>

theorem irreversible_below_proposed:
  assumes "dpos_run fc pfs validator s0 hist s" "idx_ok (producer_to_last_produced s0)" "confirm_count s0 = []"
    "dpos_proposed_irreversible_blocknum s0 \<le> block_num s0" "unat (block_num s0) + length hist < 2 ^ 32"
    "\<forall>d \<in> set hist. db_confirmed d \<le> db_num d \<and> db_producers d \<le> 125" "irreversible_ok s0"
  shows "dpos_irreversible_blocknum s \<le> dpos_proposed_irreversible_blocknum s \<and>
    dpos_proposed_irreversible_blocknum s \<le> block_num s \<and>
    dpos_proposed_irreversible_blocknum s0 \<le> dpos_proposed_irreversible_blocknum s"
  using irreversible_run [OF assms] confirmations_run [OF assms(1-6)]
  by (auto simp: irreversible_ok_def word_le_nat_alt)

theorem irreversible_below_proposed_witness:
  "\<exists>s. dpos_run sample_fc empty_feature_set (\<lambda>_ _ _. Inr ()) sample_state (sample_history sample_turns sample_state) s \<and>
     dpos_irreversible_blocknum s \<le> 2 \<and> dpos_proposed_irreversible_blocknum s = 2"
proof -
  obtain s where s: "dpos_run sample_fc empty_feature_set (\<lambda>_ _ _. Inr ()) sample_state (sample_history sample_turns sample_state) s"
    "dpos_proposed_irreversible_blocknum s = 2"
    by (rule sample_turns_run)
  have "irreversible_ok sample_state" by (simp add: irreversible_ok_def sample_state_def)
  with irreversible_below_proposed [OF s(1) sample_turns_facts(1,2) _ _ sample_turns_facts(6)] s
  show ?thesis by (auto simp: sample_turns_facts)
qed

text \<open>
  The last irreversible block never goes back over blocks that promote no schedule. If a header of a tracked producer is
  accepted and promotes no schedule, then whatever header is accepted next, the last irreversible block number after it
  is at least the one before. (At a promotion the set of producers changes and the number may be smaller.)
\<close>

theorem irreversible_monotone:
  assumes "next_header fc s h sigs pfs validator skip = Inr s1" "next_header fc s1 h' sigs' pfs' validator' skip' = Inr s2"
    and ok: "irreversible_ok s" and mono: "dpos_proposed_irreversible_blocknum s \<le> dpos_proposed_irreversible_blocknum s1"
    and "\<not> promotes s (bh_producer h)" and tracked: "map_of (producer_to_last_implied_irb s) (bh_producer h) \<noteq> None"
  shows "dpos_irreversible_blocknum s1 \<le> dpos_irreversible_blocknum s2"
proof -
  let ?irbs = "producer_to_last_implied_irb s" and ?p = "dpos_proposed_irreversible_blocknum s"
  let ?f = "\<lambda>r. if fst r = bh_producer h then (bh_producer h, ?p) else r"
  have idx: "idx_ok ?irbs" and le: "\<And>k n. map_of ?irbs k = Some n \<Longrightarrow> n \<le> ?p"
    using ok by (auto simp: irreversible_ok_def)
  have irbs1: "producer_to_last_implied_irb s1 = map ?f ?irbs"
    unfolding next_header_irb(3) [OF assms(1)] using assms(5) idx tracked by (simp add: idx_put_known)
  have ne: "?irbs \<noteq> []" using tracked by auto
  let ?x = "calc_dpos_last_irreversible s (bh_producer h)"
  have implied: "implied_irb s (bh_producer h) r \<le> implied_irb s1 (bh_producer h') (?f r)" if "r \<in> set ?irbs" for r
  proof -
    have "snd r \<le> ?p"
      using idx_ok_lookup [OF idx that] le by blast
    with mono show ?thesis by (auto simp: implied_irb_def)
  qed
  have "length (filter (\<lambda>r. ?x \<le> implied_irb s (bh_producer h) r) ?irbs)
      \<le> length (filter (\<lambda>r. ?x \<le> implied_irb s1 (bh_producer h') (?f r)) ?irbs)"
    by (rule length_filter_mono) (rule order_trans [OF _ implied])
  moreover have "2 * length ?irbs < 3 * length (filter (\<lambda>r. ?x \<le> implied_irb s (bh_producer h) r) ?irbs)"
    using iffD1 [OF calc_dpos_ge_iff [OF ne]] by blast
  ultimately have "?x \<le> calc_dpos_last_irreversible s1 (bh_producer h')"
    by (subst calc_dpos_ge_iff) (simp_all add: irbs1 ne filter_map comp_def)
  then show ?thesis
    unfolding next_header_irb(1) [OF assms(1)] next_header_irb(1) [OF assms(2)] .
qed

theorem irreversible_monotone_witness:
  "\<exists>s1 s2. sample_chain [(36, 1, 0)] (sample_state\<lparr>producer_to_last_implied_irb := [(1, 0), (2, 0), (3, 0)]\<rparr>) = Inr s1 \<and>
     sample_chain [(37, 1, 0)] s1 = Inr s2 \<and> dpos_irreversible_blocknum s1 \<le> dpos_irreversible_blocknum s2"
proof -
  let ?s = "sample_state\<lparr>producer_to_last_implied_irb := [(1, 0), (2, 0), (3, 0)]\<rparr>"
  have "case sample_chain [(36, 1, 0)] ?s of Inl _ \<Rightarrow> False
    | Inr s1 \<Rightarrow> (case sample_chain [(37, 1, 0)] s1 of Inl _ \<Rightarrow> False | Inr s2 \<Rightarrow> True)"
    by code_simp
  then obtain s1 s2 where s: "sample_chain [(36, 1, 0)] ?s = Inr s1" "sample_chain [(37, 1, 0)] s1 = Inr s2"
    by (auto simp only: split: sum.splits)
  have n: "next_header sample_fc ?s (sample_header 36 1 0 (bhs_id ?s)) [] empty_feature_set (\<lambda>_ _ _. Inr ()) False = Inr s1"
    "next_header sample_fc s1 (sample_header 37 1 0 (bhs_id s1)) [] empty_feature_set (\<lambda>_ _ _. Inr ()) False = Inr s2"
    using s by (auto simp: result_simps)
  have "dpos_irreversible_blocknum s1 \<le> dpos_irreversible_blocknum s2"
    by (rule irreversible_monotone [OF n])
      (simp_all add: irreversible_ok_def sample_state_def idx_ok_def sample_header_def promotes_def empty_schedule_def)
  with s show ?thesis by blast
qed

section \<open>Signers of accepted blocks\<close>

lemma recover_keys_Inr:
  "recover_keys fc d ss ks = Inr ks' \<Longrightarrow> finite ks \<Longrightarrow>
     finite ks' \<and> ks \<subseteq> ks' \<and> card ks' = card ks + length ss \<and>
     (\<forall>k \<in> ks' - ks. \<exists>s \<in> set ss. fc_recover_key fc s d = Inr k)"
proof (induction ss arbitrary: ks)
  case (Cons s ss)
  from Cons.prems obtain k where k: "fc_recover_key fc s d = Inr k" "k \<notin> ks" "recover_keys fc d ss (insert k ks) = Inr ks'"
    by (auto simp: result_simps)
  from Cons.IH [OF k(3)] Cons.prems(2) k(1,2) show ?case by auto
qed simp

lemma relevant_weight_distinct:
  assumes "distinct (map kw_key kws)" "length (filter (\<lambda>kw. kw_key kw \<in> ks) kws) = card ks" "finite ks"
  shows "ks \<subseteq> kw_key ` set kws"
proof -
  have "card (kw_key ` set (filter (\<lambda>kw. kw_key kw \<in> ks) kws)) = length (filter (\<lambda>kw. kw_key kw \<in> ks) kws)"
    using distinct_card [OF distinct_map_filter [OF assms(1)], of "\<lambda>kw. kw_key kw \<in> ks"] by simp
  moreover have "kw_key ` set (filter (\<lambda>kw. kw_key kw \<in> ks) kws) \<subseteq> ks" by auto
  ultimately have "kw_key ` set (filter (\<lambda>kw. kw_key kw \<in> ks) kws) = ks"
    using assms(2,3) by (simp add: card_subset_eq)
  then show ?thesis by auto
qed

lemma verify_signee_Inr:
  assumes "verify_signee fc s = Inr ()" "distinct (map kw_key (bsa_keys (valid_block_signing_authority s)))"
  shows "\<exists>ks. ks \<subseteq> kw_key ` set (bsa_keys (valid_block_signing_authority s)) \<and>
     card ks = Suc (length (additional_signatures s)) \<and>
     (\<forall>k \<in> ks. \<exists>sig \<in> set (producer_signature (bhs_header s) # additional_signatures s).
        fc_recover_key fc sig (sig_digest fc s) = Inr k) \<and>
     unat (bsa_threshold (valid_block_signing_authority s)) \<le> relevant_weight ks (bsa_keys (valid_block_signing_authority s))"
proof -
  let ?a = "valid_block_signing_authority s" and ?d = "sig_digest fc s"
  from assms(1) obtain k ks where k: "fc_recover_key fc (producer_signature (bhs_header s)) ?d = Inr k"
    and ks: "recover_keys fc ?d (additional_signatures s) {k} = Inr ks"
    and rel: "length (filter (\<lambda>kw. kw_key kw \<in> ks) (bsa_keys ?a)) = card ks"
    and thr: "unat (bsa_threshold ?a) \<le> relevant_weight ks (bsa_keys ?a)"
    by (auto simp: verify_signee_def Let_def result_simps keys_satisfy_and_relevant_eq)
  note r = recover_keys_Inr [OF ks]
  have "\<exists>sig \<in> set (producer_signature (bhs_header s) # additional_signatures s). fc_recover_key fc sig ?d = Inr k'"
    if "k' \<in> ks" for k'
    using r that k by (cases "k' = k") auto
  moreover have "ks \<subseteq> kw_key ` set (bsa_keys ?a)"
    using relevant_weight_distinct [OF assms(2) rel] r by simp
  ultimately show ?thesis using r thr by (intro exI [of _ ks]) simp
qed

text \<open>
  C4: every accepted block is signed by the producer whose turn it is. When \<^verbatim>\<open>next\<close> accepts a header with its additional
  signatures, the header names the producer scheduled for its time slot, and the signatures, all over the digest of
  this block, come from different keys of the signing authority of that producer which together reach its threshold, provided
  the authority lists no key twice.
\<close>

theorem accepted_block_signed:
  assumes "next_header fc s h sigs pfs validator False = Inr s'"
  shows "\<exists>proauth \<in> set (producers (active_schedule s)).
     get_scheduled_producer s (bh_timestamp h) = Inr proauth \<and> bh_producer h = producer_name proauth \<and>
     (distinct (map kw_key (bsa_keys (pa_authority proauth))) \<longrightarrow>
       (\<exists>ks \<subseteq> kw_key ` set (bsa_keys (pa_authority proauth)). card ks = Suc (length sigs) \<and>
          (\<forall>k \<in> ks. \<exists>sig \<in> set (producer_signature h # sigs). fc_recover_key fc sig (sig_digest fc s') = Inr k) \<and>
          unat (bsa_threshold (pa_authority proauth)) \<le> relevant_weight ks (bsa_keys (pa_authority proauth))))"
proof -
  from assms obtain p where p: "next_pending fc s (bh_timestamp h) (bh_confirmed h) = Inr p"
    "finish_next fc p h sigs pfs validator False = Inr s'"
    by (rule next_header_cases)
  note f = finish_next_Inr [OF p(2)]
  obtain proauth where pro: "get_scheduled_producer s (pb_timestamp p) = Inr proauth" "pb_producer p = producer_name proauth"
    "valid_block_signing_authority p = pa_authority proauth"
    by (rule next_pending_Inr [OF p(1)]) blast
  have v: "verify_signee fc s' = Inr ()"
    using p(2) by (auto simp: finish_next_def Let_def result_simps split: if_splits)
  show ?thesis
    using pro get_scheduled_producer_in [OF pro(1)] verify_signee_Inr [OF v]
    unfolding f by (intro bexI [of _ proauth]) auto
qed

theorem accepted_block_signed_witness:
  "\<exists>proauth \<in> set (producers (active_schedule sample_state)).
     get_scheduled_producer sample_state 48 = Inr proauth \<and> producer_name proauth = 2 \<and>
     (\<exists>ks \<subseteq> {2 :: nat}. card ks = 1)"
proof -
  have "case sample_chain [(48, 2, 0)] sample_state of Inl _ \<Rightarrow> False | Inr s \<Rightarrow> True" by code_simp
  then obtain s where "sample_chain [(48, 2, 0)] sample_state = Inr s" by (auto simp only: split: sum.splits)
  then have n: "next_header sample_fc sample_state (sample_header 48 2 0 (bhs_id sample_state)) [] empty_feature_set
      (\<lambda>_ _ _. Inr ()) False = Inr s"
    by (auto simp: result_simps)
  have "\<forall>p \<in> set (producers (active_schedule sample_state)).
      pa_authority p = single_key_authority (unat (producer_name p))"
    by (simp add: sample_state_def sample_producer_def)
  with accepted_block_signed [OF n] obtain proauth ks where "proauth \<in> set (producers (active_schedule sample_state))"
    "get_scheduled_producer sample_state 48 = Inr proauth" "producer_name proauth = 2" "ks \<subseteq> {2 :: nat}" "card ks = 1"
    by (auto simp: sample_header_def single_key_authority_def)
  then show ?thesis by blast
qed

section \<open>Producing and accepting\<close>

text \<open>The extensions of a header made with the given features and, under multi-key signatures, schedule.\<close>

definition made_exts :: "digest_type list \<Rightarrow> 'k producer_authority_schedule option \<Rightarrow> 'k header_exts" where
  "made_exts acts sch =
     (if acts = [] then [] else [(protocol_feature_activation_id, Protocol_feature_activation acts)]) @
     (case sch of None \<Rightarrow> [] | Some x \<Rightarrow> [(producer_schedule_change_extension_id, Producer_schedule_change_extension x)])"

lemmas extension_ids = protocol_feature_activation_id_def producer_schedule_change_extension_id_def

lemma made_exts_simps:
  "exts_count producer_schedule_change_extension_id (made_exts acts sch) = (case sch of None \<Rightarrow> 0 | Some _ \<Rightarrow> 1)"
  "exts_schedule (made_exts acts (Some x)) = Inr x"
  by (auto simp: made_exts_def exts_count_def exts_schedule_def extension_ids split: option.splits)

lemma made_exts_features:
  assumes "distinct acts" "finite (prev_activated_protocol_features p)" "set acts \<inter> prev_activated_protocol_features p = {}"
    "acts \<noteq> [] \<Longrightarrow> validator (pb_timestamp p) (prev_activated_protocol_features p) acts = Inr ()"
  shows "new_activated_features validator p (made_exts acts sch) = Inr (prev_activated_protocol_features p \<union> set acts)"
proof -
  have "card (prev_activated_protocol_features p \<union> set acts) = card (prev_activated_protocol_features p) + length acts"
    using assms(1-3) by (subst card_Un_disjoint) (auto simp: distinct_card)
  then show ?thesis
    using assms(4)
    by (auto simp: new_activated_features_def made_exts_def exts_count_def exts_activation_def extension_ids
        protocol_feature_activation_set_def Let_def result_simps split: option.splits)
qed

lemma made_header:
  assumes "make_block_header fc p tm am newp acts pfs = Inr h"
    and rt: "acts \<noteq> [] \<longrightarrow> fc_unpack_activation fc (fc_pack_activation fc acts) = Inr acts"
      "\<forall>sch. newp = Some sch \<longrightarrow> fc_unpack_schedule fc (fc_pack_schedule fc sch) = Inr sch"
    and "distinct acts"
  obtains (plain) "newp = None" "new_producers h = None"
        "validate_and_extract_header_extensions fc h = Inr (made_exts acts None)"
    | (extension) sch where "newp = Some sch" "new_producers h = None"
        "builtin_activated_in (prev_activated_protocol_features p) pfs Wtmsig_block_signatures"
        "validate_and_extract_header_extensions fc h = Inr (made_exts acts (Some sch))"
    | (legacy) sch l where "newp = Some sch" "new_producers h = Some l" "downgrade_schedule sch = Inr l"
        "\<not> builtin_activated_in (prev_activated_protocol_features p) pfs Wtmsig_block_signatures"
        "validate_and_extract_header_extensions fc h = Inr (made_exts acts None)"
proof -
  have init: "acts \<noteq> [] \<Longrightarrow> activation_reflector_init acts = Inr ()"
    using assms(4) by (simp add: activation_reflector_init_def)
  note sets = emplace_extension_def validate_and_extract_header_extensions_def extract_extension_def extension_ids made_exts_def
  show ?thesis
  proof (cases newp)
    case None
    with assms(1) init show ?thesis
      by (intro plain) (auto simp: make_block_header_def Let_def sets rt result_simps)
  next
    case (Some sch)
    show ?thesis
    proof (cases "builtin_activated_in (prev_activated_protocol_features p) pfs Wtmsig_block_signatures")
      case True
      with assms(1) Some init show ?thesis
        by (intro extension) (auto simp: make_block_header_def Let_def sets rt result_simps)
    next
      case False
      with assms(1) Some obtain l where "downgrade_schedule sch = Inr l"
        by (auto simp: make_block_header_def Let_def result_simps)
      with assms(1) Some False init show ?thesis
        by (intro legacy) (auto simp: make_block_header_def Let_def sets rt result_simps)
    qed
  qed
qed

lemma made_header_matches: "make_block_header fc p tm am newp acts pfs = Inr h \<Longrightarrow> check_header_matches p h = Inr ()"
  by (auto simp: make_block_header_def check_header_matches_def Let_def result_simps split: option.splits if_splits)

text \<open>
  What is left of a schedule in the legacy form: every producer has a single key, whose weight is the threshold.
\<close>

definition has_single_key :: "'k producer_authority \<Rightarrow> bool" where
  "has_single_key p \<longleftrightarrow> (\<exists>kw. bsa_keys (pa_authority p) = [kw] \<and> ucast (kw_weight kw) = bsa_threshold (pa_authority p))"

definition signing_key :: "'k producer_authority \<Rightarrow> 'k" where
  "signing_key p = kw_key (hd (bsa_keys (pa_authority p)))"

definition legacy_form :: "'k producer_authority_schedule \<Rightarrow> 'k legacy_producer_schedule_type" where
  "legacy_form sch = \<lparr>lps_version = version sch,
     lps_producers = map (\<lambda>p. \<lparr>lpk_producer_name = producer_name p, block_signing_key = signing_key p\<rparr>) (producers sch)\<rparr>"

definition single_key_form :: "'k producer_authority_schedule \<Rightarrow> 'k producer_authority_schedule" where
  "single_key_form sch = sch\<lparr>producers :=
     map (\<lambda>p. p\<lparr>pa_authority := single_key_authority (signing_key p)\<rparr>) (producers sch)\<rparr>"

lemma downgrade_schedule_single:
  assumes "downgrade_schedule sch = Inr l"
  shows "l = legacy_form sch" "upgrade_schedule l = single_key_form sch" "\<forall>p \<in> set (producers sch). has_single_key p"
proof -
  have *: "downgrade_producers ps = Inr ks \<Longrightarrow>
      ks = map (\<lambda>p. \<lparr>lpk_producer_name = producer_name p, block_signing_key = signing_key p\<rparr>) ps \<and> (\<forall>p \<in> set ps. has_single_key p)"
    for ps :: "'a producer_authority list" and ks
    by (induction ps arbitrary: ks) (auto simp: result_simps signing_key_def has_single_key_def split: list.splits)
  with assms show l: "l = legacy_form sch" "\<forall>p \<in> set (producers sch). has_single_key p"
    by (auto simp: downgrade_schedule_def legacy_form_def result_simps)
  have "\<lparr>producer_name = producer_name p, pa_authority = a\<rparr> = p\<lparr>pa_authority := a\<rparr>" for p :: "'a producer_authority" and a
    by (cases p) simp
  then show "upgrade_schedule l = single_key_form sch"
    by (cases sch) (simp add: l(1) upgrade_schedule_def legacy_form_def single_key_form_def comp_def)
qed

text \<open>
  C37: the header a producer makes is accepted. For a list of new features with no repetition, none of them active, that the
  validator accepts, and a new schedule, if any, with the next version number and no other schedule pending or promoted by
  this block, which both unpack to what was packed, \<^verbatim>\<open>_finish_next\<close> accepts what \<^verbatim>\<open>make_block_header\<close> returns. The new state
  has this header and its id, the common part of the pending state, and these features activated in addition. A new
  schedule is pending at this block number: under multi-key signatures it is the given one with its hash; before, every
  producer has a single key that reaches the threshold alone, and the schedule is the one of these keys, with the hash of
  its legacy form. Without a new schedule the pending one is kept, or emptied when it was promoted.
\<close>

theorem made_header_accepted:
  assumes made: "make_block_header fc p tm am newp acts pfs = Inr h"
    and rt: "acts \<noteq> [] \<Longrightarrow> fc_unpack_activation fc (fc_pack_activation fc acts) = Inr acts"
      "\<And>sch. newp = Some sch \<Longrightarrow> fc_unpack_schedule fc (fc_pack_schedule fc sch) = Inr sch"
    and acts: "distinct acts" "finite (prev_activated_protocol_features p)" "set acts \<inter> prev_activated_protocol_features p = {}"
      "acts \<noteq> [] \<Longrightarrow> validator (pb_timestamp p) (prev_activated_protocol_features p) acts = Inr ()"
    and newp: "newp \<noteq> None \<Longrightarrow> version (the newp) = version (active_schedule p) + 1 \<and> \<not> was_pending_promoted p \<and>
      producers (schedule (prev_pending_schedule p)) = []"
  shows "\<exists>s'. finish_next_unchecked fc p h pfs validator = Inr s' \<and> bhs_header s' = h \<and> bhs_id s' = calculate_id fc h \<and>
     block_header_state_common.truncate s' = block_header_state_common.truncate p \<and>
     activated_protocol_features s' = prev_activated_protocol_features p \<union> set acts \<and>
     (case newp of
        None \<Rightarrow> pending_schedule s' = (if was_pending_promoted p
          then (prev_pending_schedule p)\<lparr>schedule := \<lparr>version = version (schedule (prev_pending_schedule p)), producers = []\<rparr>\<rparr>
          else prev_pending_schedule p)
      | Some sch \<Rightarrow>
          if builtin_activated_in (prev_activated_protocol_features p) pfs Wtmsig_block_signatures
          then pending_schedule s' = \<lparr>schedule_lib_num = block_num p, schedule_hash = fc_schedule_hash fc sch, schedule = sch\<rparr>
          else (\<forall>q \<in> set (producers sch). has_single_key q) \<and>
            pending_schedule s' = \<lparr>schedule_lib_num = block_num p, schedule_hash = fc_legacy_schedule_hash fc (legacy_form sch),
              schedule = single_key_form sch\<rparr>)"
proof -
  note feats = made_exts_features [where p = p and validator = validator, OF acts]
  have rt': "acts \<noteq> [] \<longrightarrow> fc_unpack_activation fc (fc_pack_activation fc acts) = Inr acts"
    "\<forall>sch. newp = Some sch \<longrightarrow> fc_unpack_schedule fc (fc_pack_schedule fc sch) = Inr sch"
    using rt by blast+
  note fin = finish_next_unchecked_def made_header_matches [OF made] feats block_header_state_common.truncate_def
  show ?thesis
  proof (cases rule: made_header [OF made rt' acts(1), case_names plain extension legacy])
    case plain
    then show ?thesis
      by (cases "prev_pending_schedule p") (simp add: fin new_schedule_of_header_def made_exts_simps empty_schedule_def)
  next
    case (extension sch)
    with newp show ?thesis
      by (simp add: fin new_schedule_of_header_def check_new_schedule_def made_exts_simps)
  next
    case (legacy sch l)
    note l = downgrade_schedule_single [OF legacy(3)]
    have "lps_version l = version sch" by (simp add: l(1) legacy_form_def)
    with legacy newp l show ?thesis
      by (simp add: fin new_schedule_of_header_def check_new_schedule_def made_exts_simps)
  qed
qed

text \<open>A library that unpacks the activation of a feature and a schedule of one producer.\<close>

definition sample_change :: "nat producer_authority_schedule" where
  "sample_change = \<lparr>version = 2, producers = [sample_producer 2]\<rparr>"

definition sample_change_fc :: "(nat, nat) fc_lib" where
  "sample_change_fc = sample_fc\<lparr>fc_unpack_activation := \<lambda>_. Inr [digest_of 7], fc_unpack_schedule := \<lambda>_. Inr sample_change\<rparr>"

lemma sample_pending: "case next_pending sample_change_fc sample_state 36 0 of Inl _ \<Rightarrow> False
    | Inr p \<Rightarrow> prev_activated_protocol_features p = {} \<and> version (active_schedule p) = 1 \<and> \<not> was_pending_promoted p \<and>
        producers (schedule (prev_pending_schedule p)) = [] \<and> block_num p = 2"
  by code_simp

theorem made_header_accepted_witness:
  "\<exists>p h s'. next_pending sample_change_fc sample_state 36 0 = Inr p \<and>
     make_block_header sample_change_fc p (digest_of 0) (digest_of 0) (Some sample_change) [digest_of 7] empty_feature_set = Inr h \<and>
     finish_next_unchecked sample_change_fc p h empty_feature_set (\<lambda>_ _ _. Inr ()) = Inr s' \<and>
     activated_protocol_features s' = {digest_of 7} \<and>
     pending_schedule s' = \<lparr>schedule_lib_num = 2, schedule_hash = digest_of 0, schedule = sample_change\<rparr>"
proof -
  obtain p where p: "next_pending sample_change_fc sample_state 36 0 = Inr p" "prev_activated_protocol_features p = {}"
    "version (active_schedule p) = 1" "\<not> was_pending_promoted p" "producers (schedule (prev_pending_schedule p)) = []" "block_num p = 2"
    using sample_pending by (auto simp only: split: sum.splits)
  have not_active: "\<not> builtin_activated_in {} pfs c" for pfs c by (simp add: builtin_activated_in_def split: option.split)
  have "downgrade_schedule sample_change = Inr \<lparr>lps_version = 2, lps_producers = [\<lparr>lpk_producer_name = 2, block_signing_key = 2\<rparr>]\<rparr>"
    by (simp add: downgrade_schedule_def sample_change_def sample_producer_def single_key_authority_def)
  then obtain h where h: "make_block_header sample_change_fc p (digest_of 0) (digest_of 0) (Some sample_change) [digest_of 7] empty_feature_set = Inr h"
    using not_active by (simp add: make_block_header_def Let_def p(2))
  have form: "single_key_form sample_change = sample_change"
    by (simp add: single_key_form_def sample_change_def sample_producer_def signing_key_def single_key_authority_def)
  have lib: "fc_unpack_activation sample_change_fc x = Inr [digest_of 7]" "fc_unpack_schedule sample_change_fc x = Inr sample_change"
    "fc_legacy_schedule_hash sample_change_fc y = digest_of 0" "version sample_change = 2" for x y
    by (simp_all add: sample_change_fc_def sample_fc_def sample_change_def)
  have "\<exists>s'. finish_next_unchecked sample_change_fc p h empty_feature_set (\<lambda>_ _ _. Inr ()) = Inr s' \<and>
      activated_protocol_features s' = {digest_of 7} \<and>
      pending_schedule s' = \<lparr>schedule_lib_num = 2, schedule_hash = digest_of 0, schedule = sample_change\<rparr>"
    using made_header_accepted [OF h, of "\<lambda>_ _ _. Inr ()"] not_active by (auto simp: p lib form)
  with p(1) h show ?thesis by blast
qed

end
