(* ===== verification/Block_State.thy ===== *)
theory Block_State
  imports Block_Header_State
begin

text \<open>
  \<^verbatim>\<open>block.hpp\<close>, \<^verbatim>\<open>block.cpp\<close>, \<^verbatim>\<open>block_state.hpp\<close> and \<^verbatim>\<open>block_state.cpp\<close>: blocks with their extension for additional
  signatures, and block states, which are header states with their block. Receipts of transactions are opaque; the
  transactions cached for replaying are left out.
\<close>

section \<open>Blocks\<close>

datatype prune_state_type = Incomplete | Complete | Complete_legacy

record ('k, 's, 't) signed_block = "('k, 's) signed_block_header" +
  prune_state :: prune_state_type
  transactions :: "'t list"
  block_extensions :: extensions_type

text \<open>How fc packs the extension: as its list of signatures.\<close>

record 's sigs_lib =
  pack_signatures :: "'s list \<Rightarrow> bytes"
  unpack_signatures :: "bytes \<Rightarrow> (chain_exception, 's list) result"

definition additional_sigs_eid :: u16 where
  "additional_sigs_eid = 2"

definition additional_signatures_reflector_init :: "'s list \<Rightarrow> (chain_exception, unit) result" where
  "additional_signatures_reflector_init sigs =
     rbind (eos_assert (length sigs > 0) Ill_formed_additional_block_signatures_extension) (\<lambda>_.
     eos_assert (distinct sigs) Ill_formed_additional_block_signatures_extension)"

text \<open>The only extension of blocks is the one for additional signatures, which must be unique.\<close>

definition extract_block_extension :: "'s sigs_lib \<Rightarrow> u16 \<Rightarrow> bytes \<Rightarrow> (chain_exception, ('s list \<times> bool) option) result" where
  "extract_block_extension fs eid data =
     (if eid = additional_sigs_eid then
        rbind (unpack_signatures fs data) (\<lambda>sigs.
        rbind (additional_signatures_reflector_init sigs) (\<lambda>_. Inr (Some (sigs, True))))
      else Inr None)"

fun extract_block_extensions :: "'s sigs_lib \<Rightarrow> nat \<Rightarrow> u16 \<Rightarrow> extensions_type \<Rightarrow> (u16 \<times> 's list) list \<Rightarrow>
    (chain_exception, (u16 \<times> 's list) list) result" where
  "extract_block_extensions fs i lower [] results = Inr results"
| "extract_block_extensions fs i lower ((eid, data) # exts) results =
     rbind (eos_assert (eid \<ge> lower) Invalid_block_extension) (\<lambda>_.
     rbind (extract_block_extension fs eid data) (\<lambda>match.
     case match of
       None \<Rightarrow> Inl Invalid_block_extension
     | Some (ext, enforce_unique) \<Rightarrow>
         rbind (eos_assert (\<not> enforce_unique \<or> i = 0 \<or> eid > lower) Invalid_block_header_extension) (\<lambda>_.
         extract_block_extensions fs (Suc i) eid exts (results @ [(eid, ext)]))))"

definition validate_and_extract_extensions :: "'s sigs_lib \<Rightarrow> ('k, 's, 't) signed_block \<Rightarrow> (chain_exception, (u16 \<times> 's list) list) result" where
  "validate_and_extract_extensions fs b = extract_block_extensions fs 0 0 (block_extensions b) []"

text \<open>The multimap is consulted with \<^verbatim>\<open>count\<close>, and then read at its \<^verbatim>\<open>lower_bound\<close>.\<close>

definition extract_additional_signatures :: "'s sigs_lib \<Rightarrow> ('k, 's, 't) signed_block \<Rightarrow> (chain_exception, 's list) result" where
  "extract_additional_signatures fs b =
     rbind (validate_and_extract_extensions fs b) (\<lambda>exts.
     if length (filter (\<lambda>e. fst e = additional_sigs_eid) exts) > 0 then
       (case find (\<lambda>e. fst e \<ge> additional_sigs_eid) exts of
          None \<Rightarrow> Inl Undefined_behaviour
        | Some e \<Rightarrow> Inr (snd e))
     else Inr [])"

section \<open>Block states\<close>

record ('k, 's, 't) block_state = "('k, 's) block_header_state" +
  block :: "('k, 's, 't) signed_block option"
  validated :: bool

definition header_of_block :: "('k, 's, 't) signed_block \<Rightarrow> ('k, 's) signed_block_header" where
  "header_of_block b = signed_block_header.truncate b"

definition state_with_block :: "('k, 's) block_header_state \<Rightarrow> ('k, 's, 't) signed_block option \<Rightarrow> bool \<Rightarrow> ('k, 's, 't) block_state" where
  "state_with_block s b v = block_header_state.extend s (block_state.fields b v)"

text \<open>The state of a received block, and the state of a block that is being produced.\<close>

definition receive_block :: "('k, 's) fc_lib \<Rightarrow> 's sigs_lib \<Rightarrow> ('k, 's) block_header_state \<Rightarrow> ('k, 's, 't) signed_block \<Rightarrow> protocol_feature_set \<Rightarrow>
    (block_timestamp_type \<Rightarrow> digest_type set \<Rightarrow> digest_type list \<Rightarrow> (chain_exception, unit) result) \<Rightarrow> bool \<Rightarrow>
    (chain_exception, ('k, 's, 't) block_state) result" where
  "receive_block fc fs prv b pfs validator skip_validate_signee =
     rbind (extract_additional_signatures fs b) (\<lambda>sigs.
     rbind (next_header fc prv (header_of_block b) sigs pfs validator skip_validate_signee) (\<lambda>s.
     Inr (state_with_block s (Some b) False)))"

definition build_block :: "('k, 's) fc_lib \<Rightarrow> 'k pending_block_header_state \<Rightarrow> ('k, 's, 't) signed_block \<Rightarrow> protocol_feature_set \<Rightarrow>
    (block_timestamp_type \<Rightarrow> digest_type set \<Rightarrow> digest_type list \<Rightarrow> (chain_exception, unit) result) \<Rightarrow>
    (chain_exception, ('k, 's, 't) block_state) result" where
  "build_block fc cur b pfs validator =
     rbind (finish_next_unchecked fc cur (header_of_block b) pfs validator) (\<lambda>s.
     Inr (state_with_block s (Some b) False))"

text \<open>
  Signing a block state signs its header state, copies the signature of the producer into the block, and emplaces the
  others as an extension. A block state without a block cannot be signed.
\<close>

definition block_assign_signatures :: "('k, 's) fc_lib \<Rightarrow> 's sigs_lib \<Rightarrow> 's list \<Rightarrow> bool \<Rightarrow> ('k, 's, 't) block_state \<Rightarrow>
    (chain_exception, ('k, 's, 't) block_state) result" where
  "block_assign_signatures fc fs sigs wtmsig_enabled bs =
     rbind (assign_signatures fc sigs (block_header_state.truncate bs)) (\<lambda>s.
     case block bs of
       None \<Rightarrow> Inl Undefined_behaviour
     | Some b \<Rightarrow>
         let b1 = b\<lparr>producer_signature := producer_signature (bhs_header s)\<rparr> in
         if additional_signatures s \<noteq> [] then
           rbind (eos_assert wtmsig_enabled Block_validate_exception) (\<lambda>_.
           Inr (state_with_block s
             (Some (b1\<lparr>block_extensions :=
                emplace_extension additional_sigs_eid (pack_signatures fs (additional_signatures s)) (block_extensions b1)\<rparr>))
             (validated bs)))
         else Inr (state_with_block s (Some b1) (validated bs)))"

section \<open>Producing and receiving\<close>

lemma header_digest_signature [simp]: "header_digest fc (h\<lparr>producer_signature := x\<rparr>) = header_digest fc h"
  by (simp add: header_digest_def block_header.truncate_def)

lemma calculate_id_signature [simp]: "calculate_id fc (h\<lparr>producer_signature := x\<rparr>) = calculate_id fc h"
  by (simp add: calculate_id_def header_block_num_def)

lemma finish_next_unchecked_signature:
  "finish_next_unchecked fc p (h\<lparr>producer_signature := x\<rparr>) pfs validator =
     rbind (finish_next_unchecked fc p h pfs validator) (\<lambda>s. Inr (s\<lparr>bhs_header := h\<lparr>producer_signature := x\<rparr>\<rparr>))"
proof -
  let ?h = "h\<lparr>producer_signature := x\<rparr>"
  have "check_header_matches p ?h = check_header_matches p h"
    "validate_and_extract_header_extensions fc ?h = validate_and_extract_header_extensions fc h"
    "new_schedule_of_header fc pfs p ?h exts = new_schedule_of_header fc pfs p h exts" for exts
    by (simp_all add: check_header_matches_def validate_and_extract_header_extensions_def new_schedule_of_header_def)
  then show ?thesis
    unfolding finish_next_unchecked_def
    by (auto simp: rbind_def split: sum.splits)
qed

lemma next_pending_again:
  assumes "next_pending fc s when n = Inr p"
  shows "next_pending fc s (pb_timestamp p) (pb_confirmed p) = Inr p"
proof -
  have w: "next_when s when = Inr (pb_timestamp p)" and c: "pb_confirmed p = n"
    by (rule next_pending_Inr [OF assms], blast)+
  have "next_when s (pb_timestamp p) = Inr (pb_timestamp p)"
  proof (cases "when = 0")
    case True
    then have t: "pb_timestamp p = bh_timestamp (bhs_header s) + 1" using w by (simp add: next_when_def)
    have "bh_timestamp (bhs_header s) + 1 \<noteq> 0 \<Longrightarrow> bh_timestamp (bhs_header s) < bh_timestamp (bhs_header s) + 1"
      by (rule less_inc)
    then show ?thesis unfolding t by (simp add: next_when_def)
  next
    case False
    with w show ?thesis by (auto simp: next_when_def result_simps split: if_splits)
  qed
  with assms w c show ?thesis by (simp add: next_pending_def)
qed

lemma recover_keys_distinct:
  "recover_keys fc d ss ks = Inr ks' \<Longrightarrow> distinct ss \<and> (\<forall>s \<in> set ss. \<forall>k. fc_recover_key fc s d = Inr k \<longrightarrow> k \<notin> ks)"
proof (induction ss arbitrary: ks)
  case (Cons s ss)
  from Cons.prems obtain k where k: "fc_recover_key fc s d = Inr k" "k \<notin> ks" "recover_keys fc d ss (insert k ks) = Inr ks'"
    by (auto simp: result_simps)
  from Cons.IH [OF k(3)] k(1,2) show ?case by auto
qed simp

lemma additional_signatures_roundtrip:
  assumes "sigs \<noteq> []" "distinct sigs" "unpack_signatures fs (pack_signatures fs sigs) = Inr sigs" "block_extensions b = []"
  shows "extract_additional_signatures fs
    (b\<lparr>block_extensions := emplace_extension additional_sigs_eid (pack_signatures fs sigs) []\<rparr>) = Inr sigs"
  using assms
  by (simp add: extract_additional_signatures_def validate_and_extract_extensions_def emplace_extension_def
      extract_block_extension_def additional_signatures_reflector_init_def additional_sigs_eid_def)

lemma no_additional_signatures: "block_extensions b = [] \<Longrightarrow> extract_additional_signatures fs b = Inr []"
  by (simp add: extract_additional_signatures_def validate_and_extract_extensions_def)

lemma assign_signatures_Inr:
  assumes "assign_signatures fc sigs s = Inr s1"
  shows "s1 = s\<lparr>bhs_header := (bhs_header s)\<lparr>producer_signature := last sigs\<rparr>, additional_signatures := butlast sigs\<rparr>"
    "verify_signee fc s1 = Inr ()" "distinct (butlast sigs)"
proof -
  show s1: "s1 = s\<lparr>bhs_header := (bhs_header s)\<lparr>producer_signature := last sigs\<rparr>, additional_signatures := butlast sigs\<rparr>"
    and v: "verify_signee fc s1 = Inr ()"
    using assms by (auto simp: assign_signatures_def Let_def result_simps)
  then obtain k ks where "recover_keys fc (sig_digest fc s1) (additional_signatures s1) {k} = Inr ks"
    by (auto simp: verify_signee_def Let_def result_simps)
  from recover_keys_distinct [OF this] show "distinct (butlast sigs)" by (simp add: s1)
qed

lemma finish_next_unchecked_Inr:
  assumes "finish_next_unchecked fc p h pfs validator = Inr s0"
  shows "bhs_header s0 = h" "additional_signatures s0 = []" "bh_timestamp h = pb_timestamp p" "bh_confirmed h = pb_confirmed p"
  using assms by (auto simp: finish_next_unchecked_def check_header_matches_def result_simps)

lemma finish_next_signed:
  assumes "finish_next_unchecked fc p h pfs validator = Inr s0"
    and "s1 = s0\<lparr>bhs_header := h\<lparr>producer_signature := x\<rparr>, additional_signatures := sigs\<rparr>" "verify_signee fc s1 = Inr ()"
    and "sigs \<noteq> [] \<Longrightarrow> builtin_activated_in (prev_activated_protocol_features p) pfs Wtmsig_block_signatures"
  shows "finish_next fc p (h\<lparr>producer_signature := x\<rparr>) sigs pfs validator False = Inr s1"
proof (cases "sigs = []")
  case True
  have "s0\<lparr>bhs_header := h\<lparr>producer_signature := x\<rparr>\<rparr> = s1"
    unfolding assms(2) using True finish_next_unchecked_Inr(2) [OF assms(1)] by simp
  then show ?thesis
    using True assms(1,3) by (simp add: finish_next_def finish_next_unchecked_signature)
next
  case False
  with assms show ?thesis by (simp add: finish_next_def finish_next_unchecked_signature)
qed

lemma state_with_block_simps [simp]:
  "block_header_state.truncate (state_with_block s b v) = s"
  "block (state_with_block s b v) = b" "validated (state_with_block s b v) = v"
  by (simp_all add: state_with_block_def block_header_state.truncate_def block_header_state.extend_def block_state.fields_def)

lemma header_of_block_simps [simp]:
  "header_of_block (b\<lparr>producer_signature := x\<rparr>) = (header_of_block b)\<lparr>producer_signature := x\<rparr>"
  "header_of_block (b\<lparr>block_extensions := e\<rparr>) = header_of_block b"
  by (simp_all add: header_of_block_def signed_block_header.truncate_def)

text \<open>
  C9: a block that a producer builds and signs is accepted by every node at the same head. If a pending state on top of a
  head is finished into a block state and signed, then receiving its block on that head, with all checks, gives exactly the
  block state of the producer, for packed signatures that unpack again, a new block without extensions, and the flag for
  additional signatures set when the feature is active.
\<close>

theorem produced_block_received:
  assumes pend: "next_pending fc s when n = Inr p"
    and build: "build_block fc p b pfs validator = Inr bs" "block_extensions b = []"
    and sign: "block_assign_signatures fc fs sigs wtmsig bs = Inr bs'" "block bs' = Some b'"
    and rt: "unpack_signatures fs (pack_signatures fs (butlast sigs)) = Inr (butlast sigs)"
    and wtmsig: "wtmsig \<longleftrightarrow> builtin_activated_in (activated_protocol_features s) pfs Wtmsig_block_signatures"
  shows "receive_block fc fs s b' pfs validator False = Inr bs'"
proof -
  let ?h = "header_of_block b" and ?x = "last sigs" and ?sigs = "butlast sigs"
  obtain s0 where s0: "finish_next_unchecked fc p ?h pfs validator = Inr s0" "bs = state_with_block s0 (Some b) False"
    using build(1) by (auto simp: build_block_def result_simps)
  note f = finish_next_unchecked_Inr [OF s0(1)]
  obtain s1 where s1: "assign_signatures fc sigs s0 = Inr s1"
    using sign(1) by (auto simp: block_assign_signatures_def s0(2) result_simps)
  note a = assign_signatures_Inr [OF s1]
  have eq: "s1 = s0\<lparr>bhs_header := ?h\<lparr>producer_signature := ?x\<rparr>, additional_signatures := ?sigs\<rparr>"
    using a(1) f(1) by simp
  have p: "next_pending fc s (bh_timestamp ?h) (bh_confirmed ?h) = Inr p"
    using next_pending_again [OF pend] f(3,4) by simp
  have feats: "prev_activated_protocol_features p = activated_protocol_features s"
    by (rule next_pending_Inr [OF pend]) blast
  have wt: "?sigs \<noteq> [] \<Longrightarrow> wtmsig"
    using sign(1) by (auto simp: block_assign_signatures_def s0(2) s1 eq result_simps)
  have fin: "finish_next fc p (?h\<lparr>producer_signature := ?x\<rparr>) ?sigs pfs validator False = Inr s1"
    using s0(1) eq a(2) by (rule finish_next_signed) (use wt wtmsig feats in simp)
  have acc: "next_header fc s (?h\<lparr>producer_signature := ?x\<rparr>) ?sigs pfs validator False = Inr s1"
    using p fin by (simp add: next_header_def)
  show ?thesis
  proof (cases "?sigs = []")
    case True
    then have "bs' = state_with_block s1 (Some (b\<lparr>producer_signature := ?x\<rparr>)) False" "b' = b\<lparr>producer_signature := ?x\<rparr>"
      using sign by (auto simp: block_assign_signatures_def s0(2) s1 eq)
    with acc True show ?thesis
      by (simp add: receive_block_def no_additional_signatures build(2))
  next
    case False
    let ?b = "b\<lparr>producer_signature := ?x, block_extensions := emplace_extension additional_sigs_eid (pack_signatures fs ?sigs) []\<rparr>"
    have "bs' = state_with_block s1 (Some ?b) False" "b' = ?b"
      using sign False wt by (auto simp: block_assign_signatures_def s0(2) s1 eq build(2))
    moreover have "extract_additional_signatures fs ?b = Inr ?sigs"
      using additional_signatures_roundtrip [OF False a(3) rt, of "b\<lparr>producer_signature := ?x\<rparr>"] build(2) by simp
    ultimately show ?thesis using acc by (simp add: receive_block_def)
  qed
qed

definition sample_block :: "(nat, nat, unit) signed_block" where
  "sample_block = signed_block_header.extend (sample_header 36 1 0 (digest_of 1)) (signed_block.fields Complete_legacy [] [])"

definition sample_sigs_lib :: "nat sigs_lib" where
  "sample_sigs_lib = \<lparr>pack_signatures = (\<lambda>_. []), unpack_signatures = (\<lambda>_. Inr [])\<rparr>"

theorem produced_block_received_witness:
  "\<exists>bs b. block_assign_signatures sample_fc sample_sigs_lib [1] False
       (state_with_block (projr (finish_next_unchecked sample_fc (projr (next_pending sample_fc sample_state 36 0))
         (header_of_block sample_block) empty_feature_set (\<lambda>_ _ _. Inr ()))) (Some sample_block) False) = Inr bs \<and>
     block bs = Some b \<and>
     receive_block sample_fc sample_sigs_lib sample_state b empty_feature_set (\<lambda>_ _ _. Inr ()) False = Inr bs"
proof -
  let ?p = "next_pending sample_fc sample_state 36 0"
  let ?f = "finish_next_unchecked sample_fc (projr ?p) (header_of_block sample_block) empty_feature_set (\<lambda>_ _ _. Inr ())"
  let ?bs = "state_with_block (projr ?f) (Some sample_block) False"
  have e: "\<not> isl ?p" "\<not> isl ?f"
    "\<not> isl (block_assign_signatures sample_fc sample_sigs_lib [1] False ?bs)"
    by code_simp+
  then obtain bs where bs: "block_assign_signatures sample_fc sample_sigs_lib [1] False ?bs = Inr bs"
    by (auto simp: isl_def split: sum.splits) (metis sum.exhaust)
  have p: "?p = Inr (projr ?p)" and f: "?f = Inr (projr ?f)" using e(1,2) by simp_all
  have build: "build_block sample_fc (projr ?p) sample_block empty_feature_set (\<lambda>_ _ _. Inr ()) = Inr ?bs"
    unfolding build_block_def by (subst f) simp
  obtain b where b: "block bs = Some b"
    using bs by (auto simp: block_assign_signatures_def Let_def result_simps split: if_splits)
  have "receive_block sample_fc sample_sigs_lib sample_state b empty_feature_set (\<lambda>_ _ _. Inr ()) False = Inr bs"
    using p build _ bs b
    by (rule produced_block_received)
      (simp_all add: sample_block_def sample_sigs_lib_def sample_state_def builtin_activated_in_def empty_feature_set_def
        get_builtin_digest_def signed_block_header.extend_def signed_block.fields_def)
  with bs b show ?thesis by blast
qed

end
