(* ===== verification/Fork_Database.thy ===== *)
theory Fork_Database
  imports Block_State
begin

text \<open>
  \<^verbatim>\<open>fork_database.hpp\<close> and \<^verbatim>\<open>fork_database.cpp\<close>: the tree of blocks that are not yet irreversible, above its root.

  The multi-index container is the list of its block states in the order they were inserted. The index by id is a search
  in this list; the index by previous id keeps the order of insertion among equal keys; the index by validity, last
  irreversible block, block number and id is the list sorted by that key. Pointers to block states are the block states
  they point to. The flag \<^verbatim>\<open>validated\<close> is the only part of a shared block state that is modified, and it is read through
  the index only.

  An operation that changes the database and may throw returns the database it leaves behind and its result. A loop that
  follows the links of the tree has as many steps as there are blocks as its fuel, and one or two more; a run that
  needs more meets a block twice and does not return, which is the value \<open>None\<close>.
\<close>

section \<open>The database\<close>

record ('k, 's, 't) fork_database =
  fdb_index :: "('k, 's, 't) block_state list"
  fdb_root :: "('k, 's, 't) block_state option"
  fdb_head :: "('k, 's, 't) block_state option"

type_synonym ('k, 's, 't) fork_result = "('k, 's, 't) fork_database \<times> (chain_exception, unit) result"

definition empty_fork_database :: "('k, 's, 't) fork_database" where
  "empty_fork_database = \<lparr>fdb_index = [], fdb_root = None, fdb_head = None\<rparr>"

definition prev_id :: "('k, 's, 't) block_state \<Rightarrow> digest_type" where
  "prev_id b = bh_previous (bhs_header b)"

definition first_preferred :: "('k, 's, 't) block_state \<Rightarrow> ('k, 's, 't) block_state \<Rightarrow> bool" where
  "first_preferred lhs rhs \<longleftrightarrow>
     (dpos_irreversible_blocknum lhs, block_num lhs) > (dpos_irreversible_blocknum rhs, block_num rhs)"

text \<open>The composite key, whose first three components are compared with \<^verbatim>\<open>std::greater\<close>.\<close>

definition by_lib_key :: "('k, 's, 't) block_state \<Rightarrow> bool \<times> u32 \<times> u32 \<times> u64 \<times> u64 \<times> u64 \<times> u64" where
  "by_lib_key b =
     (\<not> validated b, numeric_max - dpos_irreversible_blocknum b, numeric_max - block_num b,
      hash0 (bhs_id b), hash1 (bhs_id b), hash2 (bhs_id b), hash3 (bhs_id b))"

definition by_lib_order :: "('k, 's, 't) block_state list \<Rightarrow> ('k, 's, 't) block_state list" where
  "by_lib_order bs = sort_key by_lib_key bs"

definition by_lib_begin :: "('k, 's, 't) block_state list \<Rightarrow> ('k, 's, 't) block_state option" where
  "by_lib_begin bs = (case by_lib_order bs of [] \<Rightarrow> None | b # _ \<Rightarrow> Some b)"

definition get_block :: "('k, 's, 't) fork_database \<Rightarrow> digest_type \<Rightarrow> ('k, 's, 't) block_state option" where
  "get_block db i = find (\<lambda>b. bhs_id b = i) (fdb_index db)"

definition get_block_header :: "('k, 's, 't) fork_database \<Rightarrow> digest_type \<Rightarrow>
    (chain_exception, ('k, 's, 't) block_state option) result" where
  "get_block_header db i =
     (case fdb_root db of
        None \<Rightarrow> Inl Undefined_behaviour
      | Some r \<Rightarrow> if bhs_id r = i then Inr (Some r) else Inr (get_block db i))"

section \<open>Operations\<close>

definition fork_reset :: "('k, 's) block_header_state \<Rightarrow> ('k, 's, 't) fork_database" where
  "fork_reset root_bhs =
     (let r = state_with_block root_bhs None True in \<lparr>fdb_index = [], fdb_root = Some r, fdb_head = Some r\<rparr>)"

definition rollback_head_to_root :: "('k, 's, 't) fork_database \<Rightarrow> ('k, 's, 't) fork_database" where
  "rollback_head_to_root db = db\<lparr>fdb_index := map (validated_update (\<lambda>_. False)) (fdb_index db), fdb_head := fdb_root db\<rparr>"

text \<open>What \<^verbatim>\<open>add\<close> checks before it inserts.\<close>

definition fork_add_checks :: "('k, 's, 't) block_state option \<Rightarrow> bool \<Rightarrow>
    (block_timestamp_type \<Rightarrow> digest_type set \<Rightarrow> digest_type list \<Rightarrow> (chain_exception, unit) result) \<Rightarrow>
    ('k, 's, 't) fork_database \<Rightarrow> (chain_exception, ('k, 's, 't) block_state) result" where
  "fork_add_checks m do_validate validator db =
     rbind (eos_assert (fdb_root db \<noteq> None) Fork_database_exception) (\<lambda>_.
     case m of
       None \<Rightarrow> Inl Fork_database_exception
     | Some n \<Rightarrow>
         rbind (get_block_header db (prev_id n)) (\<lambda>prev_bh.
         case prev_bh of
           None \<Rightarrow> Inl Unlinkable_block_exception
         | Some p \<Rightarrow>
             rbind (if do_validate then
                      rethrow_as Fork_database_exception
                        (if exts_count protocol_feature_activation_id (header_exts n) > 0 then
                           rbind (exts_activation (header_exts n)) (\<lambda>ds.
                           validator (bh_timestamp (bhs_header n)) (activated_protocol_features p) ds)
                         else Inr ())
                    else Inr ()) (\<lambda>_. Inr n)))"

text \<open>Inserting fails when the id is present; the ordered index then has no equal key either.\<close>

definition fork_add_impl :: "('k, 's, 't) block_state option \<Rightarrow> bool \<Rightarrow> bool \<Rightarrow>
    (block_timestamp_type \<Rightarrow> digest_type set \<Rightarrow> digest_type list \<Rightarrow> (chain_exception, unit) result) \<Rightarrow>
    ('k, 's, 't) fork_database \<Rightarrow> ('k, 's, 't) fork_result" where
  "fork_add_impl m ignore_duplicate do_validate validator db =
     (case fork_add_checks m do_validate validator db of
        Inl e \<Rightarrow> (db, Inl e)
      | Inr n \<Rightarrow>
          if get_block db (bhs_id n) \<noteq> None then
            (db, if ignore_duplicate then Inr () else Inl Fork_database_exception)
          else
            let db' = db\<lparr>fdb_index := fdb_index db @ [n]\<rparr> in
            case by_lib_begin (fdb_index db') of
              None \<Rightarrow> (db', Inl Undefined_behaviour)
            | Some candidate \<Rightarrow> (if validated candidate then db'\<lparr>fdb_head := Some candidate\<rparr> else db', Inr ()))"

definition fork_add :: "('k, 's, 't) block_state option \<Rightarrow> bool \<Rightarrow> ('k, 's, 't) fork_database \<Rightarrow> ('k, 's, 't) fork_result" where
  "fork_add n ignore_duplicate db = fork_add_impl n ignore_duplicate False (\<lambda>_ _ _. Inr ()) db"

text \<open>\<^verbatim>\<open>lower_bound( false )\<close> is the first block that is not validated.\<close>

definition pending_head :: "('k, 's, 't) fork_database \<Rightarrow> (chain_exception, ('k, 's, 't) block_state option) result" where
  "pending_head db =
     (case find (\<lambda>b. \<not> validated b) (by_lib_order (fdb_index db)) of
        None \<Rightarrow> Inr (fdb_head db)
      | Some b \<Rightarrow>
          (case fdb_head db of
             None \<Rightarrow> Inl Undefined_behaviour
           | Some h \<Rightarrow> Inr (if first_preferred b h then Some b else Some h)))"





text \<open>
  \<^verbatim>\<open>fetch_branch_from\<close>: the higher of the two blocks is walked down to the number of the other one, where the root
  takes part; then both are walked down until they have the same previous block.
\<close>

definition get_block_or_root :: "('k, 's, 't) fork_database \<Rightarrow> ('k, 's, 't) block_state \<Rightarrow> digest_type \<Rightarrow> ('k, 's, 't) block_state option" where
  "get_block_or_root db r i = (if i = bhs_id r then Some r else get_block db i)"

fun walk_down :: "nat \<Rightarrow> ('k, 's, 't) fork_database \<Rightarrow> ('k, 's, 't) block_state \<Rightarrow> u32 \<Rightarrow> ('k, 's, 't) block_state \<Rightarrow>
    ('k, 's, 't) block_state list \<Rightarrow>
    (chain_exception, ('k, 's, 't) block_state \<times> ('k, 's, 't) block_state list) result option" where
  "walk_down n db r bn b result =
     (if block_num b > bn then
        (case n of
           0 \<Rightarrow> None
         | Suc n' \<Rightarrow>
             (case get_block_or_root db r (prev_id b) of
                None \<Rightarrow> Some (Inl Fork_db_block_not_found)
              | Some b' \<Rightarrow> walk_down n' db r bn b' (result @ [b])))
      else Some (Inr (b, result)))"

fun walk_both :: "nat \<Rightarrow> ('k, 's, 't) fork_database \<Rightarrow> ('k, 's, 't) block_state \<Rightarrow> ('k, 's, 't) block_state \<Rightarrow>
    ('k, 's, 't) block_state list \<Rightarrow> ('k, 's, 't) block_state list \<Rightarrow>
    (chain_exception, ('k, 's, 't) block_state list \<times> ('k, 's, 't) block_state list) result option" where
  "walk_both n db b1 b2 result1 result2 =
     (if prev_id b1 \<noteq> prev_id b2 then
        (case n of
           0 \<Rightarrow> None
         | Suc n' \<Rightarrow>
             (case (get_block db (prev_id b1), get_block db (prev_id b2)) of
                (Some b1', Some b2') \<Rightarrow> walk_both n' db b1' b2' (result1 @ [b1]) (result2 @ [b2])
              | _ \<Rightarrow> Some (Inl Fork_db_block_not_found)))
      else Some (Inr (result1 @ [b1], result2 @ [b2])))"

definition fetch_branch_from :: "('k, 's, 't) fork_database \<Rightarrow> digest_type \<Rightarrow> digest_type \<Rightarrow>
    (chain_exception, ('k, 's, 't) block_state list \<times> ('k, 's, 't) block_state list) result option" where
  "fetch_branch_from db first second =
     (let fuel = Suc (length (fdb_index db)) in
      case fdb_root db of
        None \<Rightarrow> Some (Inl Undefined_behaviour)
      | Some r \<Rightarrow>
          (case (get_block_or_root db r first, get_block_or_root db r second) of
             (Some b1, Some b2) \<Rightarrow>
               (case walk_down fuel db r (block_num b2) b1 [] of
                  None \<Rightarrow> None
                | Some (Inl e) \<Rightarrow> Some (Inl e)
                | Some (Inr (b1, result1)) \<Rightarrow>
                    (case walk_down fuel db r (block_num b1) b2 [] of
                       None \<Rightarrow> None
                     | Some (Inl e) \<Rightarrow> Some (Inl e)
                     | Some (Inr (b2, result2)) \<Rightarrow>
                         if bhs_id b1 = bhs_id b2 then Some (Inr (result1, result2))
                         else walk_both fuel db b1 b2 result1 result2))
           | _ \<Rightarrow> Some (Inl Fork_db_block_not_found)))"

text \<open>\<^verbatim>\<open>remove_fork\<close> collects the descendants of a block in a queue and erases them.\<close>

fun remove_loop :: "nat \<Rightarrow> ('k, 's, 't) fork_database \<Rightarrow> digest_type \<Rightarrow> nat \<Rightarrow> digest_type list \<Rightarrow>
    (chain_exception, digest_type list) result option" where
  "remove_loop n db head_id i remove_queue =
     (if i < length remove_queue then
        (case n of
           0 \<Rightarrow> None
         | Suc n' \<Rightarrow>
             if remove_queue ! i = head_id then Some (Inl Fork_database_exception)
             else remove_loop n' db head_id (Suc i)
                    (remove_queue @ map bhs_id (filter (\<lambda>b. prev_id b = remove_queue ! i) (fdb_index db))))
      else Some (Inr remove_queue))"

definition remove_fork :: "digest_type \<Rightarrow> ('k, 's, 't) fork_database \<Rightarrow> ('k, 's, 't) fork_result option" where
  "remove_fork i db =
     (case fdb_head db of
        None \<Rightarrow> Some (db, Inl Undefined_behaviour)
      | Some h \<Rightarrow>
          (case remove_loop (Suc (length (fdb_index db))) db (bhs_id h) 0 [i] of
             None \<Rightarrow> None
           | Some (Inl e) \<Rightarrow> Some (db, Inl e)
           | Some (Inr remove_queue) \<Rightarrow>
               Some (db\<lparr>fdb_index := filter (\<lambda>b. bhs_id b \<notin> set remove_queue) (fdb_index db)\<rparr>, Inr ())))"

text \<open>
  \<^verbatim>\<open>advance_root\<close> collects the ids of the ancestors of the new root, erases the new root alone, and removes the
  forks at its ancestors one by one. When one of them cannot be removed, the changes made so far stay.
\<close>

fun ancestors_loop :: "nat \<Rightarrow> ('k, 's, 't) fork_database \<Rightarrow> digest_type \<Rightarrow> ('k, 's, 't) block_state \<Rightarrow> digest_type list \<Rightarrow>
    (chain_exception, digest_type list) result option" where
  "ancestors_loop 0 db root_id b blocks_to_remove = None"
| "ancestors_loop (Suc n) db root_id b blocks_to_remove =
     (case get_block db (prev_id b) of
        Some b' \<Rightarrow> ancestors_loop n db root_id b' (blocks_to_remove @ [prev_id b])
      | None \<Rightarrow>
          if prev_id b = root_id then Some (Inr (blocks_to_remove @ [prev_id b]))
          else Some (Inl Fork_database_exception))"

fun remove_forks :: "digest_type list \<Rightarrow> ('k, 's, 't) fork_database \<Rightarrow> ('k, 's, 't) fork_result option" where
  "remove_forks [] db = Some (db, Inr ())"
| "remove_forks (i # is) db =
     (case remove_fork i db of
        None \<Rightarrow> None
      | Some (db', Inl e) \<Rightarrow> Some (db', Inl e)
      | Some (db', Inr _) \<Rightarrow> remove_forks is db')"

definition advance_root :: "digest_type \<Rightarrow> ('k, 's, 't) fork_database \<Rightarrow> ('k, 's, 't) fork_result option" where
  "advance_root i db =
     (case fdb_root db of
        None \<Rightarrow> Some (db, Inl Fork_database_exception)
      | Some r \<Rightarrow>
          (case get_block db i of
             None \<Rightarrow> Some (db, Inl Fork_database_exception)
           | Some new_root \<Rightarrow>
               if \<not> validated new_root then Some (db, Inl Fork_database_exception)
               else
                 (case ancestors_loop (length (fdb_index db)) db (bhs_id r) new_root [] of
                    None \<Rightarrow> None
                  | Some (Inl e) \<Rightarrow> Some (db, Inl e)
                  | Some (Inr blocks_to_remove) \<Rightarrow>
                      (case remove_forks blocks_to_remove (db\<lparr>fdb_index := filter (\<lambda>b. bhs_id b \<noteq> i) (fdb_index db)\<rparr>) of
                         None \<Rightarrow> None
                       | Some (db', Inl e) \<Rightarrow> Some (db', Inl e)
                       | Some (db', Inr _) \<Rightarrow> Some (db'\<lparr>fdb_root := Some new_root\<rparr>, Inr ())))))"

definition is_head_block :: "('k, 's, 't) fork_database \<Rightarrow> digest_type \<Rightarrow> (chain_exception, bool) result" where
  "is_head_block db i =
     (case fdb_head db of None \<Rightarrow> Inl Undefined_behaviour | Some h \<Rightarrow> Inr (block h \<noteq> None \<and> bhs_id h = i))"

definition remove_head :: "digest_type \<Rightarrow> ('k, 's, 't) fork_database \<Rightarrow> ('k, 's, 't) fork_result" where
  "remove_head i db =
     (case rbind (is_head_block db i) (\<lambda>b. eos_assert b Fork_database_exception) of
        Inl e \<Rightarrow> (db, Inl e)
      | Inr _ \<Rightarrow>
          let idx = filter (\<lambda>b. bhs_id b \<noteq> i) (fdb_index db) in
          (db\<lparr>fdb_index := idx,
              fdb_head := (case by_lib_begin idx of
                             None \<Rightarrow> fdb_root db
                           | Some candidate \<Rightarrow> if validated candidate then Some candidate else fdb_root db)\<rparr>, Inr ()))"

definition mark_valid :: "('k, 's, 't) block_state \<Rightarrow> ('k, 's, 't) fork_database \<Rightarrow> ('k, 's, 't) fork_result" where
  "mark_valid h db =
     (if validated h then (db, Inr ())
      else if get_block db (bhs_id h) = None then (db, Inl Fork_database_exception)
      else
        let db' = db\<lparr>fdb_index := map (\<lambda>b. if bhs_id b = bhs_id h then b\<lparr>validated := True\<rparr> else b) (fdb_index db)\<rparr> in
        case (by_lib_begin (fdb_index db'), fdb_head db) of
          (Some candidate, Some head) \<Rightarrow>
            (if first_preferred candidate head then db'\<lparr>fdb_head := Some candidate\<rparr> else db', Inr ())
        | _ \<Rightarrow> (db', Inl Undefined_behaviour))"

section \<open>The tree of blocks\<close>

definition same_tree :: "('k, 's, 't) block_state \<Rightarrow> ('k, 's, 't) block_state list \<Rightarrow> bool" where
  "same_tree r bs \<longleftrightarrow> distinct (map bhs_id bs) \<and> bhs_id r \<notin> bhs_id ` set bs \<and>
     (\<forall>b \<in> set bs. \<exists>p \<in> insert r (set bs). bhs_id p = prev_id b \<and> unat (block_num b) = Suc (unat (block_num p)))"

definition fork_ok :: "('k, 's, 't) fork_database \<Rightarrow> bool" where
  "fork_ok db \<longleftrightarrow>
     (\<exists>r h. fdb_root db = Some r \<and> fdb_head db = Some h \<and> same_tree r (fdb_index db) \<and>
        (h = r \<or> h \<in> set (fdb_index db) \<and> validated h) \<and>
        (\<forall>b \<in> set (fdb_index db). validated b \<longrightarrow> \<not> first_preferred b h))"

fun chain :: "('k, 's, 't) fork_database \<Rightarrow> digest_type \<Rightarrow> ('k, 's, 't) block_state list \<Rightarrow> digest_type \<Rightarrow> bool" where
  "chain db x [] c \<longleftrightarrow> x = c"
| "chain db x (b # l) c \<longleftrightarrow> get_block db x = Some b \<and> chain db (prev_id b) l c"

lemma find_id: "distinct (map bhs_id bs) \<Longrightarrow> find (\<lambda>b. bhs_id b = i) bs = Some b \<longleftrightarrow> b \<in> set bs \<and> bhs_id b = i"
  by (induction bs) (auto simp: image_iff)

lemma get_block_iff: "same_tree r (fdb_index db) \<Longrightarrow> get_block db i = Some b \<longleftrightarrow> b \<in> set (fdb_index db) \<and> bhs_id b = i"
  by (simp add: get_block_def find_id same_tree_def)

lemma get_block_None: "get_block db i = None \<longleftrightarrow> i \<notin> bhs_id ` set (fdb_index db)"
  by (auto simp: get_block_def find_None_iff)

lemma same_tree_prev:
  assumes "same_tree r (fdb_index db)" "b \<in> set (fdb_index db)"
  obtains (root) "prev_id b = bhs_id r" "unat (block_num b) = Suc (unat (block_num r))"
    | (block) p where "get_block db (prev_id b) = Some p" "unat (block_num b) = Suc (unat (block_num p))"
proof -
  obtain p where p: "p \<in> insert r (set (fdb_index db))" "bhs_id p = prev_id b" "unat (block_num b) = Suc (unat (block_num p))"
    using assms by (auto simp: same_tree_def)
  show ?thesis
  proof (cases "p = r")
    case True
    then show ?thesis using p root by simp
  next
    case False
    with p assms(1) have "get_block db (prev_id b) = Some p" by (simp add: get_block_iff)
    with p(3) show ?thesis by (rule block [rotated])
  qed
qed

lemma get_root_block: "same_tree r (fdb_index db) \<Longrightarrow> get_block db (bhs_id r) = None"
  by (simp add: get_block_None same_tree_def)

lemma chain_exists:
  assumes "same_tree r (fdb_index db)" "get_block db x = Some b"
  shows "\<exists>l. chain db x (b # l) (bhs_id r)"
  using assms(2)
proof (induction "unat (block_num b)" arbitrary: b x rule: less_induct)
  case less
  then have b: "b \<in> set (fdb_index db)" using assms(1) by (simp add: get_block_iff)
  from assms(1) b show ?case
  proof (cases rule: same_tree_prev)
    case root
    then show ?thesis using less.prems by (intro exI [of _ "[]"]) simp
  next
    case (block p)
    with less.hyps [of p] obtain l where "chain db (prev_id b) (p # l) (bhs_id r)" by auto
    then show ?thesis using less.prems by (intro exI [of _ "p # l"]) simp
  qed
qed

lemma chain_sorted:
  assumes "same_tree r (fdb_index db)" "chain db x l c"
  shows "set l \<subseteq> set (fdb_index db) \<and> sorted_wrt (\<lambda>a b. unat (block_num b) < unat (block_num a)) l"
  using assms(2)
proof (induction l arbitrary: x)
  case (Cons b l)
  then have b: "b \<in> set (fdb_index db)" and l: "chain db (prev_id b) l c" using assms(1) by (auto simp: get_block_iff)
  note IH = Cons.IH [OF l]
  have "unat (block_num b') < unat (block_num b)" if "b' \<in> set l" for b'
  proof (cases l)
    case (Cons p l')
    then have p: "get_block db (prev_id b) = Some p" using l by simp
    from assms(1) b have "unat (block_num p) < unat (block_num b)"
      using p get_root_block [OF assms(1)] by (cases rule: same_tree_prev) auto
    with that IH Cons show ?thesis by auto
  qed (use that in simp)
  with b IH show ?case by simp
qed simp

lemma chain_length:
  assumes "same_tree r (fdb_index db)" "chain db x l c"
  shows "length l \<le> length (fdb_index db)"
proof -
  note s = chain_sorted [OF assms]
  then have "distinct l" by (auto simp: sorted_wrt_iff_nth_less distinct_conv_nth) (metis less_irrefl nat_neq_iff)
  then have "length l = card (set l)" by (simp add: distinct_card)
  also have "\<dots> \<le> card (set (fdb_index db))" using s by (intro card_mono) auto
  also have "\<dots> \<le> length (fdb_index db)" by (rule card_length)
  finally show ?thesis .
qed



section \<open>The best block\<close>

lemma numeric_max_minus_le: "numeric_max - x \<le> numeric_max - (y :: u32) \<longleftrightarrow> y \<le> x"
  using unat_lt_32 [of x] unat_lt_32 [of y]
  by (simp add: word_le_nat_alt unat_sub unat_numeric_max) linarith

lemma numeric_max_minus_eq: "numeric_max - x = numeric_max - (y :: u32) \<longleftrightarrow> x = y"
  by (metis numeric_max_minus_le order.antisym order.refl)

lemma by_lib_begin_Some:
  assumes "by_lib_begin bs = Some c"
  shows "c \<in> set bs" "b \<in> set bs \<Longrightarrow> by_lib_key c \<le> by_lib_key b"
proof -
  obtain cs where cs: "sort_key by_lib_key bs = c # cs"
    using assms by (auto simp: by_lib_begin_def by_lib_order_def split: list.splits)
  have set: "set bs = insert c (set cs)" using cs by (metis list.simps(15) set_sort)
  then show "c \<in> set bs" by simp
  have "sorted (map by_lib_key (c # cs))" using sorted_sort_key [of by_lib_key bs] unfolding cs .
  then show "b \<in> set bs \<Longrightarrow> by_lib_key c \<le> by_lib_key b" unfolding set by auto
qed

lemma by_lib_begin_None: "by_lib_begin bs = None \<longleftrightarrow> bs = []"
  by (auto simp: by_lib_begin_def by_lib_order_def split: list.splits) (metis length_0_conv length_sort)

lemma by_lib_key_preferred:
  assumes "by_lib_key c \<le> by_lib_key b" "validated b"
  shows "validated c" "\<not> first_preferred b c"
proof -
  show v: "validated c" using assms by (auto simp: by_lib_key_def less_eq_prod_def)
  have "(numeric_max - dpos_irreversible_blocknum c, numeric_max - block_num c)
      \<le> (numeric_max - dpos_irreversible_blocknum b, numeric_max - block_num b)"
    using assms v by (auto simp: by_lib_key_def less_eq_prod_def)
  then show "\<not> first_preferred b c"
    by (auto simp: first_preferred_def less_prod_def less_eq_prod_def numeric_max_minus_le numeric_max_minus_eq not_less less_le)
qed

lemma first_preferred_trans: "first_preferred a b \<Longrightarrow> \<not> first_preferred c b \<Longrightarrow> first_preferred a c"
  unfolding first_preferred_def by (meson less_le_trans not_less)

section \<open>Operations keep the tree\<close>

lemma fork_okI:
  "fdb_root db = Some r \<Longrightarrow> fdb_head db = Some h \<Longrightarrow> same_tree r (fdb_index db) \<Longrightarrow>
     h = r \<or> h \<in> set (fdb_index db) \<and> validated h \<Longrightarrow>
     (\<And>b. b \<in> set (fdb_index db) \<Longrightarrow> validated b \<Longrightarrow> \<not> first_preferred b h) \<Longrightarrow> fork_ok db"
  by (auto simp: fork_ok_def)

lemma fork_ok_reset: "fork_ok (fork_reset s)"
  by (simp add: fork_reset_def fork_ok_def same_tree_def Let_def)

lemma same_tree_map:
  assumes "same_tree r bs" "\<And>b. bhs_id (f b) = bhs_id b \<and> block_num (f b) = block_num b \<and> bhs_header (f b) = bhs_header b"
  shows "same_tree r (map f bs)"
  using assms unfolding same_tree_def prev_id_def by (auto simp: comp_def image_iff)

lemma fork_ok_rollback: "fork_ok db \<Longrightarrow> fork_ok (rollback_head_to_root db)"
  by (auto simp: rollback_head_to_root_def fork_ok_def intro!: same_tree_map)

lemma same_tree_add:
  assumes "same_tree r bs" "bhs_id n \<notin> bhs_id ` set bs" "bhs_id n \<noteq> bhs_id r"
    "p \<in> insert r (set bs)" "bhs_id p = prev_id n" "unat (block_num n) = Suc (unat (block_num p))"
  shows "same_tree r (bs @ [n])"
  using assms unfolding same_tree_def by (auto simp: image_iff)

lemma best_ok:
  assumes "fdb_root db = Some r" "same_tree r (fdb_index db)"
    "by_lib_begin (fdb_index db) = Some c" "validated c" "fdb_head db = Some c"
  shows "fork_ok db"
  using assms by_lib_begin_Some [OF assms(3)] by_lib_key_preferred by (intro fork_okI [of _ r c]) blast+

lemma not_validated:
  "by_lib_begin bs = Some c \<Longrightarrow> \<not> validated c \<Longrightarrow> b \<in> set bs \<Longrightarrow> \<not> validated b"
  using by_lib_begin_Some by_lib_key_preferred(1) by blast

text \<open>What the states of blocks and the hashes give: a new block has the number after its previous one and a new id.\<close>

definition extends_tree :: "('k, 's, 't) block_state \<Rightarrow> ('k, 's, 't) fork_database \<Rightarrow> bool" where
  "extends_tree n db \<longleftrightarrow>
     (\<forall>r. fdb_root db = Some r \<longrightarrow> bhs_id n \<noteq> bhs_id r) \<and>
     (\<forall>p. get_block_header db (prev_id n) = Inr (Some p) \<longrightarrow> unat (block_num n) = Suc (unat (block_num p)))"

lemma fork_ok_add:
  assumes ok: "fork_ok db" and ext: "\<And>n. m = Some n \<Longrightarrow> extends_tree n db"
    and add: "fork_add_impl m dup v validator db = (db', res)"
  shows "fork_ok db'"
proof (cases "db' = db")
  case False
  obtain r h where rh: "fdb_root db = Some r" "fdb_head db = Some h" "same_tree r (fdb_index db)"
    "h = r \<or> h \<in> set (fdb_index db) \<and> validated h"
    "\<And>b. b \<in> set (fdb_index db) \<Longrightarrow> validated b \<Longrightarrow> \<not> first_preferred b h"
    using ok by (auto simp: fork_ok_def)
  obtain n where n: "fork_add_checks m v validator db = Inr n" "get_block db (bhs_id n) = None"
    using add False by (auto simp: fork_add_impl_def split: sum.splits if_splits)
  obtain c where c: "by_lib_begin (fdb_index db @ [n]) = Some c"
    and db': "db' = (if validated c then db\<lparr>fdb_index := fdb_index db @ [n], fdb_head := Some c\<rparr>
      else db\<lparr>fdb_index := fdb_index db @ [n]\<rparr>)"
    using add n False by (auto simp: fork_add_impl_def Let_def by_lib_begin_None split: option.splits if_splits)
  obtain p where m: "m = Some n" and p: "get_block_header db (prev_id n) = Inr (Some p)"
    using n(1) by (auto simp: fork_add_checks_def result_simps split: option.splits)
  have pin: "p \<in> insert r (set (fdb_index db))" "bhs_id p = prev_id n"
    using p rh(1,3) by (auto simp: get_block_header_def get_block_iff split: if_splits)
  have tree: "same_tree r (fdb_index db @ [n])"
    using same_tree_add [OF rh(3) _ _ pin] n(2) ext [OF m] p rh(1)
    by (simp add: extends_tree_def get_block_None)
  show ?thesis
  proof (cases "validated c")
    case True
    with db' c tree rh(1) show ?thesis by (intro best_ok [of _ r c]) simp_all
  next
    case F: False
    with not_validated [OF c F] rh(4) have "h = r" by auto
    with F db' tree rh(1,2) not_validated [OF c F] show ?thesis by (intro fork_okI [of _ r h]) auto
  qed
qed (use ok in simp)

lemma fork_ok_mark_valid:
  assumes ok: "fork_ok db" and mv: "mark_valid x db = (db', res)"
  shows "fork_ok db'"
proof (cases "db' = db")
  case False
  obtain r h where rh: "fdb_root db = Some r" "fdb_head db = Some h" "same_tree r (fdb_index db)"
    "h = r \<or> h \<in> set (fdb_index db) \<and> validated h"
    using ok by (auto simp: fork_ok_def)
  let ?f = "\<lambda>b. if bhs_id b = bhs_id x then b\<lparr>validated := True\<rparr> else b"
  have gb: "get_block db (bhs_id x) \<noteq> None" "\<not> validated x"
    using mv False by (auto simp: mark_valid_def split: if_splits)
  define idx where "idx = map ?f (fdb_index db)"
  obtain c where c: "by_lib_begin idx = Some c"
    and db': "db' = (if first_preferred c h then db\<lparr>fdb_index := idx, fdb_head := Some c\<rparr>
      else db\<lparr>fdb_index := idx\<rparr>)"
    using mv False gb rh(2)
    unfolding idx_def
    by (auto simp: mark_valid_def Let_def by_lib_begin_None get_block_def split: option.splits if_splits)
  have tree: "same_tree r idx" unfolding idx_def using rh(3) by (rule same_tree_map) simp
  obtain b where b: "b \<in> set (fdb_index db)" "bhs_id b = bhs_id x" using gb(1) rh(3) by (auto simp: get_block_iff)
  then have "?f b \<in> set idx" "validated (?f b)" by (auto simp: idx_def)
  then have vc: "validated c" using by_lib_begin_Some(2) [OF c] by_lib_key_preferred(1) by blast
  show ?thesis
  proof (cases "first_preferred c h")
    case True
    with db' c tree rh(1) vc show ?thesis by (intro best_ok [of _ r c]) simp_all
  next
    case F: False
    have "h = r \<or> h \<in> set idx \<and> validated h"
    proof (cases "h = r")
      case False
      with rh(4) have h: "h \<in> set (fdb_index db)" "validated h" by auto
      have "?f h \<in> set idx" unfolding idx_def set_map using h(1) by (rule imageI)
      moreover have "?f h = h" using h(2) by simp
      ultimately show ?thesis using h(2) by (simp only: simp_thms)
    qed simp
    moreover have "\<not> first_preferred b h" if "b \<in> set idx" "validated b" for b
      using that by_lib_begin_Some(2) [OF c that(1)] by_lib_key_preferred(2) first_preferred_trans F by blast
    ultimately show ?thesis using F db' tree rh(1,2) by (intro fork_okI [of _ r h]) auto
  qed
qed (use ok in simp)

section \<open>Descendants\<close>

inductive descends :: "('k, 's, 't) block_state list \<Rightarrow> digest_type \<Rightarrow> digest_type \<Rightarrow> bool" for bs i where
  self: "descends bs i i"
| child: "descends bs i (prev_id b) \<Longrightarrow> b \<in> set bs \<Longrightarrow> descends bs i (bhs_id b)"

inductive_cases descendsE: "descends bs i j"

definition acyclic_ids :: "('k, 's, 't) block_state list \<Rightarrow> bool" where
  "acyclic_ids bs \<longleftrightarrow> distinct (map bhs_id bs) \<and> (\<exists>num :: digest_type \<Rightarrow> nat. \<forall>b \<in> set bs. num (prev_id b) < num (bhs_id b))"

lemma acyclic_ids_filter: "acyclic_ids bs \<Longrightarrow> acyclic_ids (filter P bs)"
  by (auto simp: acyclic_ids_def distinct_map_filter)

lemma distinct_idD: "distinct (map bhs_id bs) \<Longrightarrow> b \<in> set bs \<Longrightarrow> b' \<in> set bs \<Longrightarrow> bhs_id b = bhs_id b' \<Longrightarrow> b = b'"
  by (metis distinct_map inj_onD)

lemma same_tree_acyclic:
  assumes "same_tree r bs"
  shows "acyclic_ids bs"
proof -
  define num where "num x = unat (block_num (if x = bhs_id r then r else the (find (\<lambda>b. bhs_id b = x) bs)))" for x
  have d: "distinct (map bhs_id bs)" using assms by (simp add: same_tree_def)
  have num: "num (bhs_id p) = unat (block_num p)" if "p \<in> insert r (set bs)" for p
  proof (cases "p = r")
    case False
    with that have p: "p \<in> set bs" by simp
    then have "find (\<lambda>b. bhs_id b = bhs_id p) bs = Some p" using d by (simp add: find_id)
    moreover have "bhs_id p \<noteq> bhs_id r" using assms imageI [OF p, of bhs_id] by (metis same_tree_def)
    ultimately show ?thesis by (simp add: num_def)
  qed (simp add: num_def)
  have "num (prev_id b) < num (bhs_id b)" if b: "b \<in> set bs" for b
  proof -
    obtain p where "p \<in> insert r (set bs)" "bhs_id p = prev_id b" "unat (block_num b) = Suc (unat (block_num p))"
      using assms b by (auto simp: same_tree_def)
    with num [of p] num [of b] b show ?thesis by simp
  qed
  with d show ?thesis by (auto simp: acyclic_ids_def)
qed

lemma descends_mono: "descends bs i j \<Longrightarrow> set bs \<subseteq> set bs' \<Longrightarrow> descends bs' i j"
  by (induction rule: descends.induct) (auto intro: descends.intros)

lemma descends_num:
  fixes num :: "digest_type \<Rightarrow> nat"
  assumes "descends bs i j" "\<forall>b \<in> set bs. num (prev_id b) < num (bhs_id b)"
  shows "num i \<le> num j"
  using assms by (induction rule: descends.induct) force+

lemma descends_not_prev:
  assumes "acyclic_ids bs" "b \<in> set bs" "descends bs i (prev_id b)"
  shows "bhs_id b \<noteq> i"
  using assms descends_num unfolding acyclic_ids_def by (metis not_le)

lemma descends_prev:
  assumes "distinct (map bhs_id bs)" "b \<in> set bs" "descends bs i (bhs_id b)" "bhs_id b \<noteq> i"
  shows "descends bs i (prev_id b)"
  using assms(3)
proof (cases rule: descends.cases)
  case (child b')
  then show ?thesis using distinct_idD [OF assms(1,2) child(3)] by simp
qed (use assms(4) in simp)

section \<open>Removing forks\<close>

definition queue_ok :: "('k, 's, 't) block_state list \<Rightarrow> digest_type \<Rightarrow> digest_type \<Rightarrow> nat \<Rightarrow> digest_type list \<Rightarrow> bool" where
  "queue_ok bs i hd_id k q \<longleftrightarrow> k \<le> length q \<and> i \<in> set q \<and> distinct q \<and> (\<forall>x \<in> set q. descends bs i x) \<and>
     (\<forall>x \<in> set q. x = i \<or> (\<exists>b \<in> set bs. bhs_id b = x \<and> prev_id b \<in> set (take k q))) \<and>
     (\<forall>b \<in> set bs. prev_id b \<in> set (take k q) \<longrightarrow> bhs_id b \<in> set q) \<and> hd_id \<notin> set (take k q)"

lemma queue_step:
  assumes ac: "acyclic_ids bs" and q: "queue_ok bs i hd_id k q" and k: "k < length q" "q ! k \<noteq> hd_id"
  shows "queue_ok bs i hd_id (Suc k) (q @ map bhs_id (filter (\<lambda>b. prev_id b = q ! k) bs))"
proof -
  let ?cs = "map bhs_id (filter (\<lambda>b. prev_id b = q ! k) bs)"
  have d: "distinct (map bhs_id bs)" using ac by (simp add: acyclic_ids_def)
  have tk: "take (Suc k) (q @ ?cs) = take k q @ [q ! k]" using k by (simp add: take_Suc_conv_app_nth)
  have nk: "q ! k \<notin> set (take k q)"
    using q k by (auto simp: queue_ok_def in_set_conv_nth nth_eq_iff_index_eq)
  have new: "bhs_id b \<notin> set q" if "b \<in> set bs" "prev_id b = q ! k" for b
  proof
    assume "bhs_id b \<in> set q"
    moreover have "bhs_id b \<noteq> i"
      using descends_not_prev [OF ac that(1), of i] q k(1) that(2) by (simp add: queue_ok_def)
    ultimately obtain b' where b': "b' \<in> set bs" "bhs_id b' = bhs_id b" "prev_id b' \<in> set (take k q)"
      using q by (auto simp: queue_ok_def)
    have "b' = b" using d b'(1) that(1) b'(2) by (rule distinct_idD)
    with b'(3) that(2) nk show False by simp
  qed
  have "distinct (q @ ?cs)"
    using q d new by (auto simp: queue_ok_def distinct_map_filter)
  moreover have "descends bs i (bhs_id b)" if "b \<in> set bs" "prev_id b = q ! k" for b
    using that q k(1) by (intro descends.child) (simp_all add: queue_ok_def)
  ultimately show ?thesis
    using q k unfolding queue_ok_def tk by auto
qed

lemma queue_length:
  assumes "queue_ok bs i hd_id k q"
  shows "length q \<le> Suc (length bs)"
proof -
  have "length q = card (set q)" using assms by (simp add: queue_ok_def distinct_card)
  also have "\<dots> \<le> card (insert i (set (map bhs_id bs)))"
    using assms by (intro card_mono) (auto simp: queue_ok_def)
  also have "\<dots> \<le> Suc (card (set (map bhs_id bs)))" by (simp add: card_insert_le_m1 card_insert_if)
  also have "\<dots> \<le> Suc (length bs)" using card_length [of "map bhs_id bs"] by simp
  finally show ?thesis .
qed

lemma queue_done:
  assumes "queue_ok bs i hd_id (length q) q"
  shows "set q = {j. descends bs i j}" "hd_id \<notin> set q"
proof -
  have "j \<in> set q" if "descends bs i j" for j
    using that assms by (induction rule: descends.induct) (auto simp: queue_ok_def)
  then show "set q = {j. descends bs i j}" using assms by (auto simp: queue_ok_def)
  show "hd_id \<notin> set q" using assms by (simp add: queue_ok_def)
qed

lemma remove_loop_spec:
  assumes "acyclic_ids (fdb_index db)" "queue_ok (fdb_index db) i hd_id k q" "n = Suc (length (fdb_index db)) - k"
  shows "\<exists>res. remove_loop n db hd_id k q = Some res \<and>
    (case res of
       Inl e \<Rightarrow> e = Fork_database_exception \<and> descends (fdb_index db) i hd_id
     | Inr q' \<Rightarrow> set q' = {j. descends (fdb_index db) i j} \<and> hd_id \<notin> set q')"
  using assms(2,3)
proof (induction n arbitrary: k q)
  case 0
  then have "k = length q" using queue_length [OF 0(1)] by (simp add: queue_ok_def)
  with 0 queue_done [of "fdb_index db" i hd_id q] show ?case by simp
next
  case (Suc n)
  show ?case
  proof (cases "k < length q")
    case True
    show ?thesis
    proof (cases "q ! k = hd_id")
      case hd: True
      have "descends (fdb_index db) i hd_id" using Suc.prems(1) True hd by (auto simp: queue_ok_def)
      with True hd show ?thesis by simp
    next
      case False
      have "n = Suc (length (fdb_index db)) - Suc k" using Suc.prems(2) by simp
      from Suc.IH [OF queue_step [OF assms(1) Suc.prems(1) True False] this] True False
      show ?thesis by simp
    qed
  next
    case False
    then have "k = length q" using Suc.prems(1) by (simp add: queue_ok_def)
    with Suc.prems(1) queue_done [of "fdb_index db" i hd_id q] False show ?thesis by simp
  qed
qed

lemma remove_fork_spec:
  assumes ac: "acyclic_ids (fdb_index db)" and h: "fdb_head db = Some h"
  shows "remove_fork i db =
    Some (if descends (fdb_index db) i (bhs_id h) then (db, Inl Fork_database_exception)
          else (db\<lparr>fdb_index := filter (\<lambda>b. \<not> descends (fdb_index db) i (bhs_id b)) (fdb_index db)\<rparr>, Inr ()))"
proof -
  have "queue_ok (fdb_index db) i (bhs_id h) 0 [i]"
    by (simp add: queue_ok_def descends.self)
  from remove_loop_spec [OF ac this refl] obtain res where
    res: "remove_loop (Suc (length (fdb_index db))) db (bhs_id h) 0 [i] = Some res"
    "case res of
       Inl e \<Rightarrow> e = Fork_database_exception \<and> descends (fdb_index db) i (bhs_id h)
     | Inr q' \<Rightarrow> set q' = {j. descends (fdb_index db) i j} \<and> bhs_id h \<notin> set q'"
    by auto
  then show ?thesis
    using h by (cases res) (auto simp: remove_fork_def simp del: remove_loop.simps)
qed

lemma descends_filter:
  assumes "descends bs a' x" "\<not> descends bs a x"
  shows "descends (filter (\<lambda>b. \<not> descends bs a (bhs_id b)) bs) a' x"
  using assms
proof (induction rule: descends.induct)
  case (child b)
  then have "\<not> descends bs a (prev_id b)" by (blast intro: descends.child)
  with child show ?case by (intro descends.child) simp_all
qed (rule descends.self)

lemma remove_forks_spec:
  assumes "acyclic_ids (fdb_index db)" "fdb_head db = Some h" "\<forall>a \<in> set as. \<not> descends (fdb_index db) a (bhs_id h)"
  shows "remove_forks as db =
    Some (db\<lparr>fdb_index := filter (\<lambda>b. \<forall>a \<in> set as. \<not> descends (fdb_index db) a (bhs_id b)) (fdb_index db)\<rparr>, Inr ())"
  using assms
proof (induction as arbitrary: db)
  case (Cons a as)
  define bs bs' where "bs = fdb_index db" and "bs' = filter (\<lambda>b. \<not> descends bs a (bhs_id b)) bs"
  define db1 where "db1 = db\<lparr>fdb_index := bs'\<rparr>"
  have sub: "descends bs' x y \<Longrightarrow> descends bs x y" for x y by (rule descends_mono) (auto simp: bs'_def)
  have keep: "descends bs x y \<Longrightarrow> \<not> descends bs a y \<Longrightarrow> descends bs' x y" for x y
    unfolding bs'_def by (rule descends_filter)
  have idx: "fdb_index db1 = bs'" "fdb_head db1 = Some h" using Cons.prems(2) by (simp_all add: db1_def)
  have "remove_forks as db1 = Some (db1\<lparr>fdb_index := filter (\<lambda>b. \<forall>a \<in> set as. \<not> descends (fdb_index db1) a (bhs_id b)) (fdb_index db1)\<rparr>, Inr ())"
  proof (rule Cons.IH)
    show "acyclic_ids (fdb_index db1)" unfolding idx bs'_def bs_def by (rule acyclic_ids_filter) (rule Cons.prems(1))
    have "\<forall>a \<in> set as. \<not> descends bs a (bhs_id h)" using Cons.prems(3) by (simp add: bs_def)
    then show "\<forall>a \<in> set as. \<not> descends (fdb_index db1) a (bhs_id h)" unfolding idx using sub by blast
  qed (rule idx(2))
  then have "remove_forks as db1 = Some (db\<lparr>fdb_index := filter (\<lambda>b. \<forall>a \<in> set as. \<not> descends bs' a (bhs_id b)) bs'\<rparr>, Inr ())"
    unfolding idx(1) by (simp add: db1_def)
  moreover have "filter (\<lambda>b. \<forall>a \<in> set as. \<not> descends bs' a (bhs_id b)) bs' =
      filter (\<lambda>b. \<forall>a \<in> set (a # as). \<not> descends bs a (bhs_id b)) bs"
  proof -
    have "filter (\<lambda>b. \<forall>a \<in> set as. \<not> descends bs' a (bhs_id b)) bs' =
        filter (\<lambda>b. \<not> descends bs a (bhs_id b) \<and> (\<forall>a \<in> set as. \<not> descends bs' a (bhs_id b))) bs"
      by (simp only: bs'_def filter_filter)
    also have "\<dots> = filter (\<lambda>b. \<forall>a \<in> set (a # as). \<not> descends bs a (bhs_id b)) bs"
      using sub keep by (intro filter_cong [OF refl]) auto
    finally show ?thesis .
  qed
  moreover have "remove_fork a db = Some (db1, Inr ())"
    using remove_fork_spec [OF Cons.prems(1,2), of a] Cons.prems(3) by (simp add: db1_def bs'_def bs_def)
  ultimately show ?case by (simp add: bs_def)
qed simp

lemma fork_ok_remove_fork:
  assumes ok: "fork_ok db" and rem: "remove_fork i db = Some (db', res)"
  shows "fork_ok db'"
proof (cases "db' = db")
  case False
  obtain r h where rh: "fdb_root db = Some r" "fdb_head db = Some h" "same_tree r (fdb_index db)"
    "h = r \<or> h \<in> set (fdb_index db) \<and> validated h"
    "\<And>b. b \<in> set (fdb_index db) \<Longrightarrow> validated b \<Longrightarrow> \<not> first_preferred b h"
    using ok by (auto simp: fork_ok_def)
  let ?P = "\<lambda>b. \<not> descends (fdb_index db) i (bhs_id b)"
  have spec: "?P h" "db' = db\<lparr>fdb_index := filter ?P (fdb_index db)\<rparr>"
    using rem False unfolding remove_fork_spec [OF same_tree_acyclic [OF rh(3)] rh(2)] by (auto split: if_splits)
  have "same_tree r (filter ?P (fdb_index db))"
    unfolding same_tree_def
  proof (intro conjI ballI)
    show "distinct (map bhs_id (filter ?P (fdb_index db)))" "bhs_id r \<notin> bhs_id ` set (filter ?P (fdb_index db))"
      using rh(3) by (auto simp: same_tree_def distinct_map_filter)
    fix b assume b: "b \<in> set (filter ?P (fdb_index db))"
    then obtain p where p: "p \<in> insert r (set (fdb_index db))" "bhs_id p = prev_id b" "unat (block_num b) = Suc (unat (block_num p))"
      using rh(3) by (auto simp: same_tree_def)
    have "?P p" using b p(2) descends.child [of "fdb_index db" i b] by auto
    with p show "\<exists>p \<in> insert r (set (filter ?P (fdb_index db))). bhs_id p = prev_id b \<and> unat (block_num b) = Suc (unat (block_num p))"
      by auto
  qed
  with rh spec show ?thesis by (intro fork_okI [of _ r h]) auto
qed (use ok in simp)

section \<open>Advancing the root\<close>

lemma ancestors_loop_chain:
  "chain db (prev_id b) l root_id \<Longrightarrow> get_block db root_id = None \<Longrightarrow> length l < n \<Longrightarrow>
     ancestors_loop n db root_id b acc = Some (Inr (acc @ map prev_id (b # l)))"
proof (induction l arbitrary: b n acc)
  case Nil
  then show ?case by (cases n) auto
next
  case (Cons b' l)
  then obtain n' where "n = Suc n'" by (cases n) auto
  with Cons show ?case by simp
qed

lemma chain_last_prev: "chain db x l c \<Longrightarrow> l \<noteq> [] \<Longrightarrow> prev_id (last l) = c"
  by (induction l arbitrary: x) auto

lemma chain_num:
  fixes num :: "digest_type \<Rightarrow> nat"
  assumes "same_tree r (fdb_index db)" "\<forall>b \<in> set (fdb_index db). num (prev_id b) < num (bhs_id b)"
  shows "chain db x l c \<Longrightarrow> y \<in> set l \<Longrightarrow> num (prev_id y) < num x"
proof (induction l arbitrary: x)
  case (Cons b l)
  then have b: "b \<in> set (fdb_index db)" "bhs_id b = x" and l: "chain db (prev_id b) l c"
    using assms(1) by (auto simp: get_block_iff)
  then have "num (prev_id b) < num x" using assms(2) by auto
  with Cons.IH [OF l] Cons.prems(2) show ?case by (metis less_trans set_ConsD)
qed simp

lemma descends_root:
  assumes "same_tree r bs" "descends bs i (bhs_id r)"
  shows "i = bhs_id r"
  using assms(2)
proof (cases rule: descends.cases)
  case (child b)
  then have "bhs_id r \<in> bhs_id ` set bs" by auto
  with assms(1) show ?thesis by (simp add: same_tree_def)
qed simp

text \<open>What is left of the tree above a block, when it and the forks at its ancestors are removed.\<close>

lemma not_below_ancestor:
  fixes bs :: "('k, 's, 't) block_state list"
  assumes d: "distinct (map bhs_id bs)" and a: "\<not> descends bs i a" "descends (filter (\<lambda>b. bhs_id b \<noteq> i) bs) a y"
  shows "\<not> descends bs i y"
  using a(2)
proof (induction rule: descends.induct)
  case (child b)
  then show ?case using descends_prev [OF d, of b i] by auto
qed (rule a(1))

lemma below_root:
  assumes tree: "same_tree r bs" and b: "b \<in> set bs" "\<not> descends bs i (bhs_id b)"
  shows "descends (filter (\<lambda>b. bhs_id b \<noteq> i) bs) (bhs_id r) (bhs_id b)"
  using b
proof (induction "unat (block_num b)" arbitrary: b rule: less_induct)
  case less
  let ?bs = "filter (\<lambda>b. bhs_id b \<noteq> i) bs"
  obtain p where p: "p \<in> insert r (set bs)" "bhs_id p = prev_id b" "unat (block_num b) = Suc (unat (block_num p))"
    using tree less.prems(1) by (auto simp: same_tree_def)
  have np: "\<not> descends bs i (bhs_id p)" using less.prems p(2) descends.child [of bs i b] by auto
  have "descends ?bs (bhs_id r) (prev_id b)"
  proof (cases "p = r")
    case True
    then show ?thesis using p(2) descends.self by metis
  next
    case False
    with p less.hyps [of p] np show ?thesis by auto
  qed
  moreover have "b \<in> set ?bs" using less.prems descends.self by auto
  ultimately show ?case by (rule descends.child)
qed

lemma advance_root_spec:
  assumes root: "fdb_root db = Some r" and head: "fdb_head db = Some h" and tree: "same_tree r (fdb_index db)"
    and b: "get_block db i = Some b" "validated b" and below: "descends (fdb_index db) i (bhs_id h)"
  shows "advance_root i db =
    Some (db\<lparr>fdb_index := filter (\<lambda>x. descends (fdb_index db) i (bhs_id x) \<and> bhs_id x \<noteq> i) (fdb_index db), fdb_root := Some b\<rparr>, Inr ())"
proof -
  define bs where "bs = fdb_index db"
  define bs1 where "bs1 = filter (\<lambda>b. bhs_id b \<noteq> i) bs"
  have d: "distinct (map bhs_id bs)" using tree by (simp add: same_tree_def bs_def)
  obtain l where l: "chain db i (b # l) (bhs_id r)" using chain_exists [OF tree b(1)] by auto
  have anc: "ancestors_loop (length bs) db (bhs_id r) b [] = Some (Inr (map prev_id (b # l)))"
    using ancestors_loop_chain [of db b l "bhs_id r" "length bs" "[]"] l get_root_block [OF tree] chain_length [OF tree l]
    by (simp add: bs_def)
  have above: "\<not> descends bs i a" if "a \<in> set (map prev_id (b # l))" for a
  proof
    assume desc: "descends bs i a"
    obtain num :: "digest_type \<Rightarrow> nat" where num: "\<forall>b \<in> set bs. num (prev_id b) < num (bhs_id b)"
      using same_tree_acyclic [OF tree] by (auto simp: acyclic_ids_def bs_def)
    have "num a < num i" using chain_num [OF tree num [unfolded bs_def] l] that by auto
    with descends_num [OF desc num] show False by simp
  qed
  have rin: "bhs_id r \<in> set (map prev_id (b # l))"
    using chain_last_prev [OF l] last_in_set [of "b # l"] by (metis image_eqI list.distinct(1) list.set_map)
  define db1 where "db1 = db\<lparr>fdb_index := bs1\<rparr>"
  have db1: "fdb_index db1 = bs1" "fdb_head db1 = Some h" using head by (simp_all add: db1_def)
  have "\<forall>a \<in> set (map prev_id (b # l)). \<not> descends bs1 a (bhs_id h)"
    using not_below_ancestor [OF d above] below unfolding bs1_def bs_def by blast
  moreover have "acyclic_ids bs1"
    unfolding bs1_def bs_def by (rule acyclic_ids_filter) (rule same_tree_acyclic [OF tree])
  ultimately have rem: "remove_forks (map prev_id (b # l)) db1 =
      Some (db1\<lparr>fdb_index := filter (\<lambda>x. \<forall>a \<in> set (map prev_id (b # l)). \<not> descends bs1 a (bhs_id x)) bs1\<rparr>, Inr ())"
    using remove_forks_spec [of db1 h "map prev_id (b # l)"] db1 by simp
  have "filter (\<lambda>x. \<forall>a \<in> set (map prev_id (b # l)). \<not> descends bs1 a (bhs_id x)) bs1 =
      filter (\<lambda>x. descends bs i (bhs_id x) \<and> bhs_id x \<noteq> i) bs"
    unfolding bs1_def filter_filter
  proof (rule filter_cong [OF refl])
    fix x assume x: "x \<in> set bs"
    show "bhs_id x \<noteq> i \<and> (\<forall>a \<in> set (map prev_id (b # l)). \<not> descends (filter (\<lambda>b. bhs_id b \<noteq> i) bs) a (bhs_id x)) \<longleftrightarrow>
        descends bs i (bhs_id x) \<and> bhs_id x \<noteq> i"
      using below_root [OF tree [folded bs_def] x, of i] not_below_ancestor [OF d above] rin by blast
  qed
  with rem show ?thesis
    using root b anc by (simp add: advance_root_def bs_def [symmetric] bs1_def [symmetric] db1_def)
qed

lemma same_tree_id_ne: "same_tree r bs \<Longrightarrow> b \<in> set bs \<Longrightarrow> bhs_id b \<noteq> bhs_id r"
  by (metis imageI same_tree_def)

lemma fork_ok_advance_root:
  assumes ok: "fork_ok db" and b: "get_block db i = Some b" "validated b"
    and h: "fdb_head db = Some h" "descends (fdb_index db) i (bhs_id h)"
    and adv: "advance_root i db = Some (db', res)"
  shows "fork_ok db'"
proof -
  define bs where "bs = fdb_index db"
  obtain r where rh: "fdb_root db = Some r" "same_tree r bs" "h = r \<or> h \<in> set bs \<and> validated h"
    "\<And>b. b \<in> set bs \<Longrightarrow> validated b \<Longrightarrow> \<not> first_preferred b h"
    using ok h by (auto simp: fork_ok_def bs_def)
  have bi: "b \<in> set bs" "bhs_id b = i" using b rh(2) by (auto simp: get_block_iff bs_def)
  define bs' where "bs' = filter (\<lambda>x. descends bs i (bhs_id x) \<and> bhs_id x \<noteq> i) bs"
  have db': "db' = db\<lparr>fdb_index := bs', fdb_root := Some b\<rparr>"
    using adv advance_root_spec [OF rh(1) h(1) rh(2) [unfolded bs_def] b h(2)] by (simp add: bs'_def bs_def)
  have d: "distinct (map bhs_id bs)" using rh(2) by (simp add: same_tree_def)
  have ir: "i \<noteq> bhs_id r" using same_tree_id_ne [OF rh(2) bi(1)] bi(2) by simp
  have hr: "h \<noteq> r" using descends_root [OF rh(2), of i] h(2) ir by (auto simp: bs_def)
  then have hin: "h \<in> set bs" "validated h" using rh(3) by auto
  have "same_tree b bs'"
    unfolding same_tree_def
  proof (intro conjI ballI)
    show "distinct (map bhs_id bs')" "bhs_id b \<notin> bhs_id ` set bs'"
      using d bi(2) by (auto simp: bs'_def distinct_map_filter)
    fix x assume x: "x \<in> set bs'"
    then have x': "x \<in> set bs" "descends bs i (prev_id x)"
      using descends_prev [OF d, of x i] by (auto simp: bs'_def)
    then obtain p where p: "p \<in> insert r (set bs)" "bhs_id p = prev_id x" "unat (block_num x) = Suc (unat (block_num p))"
      using rh(2) by (auto simp: same_tree_def)
    have "p \<noteq> r" using descends_root [OF rh(2), of i] x'(2) p(2) ir by auto
    then have "p = b \<or> p \<in> set bs'"
      using p x'(2) bi distinct_idD [OF d, of p b] by (auto simp: bs'_def)
    with p show "\<exists>p \<in> insert b (set bs'). bhs_id p = prev_id x \<and> unat (block_num x) = Suc (unat (block_num p))" by auto
  qed
  moreover have "h = b \<or> h \<in> set bs' \<and> validated h"
    using hin h(2) bi distinct_idD [OF d hin(1) bi(1)] by (auto simp: bs'_def bs_def)
  ultimately show ?thesis
    using db' h(1) rh(4) by (intro fork_okI [of _ b h]) (auto simp: bs'_def)
qed

lemma fork_ok_remove_head:
  assumes ok: "fork_ok db" and leaf: "\<forall>b \<in> set (fdb_index db). prev_id b \<noteq> i"
    and rem: "remove_head i db = (db', res)"
  shows "fork_ok db'"
proof (cases "db' = db")
  case False
  define bs where "bs = filter (\<lambda>b. bhs_id b \<noteq> i) (fdb_index db)"
  obtain r where r: "fdb_root db = Some r" "same_tree r (fdb_index db)" using ok by (auto simp: fork_ok_def)
  have db': "db' = db\<lparr>fdb_index := bs, fdb_head := (case by_lib_begin bs of
      None \<Rightarrow> fdb_root db | Some c \<Rightarrow> if validated c then Some c else fdb_root db)\<rparr>"
    using rem False by (auto simp: remove_head_def bs_def Let_def split: sum.splits)
  have tree: "same_tree r bs"
    using r(2) leaf unfolding same_tree_def bs_def
    by (auto simp: distinct_map_filter) (metis (mono_tags, lifting))+
  show ?thesis
  proof (cases "by_lib_begin bs")
    case None
    with db' tree r(1) show ?thesis by (intro fork_okI [of _ r r]) (auto simp: by_lib_begin_None)
  next
    case (Some c)
    show ?thesis
    proof (cases "validated c")
      case True
      with Some db' tree r(1) show ?thesis by (intro best_ok [of _ r c]) auto
    next
      case F: False
      with Some db' tree r(1) not_validated [OF Some F] show ?thesis by (intro fork_okI [of _ r r]) auto
    qed
  qed
qed (use ok in simp)

section \<open>Reachable databases\<close>

text \<open>
  The steps of a node: added blocks carry the number after the one of their previous block and a new id, the root
  advances to an ancestor of the head or the head itself, and a head is removed only when no block is built on it.
\<close>

inductive fork_reachable :: "('k, 's, 't) fork_database \<Rightarrow> bool" where
  reset: "fork_reachable (fork_reset s)"
| rollback: "fork_reachable db \<Longrightarrow> fork_reachable (rollback_head_to_root db)"
| add: "fork_reachable db \<Longrightarrow> extends_tree n db \<Longrightarrow> fork_add_impl (Some n) dup v validator db = (db', res) \<Longrightarrow> fork_reachable db'"
| mark: "fork_reachable db \<Longrightarrow> mark_valid b db = (db', res) \<Longrightarrow> fork_reachable db'"
| remove: "fork_reachable db \<Longrightarrow> remove_fork i db = Some (db', res) \<Longrightarrow> fork_reachable db'"
| remove_head: "fork_reachable db \<Longrightarrow> \<forall>b \<in> set (fdb_index db). prev_id b \<noteq> i \<Longrightarrow>
    Fork_Database.remove_head i db = (db', res) \<Longrightarrow> fork_reachable db'"
| advance: "fork_reachable db \<Longrightarrow> get_block db i = Some b \<Longrightarrow> validated b \<Longrightarrow> fdb_head db = Some h \<Longrightarrow>
    descends (fdb_index db) i (bhs_id h) \<Longrightarrow> advance_root i db = Some (db', res) \<Longrightarrow> fork_reachable db'"

lemma fork_reachable_ok: "fork_reachable db \<Longrightarrow> fork_ok db"
proof (induction rule: fork_reachable.induct)
  case (add db n dup v validator db' res)
  from add.IH _ add.hyps(3) show ?case by (rule fork_ok_add) (use add.hyps(2) in simp)
next
  case (mark db b db' res)
  from mark.IH mark.hyps(2) show ?case by (rule fork_ok_mark_valid)
next
  case (remove db i db' res)
  from remove.IH remove.hyps(2) show ?case by (rule fork_ok_remove_fork)
next
  case (remove_head db i db' res)
  from remove_head.IH remove_head.hyps(2,3) show ?case by (rule fork_ok_remove_head)
next
  case (advance db i b h db' res)
  from advance.IH advance.hyps(2-6) show ?case by (rule fork_ok_advance_root)
qed (auto intro: fork_ok_reset fork_ok_rollback)

section \<open>Branches to a common ancestor\<close>

lemma get_block_or_root_iff:
  "same_tree r (fdb_index db) \<Longrightarrow>
     get_block_or_root db r i = Some b \<longleftrightarrow> b \<in> insert r (set (fdb_index db)) \<and> bhs_id b = i"
  using same_tree_id_ne [of r "fdb_index db"] by (auto simp: get_block_or_root_def get_block_iff)

lemma tree_parent:
  fixes db :: "('k, 's, 't) fork_database"
  assumes "same_tree r (fdb_index db)" "b \<in> set (fdb_index db)"
  obtains p where "get_block_or_root db r (prev_id b) = Some p" "unat (block_num b) = Suc (unat (block_num p))"
    "p \<in> insert r (set (fdb_index db))"
  using assms by (metis get_block_or_root_iff same_tree_def)

lemma chain_append: "chain db x (l @ l') c \<longleftrightarrow> (\<exists>y. chain db x l y \<and> chain db y l' c)"
  by (induction l arbitrary: x) auto

lemma chain_root_num:
  assumes tree: "same_tree r (fdb_index db)"
  shows "chain db x l (bhs_id r) \<Longrightarrow> get_block_or_root db r x = Some b \<Longrightarrow>
     unat (block_num b) = unat (block_num r) + length l"
proof (induction l arbitrary: x b)
  case Nil
  then show ?case by (simp add: get_block_or_root_def)
next
  case (Cons b' l)
  then have x: "get_block db x = Some b'" "x \<noteq> bhs_id r" using get_root_block [OF tree] by auto
  with Cons.prems have "b' = b" by (simp add: get_block_or_root_def)
  with x Cons.prems tree have "b \<in> set (fdb_index db)" and l: "chain db (prev_id b) l (bhs_id r)"
    by (simp_all add: get_block_iff)
  then obtain p where "get_block_or_root db r (prev_id b) = Some p" "unat (block_num b) = Suc (unat (block_num p))"
    using tree by (auto elim: tree_parent)
  with Cons.IH [OF l] show ?case by simp
qed

lemma tree_num:
  fixes db :: "('k, 's, 't) fork_database"
  assumes tree: "same_tree r (fdb_index db)" and b: "b \<in> insert r (set (fdb_index db))"
  shows "unat (block_num r) \<le> unat (block_num b)" "unat (block_num b) - unat (block_num r) \<le> length (fdb_index db)"
    "unat (block_num b) = unat (block_num r) \<Longrightarrow> b = r"
proof -
  have "\<exists>l :: ('k, 's, 't) block_state list. unat (block_num b) = unat (block_num r) + length l \<and> length l \<le> length (fdb_index db) \<and> (l = [] \<longrightarrow> b = r)"
  proof (cases "b = r")
    case True
    then show ?thesis by (intro exI [of _ "[]"]) simp
  next
    case False
    with b have g: "get_block db (bhs_id b) = Some b" "get_block_or_root db r (bhs_id b) = Some b"
      using tree by (auto simp: get_block_iff get_block_or_root_iff)
    then obtain l where l: "chain db (bhs_id b) (b # l) (bhs_id r)" using chain_exists [OF tree] by blast
    show ?thesis
      using chain_root_num [OF tree l g(2)] chain_length [OF tree l] by (intro exI [of _ "b # l"]) simp
  qed
  then show "unat (block_num r) \<le> unat (block_num b)" "unat (block_num b) - unat (block_num r) \<le> length (fdb_index db)"
    "unat (block_num b) = unat (block_num r) \<Longrightarrow> b = r"
    by auto
qed

declare walk_down.simps [simp del] walk_both.simps [simp del]

lemma walk_down_spec:
  assumes tree: "same_tree r (fdb_index db)" and bn: "block_num r \<le> bn"
  shows "b \<in> insert r (set (fdb_index db)) \<Longrightarrow> unat (block_num b) - unat bn \<le> n \<Longrightarrow>
    \<exists>b' l. walk_down n db r bn b acc = Some (Inr (b', acc @ l)) \<and> chain db (bhs_id b) l (bhs_id b') \<and>
      b' \<in> insert r (set (fdb_index db)) \<and> unat (block_num b') = min (unat (block_num b)) (unat bn) \<and>
      (\<forall>x \<in> set l. unat bn < unat (block_num x)) \<and> (l = [] \<longrightarrow> b' = b)"
proof (induction n arbitrary: b acc)
  case 0
  then show ?case
    by (subst walk_down.simps) (auto simp: word_less_nat_alt intro!: exI [of _ b] exI [of _ "[]"])
next
  case (Suc n)
  show ?case
  proof (cases "block_num b > bn")
    case True
    with bn have "b \<noteq> r" by auto
    with Suc.prems(1) have b: "b \<in> set (fdb_index db)" by simp
    obtain p where p: "get_block_or_root db r (prev_id b) = Some p" "unat (block_num b) = Suc (unat (block_num p))"
      "p \<in> insert r (set (fdb_index db))"
      using tree b by (rule tree_parent)
    have "unat (block_num p) - unat bn \<le> n" using Suc.prems(2) p(2) by simp
    from Suc.IH [OF p(3) this, of "acc @ [b]"] obtain b' l where
      w: "walk_down n db r bn p (acc @ [b]) = Some (Inr (b', acc @ b # l))" "chain db (bhs_id p) l (bhs_id b')"
      "b' \<in> insert r (set (fdb_index db))" "unat (block_num b') = min (unat (block_num p)) (unat bn)"
      "\<forall>x \<in> set l. unat bn < unat (block_num x)"
      by auto
    have "bhs_id p = prev_id b" using p(1) tree by (simp add: get_block_or_root_iff)
    then have "chain db (bhs_id b) (b # l) (bhs_id b')"
      using w(2) b tree by (simp add: get_block_iff)
    moreover have "unat (block_num b') = min (unat (block_num b)) (unat bn)"
      using w(4) p(2) True by (simp add: word_less_nat_alt)
    ultimately show ?thesis
      using w(1,3,5) True p(1)
      by (subst walk_down.simps) (auto simp: word_less_nat_alt intro!: exI [of _ b'] exI [of _ "b # l"])
  next
    case False
    with Suc.prems(1) show ?thesis
      by (subst walk_down.simps) (auto simp: word_less_nat_alt intro!: exI [of _ b] exI [of _ "[]"])
  qed
qed

lemma walk_both_spec:
  assumes tree: "same_tree r (fdb_index db)"
  shows "b1 \<in> set (fdb_index db) \<Longrightarrow> b2 \<in> set (fdb_index db) \<Longrightarrow> b1 \<noteq> b2 \<Longrightarrow>
    unat (block_num b1) = unat (block_num b2) \<Longrightarrow> unat (block_num b1) - unat (block_num r) \<le> n \<Longrightarrow>
    \<exists>l1 l2 c. walk_both n db b1 b2 acc1 acc2 = Some (Inr (acc1 @ l1, acc2 @ l2)) \<and>
      chain db (bhs_id b1) l1 c \<and> chain db (bhs_id b2) l2 c \<and> set l1 \<inter> set l2 = {} \<and>
      (\<forall>x \<in> set l1 \<union> set l2. unat (block_num x) \<le> unat (block_num b1))"
proof (induction n arbitrary: b1 b2 acc1 acc2)
  case 0
  then show ?case using tree_num [OF tree, of b1] same_tree_id_ne [OF tree, of b1] by auto
next
  case (Suc n)
  have g: "get_block db (bhs_id b1) = Some b1" "get_block db (bhs_id b2) = Some b2"
    using Suc.prems tree by (simp_all add: get_block_iff)
  show ?case
  proof (cases "prev_id b1 = prev_id b2")
    case True
    with g Suc.prems show ?thesis
      by (subst walk_both.simps) (auto intro!: exI [of _ "[b1]"] exI [of _ "[b2]"])
  next
    case False
    obtain p1 p2 where p: "get_block_or_root db r (prev_id b1) = Some p1" "unat (block_num b1) = Suc (unat (block_num p1))"
      "p1 \<in> insert r (set (fdb_index db))" "get_block_or_root db r (prev_id b2) = Some p2"
      "unat (block_num b2) = Suc (unat (block_num p2))" "p2 \<in> insert r (set (fdb_index db))"
      using tree Suc.prems(1,2) by (metis tree_parent)
    have ids: "bhs_id p1 = prev_id b1" "bhs_id p2 = prev_id b2" using p tree by (simp_all add: get_block_or_root_iff)
    have num: "unat (block_num p1) = unat (block_num p2)" using p Suc.prems(4) by simp
    have "p1 \<noteq> r" "p2 \<noteq> r" "p1 \<noteq> p2"
      using tree_num(3) [OF tree p(3)] tree_num(3) [OF tree p(6)] num ids False by auto
    with p have pin: "p1 \<in> set (fdb_index db)" "p2 \<in> set (fdb_index db)" by simp_all
    then have gp: "get_block db (prev_id b1) = Some p1" "get_block db (prev_id b2) = Some p2"
      using ids tree by (simp_all add: get_block_iff)
    have "unat (block_num p1) - unat (block_num r) \<le> n" using Suc.prems(5) p(2) by simp
    from Suc.IH [OF pin \<open>p1 \<noteq> p2\<close> num this, of "acc1 @ [b1]" "acc2 @ [b2]"] obtain l1 l2 c where
      w: "walk_both n db p1 p2 (acc1 @ [b1]) (acc2 @ [b2]) = Some (Inr (acc1 @ b1 # l1, acc2 @ b2 # l2))"
      "chain db (bhs_id p1) l1 c" "chain db (bhs_id p2) l2 c" "set l1 \<inter> set l2 = {}"
      "\<forall>x \<in> set l1 \<union> set l2. unat (block_num x) \<le> unat (block_num p1)"
      by auto
    have fresh: "b1 \<notin> set l2" "b2 \<notin> set l1" using w(5) p(2,5) num by force+
    show ?thesis
    proof (intro exI conjI)
      show "walk_both (Suc n) db b1 b2 acc1 acc2 = Some (Inr (acc1 @ (b1 # l1), acc2 @ (b2 # l2)))"
        using w(1) gp False by (subst walk_both.simps) simp
      show "chain db (bhs_id b1) (b1 # l1) c" "chain db (bhs_id b2) (b2 # l2) c" using g ids w(2,3) by simp_all
      show "set (b1 # l1) \<inter> set (b2 # l2) = {}" using w(4) fresh Suc.prems(3) by auto
      show "\<forall>x \<in> set (b1 # l1) \<union> set (b2 # l2). unat (block_num x) \<le> unat (block_num b1)"
        using w(5) p(2) Suc.prems(4) by (auto intro: le_SucI)
    qed
  qed
qed

lemma chain_end:
  fixes db :: "('k, 's, 't) fork_database"
  assumes tree: "same_tree r (fdb_index db)"
  shows "chain db x l c \<Longrightarrow> get_block_or_root db r x \<noteq> None \<Longrightarrow> get_block_or_root db r c \<noteq> None"
proof (induction l arbitrary: x)
  case (Cons b l)
  then have "b \<in> set (fdb_index db)" using tree by (simp add: get_block_iff)
  with tree obtain p where "get_block_or_root db r (prev_id b) = Some p" by (auto elim: tree_parent)
  with Cons show ?case by auto
qed simp

lemma chain_below:
  assumes "same_tree r (fdb_index db)" "chain db x l c" "get_block_or_root db r x = Some b"
  shows "\<forall>y \<in> set l. unat (block_num y) \<le> unat (block_num b)"
proof (cases l)
  case (Cons a l')
  then have "get_block db x = Some a" using assms(2) by simp
  moreover have "get_block db (bhs_id r) = None" using assms(1) by (rule get_root_block)
  ultimately have "b = a" using assms(3) by (auto simp: get_block_or_root_def split: if_splits)
  with chain_sorted [OF assms(1,2)] Cons show ?thesis by auto
qed simp

lemma fetch_branch_from_spec:
  fixes db :: "('k, 's, 't) fork_database"
  assumes tree: "same_tree r (fdb_index db)" and root: "fdb_root db = Some r"
    and f: "get_block_or_root db r f = Some b1" and s: "get_block_or_root db r s = Some b2"
  shows "\<exists>l1 l2 c. fetch_branch_from db f s = Some (Inr (l1, l2)) \<and> chain db f l1 c \<and> chain db s l2 c \<and>
     set l1 \<inter> set l2 = {} \<and> get_block_or_root db r c \<noteq> None"
proof -
  define N where "N = Suc (length (fdb_index db))"
  have b: "b1 \<in> insert r (set (fdb_index db))" "bhs_id b1 = f" "b2 \<in> insert r (set (fdb_index db))" "bhs_id b2 = s"
    using f s tree by (simp_all add: get_block_or_root_iff)
  have fuel: "unat (block_num x) - unat (block_num y) \<le> N"
    if "x \<in> insert r (set (fdb_index db))" "y \<in> insert r (set (fdb_index db))" for x y
    using tree_num [OF tree that(1)] tree_num [OF tree that(2)] by (simp add: N_def)
  have lo: "block_num r \<le> block_num y" if "y \<in> insert r (set (fdb_index db))" for y
    using tree_num(1) [OF tree that] by (simp add: word_le_nat_alt)
  from walk_down_spec [OF tree lo [OF b(3)] b(1) fuel [OF b(1,3)], of "[]"] obtain b1' l1 where
    w1: "walk_down N db r (block_num b2) b1 [] = Some (Inr (b1', l1))" "chain db f l1 (bhs_id b1')"
    "b1' \<in> insert r (set (fdb_index db))" "unat (block_num b1') = min (unat (block_num b1)) (unat (block_num b2))"
    "\<forall>x \<in> set l1. unat (block_num b2) < unat (block_num x)"
    using b by auto
  from walk_down_spec [OF tree lo [OF w1(3)] b(3) fuel [OF b(3) w1(3)], of "[]"] obtain b2' l2 where
    w2: "walk_down N db r (block_num b1') b2 [] = Some (Inr (b2', l2))" "chain db s l2 (bhs_id b2')"
    "b2' \<in> insert r (set (fdb_index db))" "unat (block_num b2') = min (unat (block_num b2)) (unat (block_num b1'))"
    "\<forall>x \<in> set l2. unat (block_num b1') < unat (block_num x)" "l2 = [] \<longrightarrow> b2' = b2"
    using b by auto
  have le2: "\<forall>x \<in> set l2. unat (block_num x) \<le> unat (block_num b2)" using tree w2(2) s by (rule chain_below)
  have run: "fetch_branch_from db f s =
     (if bhs_id b1' = bhs_id b2' then Some (Inr (l1, l2)) else walk_both N db b1' b2' l1 l2)"
    using root f s w1(1) w2(1) by (simp add: fetch_branch_from_def N_def Let_def)
  have ends: "get_block_or_root db r c \<noteq> None" if "chain db f l c" for l c
    using chain_end [OF tree that] f by simp
  have dis: "set l1 \<inter> set l2 = {}" using w1(5) le2 by fastforce
  show ?thesis
  proof (cases "bhs_id b1' = bhs_id b2'")
    case True
    with run w1(2) w2(2) dis ends show ?thesis by auto
  next
    case False
    have num: "unat (block_num b1') = unat (block_num b2')" using w1(4) w2(4) by simp
    have idx: "b1' \<in> set (fdb_index db)" "b2' \<in> set (fdb_index db)"
      using tree_num(3) [OF tree w1(3)] tree_num(3) [OF tree w2(3)] num False w1(3) w2(3) by auto
    from walk_both_spec [OF tree idx _ num fuel, of l1 l2] False w1(3) obtain k1 k2 c where
      k: "walk_both N db b1' b2' l1 l2 = Some (Inr (l1 @ k1, l2 @ k2))" "chain db (bhs_id b1') k1 c"
      "chain db (bhs_id b2') k2 c" "set k1 \<inter> set k2 = {}"
      "\<forall>x \<in> set k1 \<union> set k2. unat (block_num x) \<le> unat (block_num b1')" by blast
    have c: "chain db f (l1 @ k1) c" "chain db s (l2 @ k2) c" using w1(2) w2(2) k(2,3) by (auto simp: chain_append)
    have "unat (block_num b1') \<le> unat (block_num b2)" using w1(4) by simp
    then have "set l1 \<inter> set k2 = {}" using w1(5) k(5) by (meson UnCI disjoint_iff leD le_trans)
    moreover have "set k1 \<inter> set l2 = {}" using w2(5) k(5) by (meson UnCI disjoint_iff leD)
    ultimately have "set (l1 @ k1) \<inter> set (l2 @ k2) = {}" using dis k(4) by auto
    with run False k(1) c ends show ?thesis by auto
  qed
qed

section \<open>A database with two branches\<close>

definition sample_fork_block :: "u32 \<Rightarrow> u64 \<Rightarrow> u64 \<Rightarrow> (nat, nat, unit) block_state" where
  "sample_fork_block n i p =
     state_with_block (sample_state\<lparr>block_num := n, bhs_id := digest_of i, bhs_header := sample_header 35 1 0 (digest_of p)\<rparr>) None False"

definition sample_fork_add :: "(nat, nat, unit) block_state \<Rightarrow> (nat, nat, unit) fork_database \<Rightarrow> (nat, nat, unit) fork_database" where
  "sample_fork_add b db = fst (fork_add_impl (Some b) False False (\<lambda>_ _ _. Inr ()) db)"

definition sample_fork :: "(nat, nat, unit) fork_database" where
  "sample_fork =
     sample_fork_add (sample_fork_block 3 5 4) (sample_fork_add (sample_fork_block 2 4 1)
       (fst (mark_valid (sample_fork_block 3 3 2) (sample_fork_add (sample_fork_block 3 3 2)
         (fst (mark_valid (sample_fork_block 2 2 1) (sample_fork_add (sample_fork_block 2 2 1) (fork_reset sample_state))))))))"

lemma extends_tree_code [code]:
  "extends_tree n db \<longleftrightarrow>
     (case fdb_root db of None \<Rightarrow> True | Some r \<Rightarrow> bhs_id n \<noteq> bhs_id r) \<and>
     (case get_block_header db (prev_id n) of
        Inr (Some p) \<Rightarrow> unat (block_num n) = Suc (unat (block_num p)) | _ \<Rightarrow> True)"
  by (auto simp: extends_tree_def split: option.splits sum.splits)

lemma sample_fork_add_reachable:
  "fork_reachable db \<Longrightarrow> extends_tree b db \<Longrightarrow> fork_reachable (sample_fork_add b db)"
  unfolding sample_fork_add_def by (metis fork_reachable.add prod.collapse)

lemma mark_valid_reachable: "fork_reachable db \<Longrightarrow> fork_reachable (fst (mark_valid b db))"
  by (metis fork_reachable.mark prod.collapse)

lemma sample_fork_reachable: "fork_reachable sample_fork"
  unfolding sample_fork_def
  by (intro sample_fork_add_reachable mark_valid_reachable fork_reachable.reset) code_simp+

section \<open>Properties of the fork database\<close>

text \<open>
  C12: every database a node reaches is a tree of blocks over its root, in which a block has the number after the one of
  its parent; its head is the root or a validated block of the index, and no validated block is preferred to it.
\<close>

theorem fork_head_best:
  assumes "fork_reachable db"
  shows "\<exists>r h. fdb_root db = Some r \<and> fdb_head db = Some h \<and> distinct (map bhs_id (r # fdb_index db)) \<and>
     (\<forall>b \<in> set (fdb_index db). \<exists>p \<in> insert r (set (fdb_index db)).
        bhs_id p = prev_id b \<and> unat (block_num b) = Suc (unat (block_num p))) \<and>
     (h = r \<or> h \<in> set (fdb_index db) \<and> validated h) \<and>
     (\<forall>b \<in> set (fdb_index db). validated b \<longrightarrow> \<not> first_preferred b h)"
  using fork_reachable_ok [OF assms] by (simp add: fork_ok_def same_tree_def) blast

theorem fork_head_best_witness:
  "\<exists>h. fdb_head sample_fork = Some h \<and> bhs_id h = digest_of 3 \<and>
     (\<forall>b \<in> set (fdb_index sample_fork). validated b \<longrightarrow> \<not> first_preferred b h)"
proof -
  have "map_option bhs_id (fdb_head sample_fork) = Some (digest_of 3)" by code_simp
  with fork_head_best [OF sample_fork_reachable] show ?thesis by auto
qed

text \<open>
  C17: \<^verbatim>\<open>fetch_branch_from\<close> returns for any two blocks of a reachable database: the two branches lead through parents
  to the same block of the tree and have no block in common, so that block is their last common ancestor.
\<close>

theorem branches_to_common_ancestor:
  assumes "fork_reachable db" "fdb_root db = Some r"
    and "get_block_or_root db r f \<noteq> None" "get_block_or_root db r s \<noteq> None"
  shows "\<exists>l1 l2 c. fetch_branch_from db f s = Some (Inr (l1, l2)) \<and> chain db f l1 c \<and> chain db s l2 c \<and>
     set l1 \<inter> set l2 = {} \<and> get_block_or_root db r c \<noteq> None"
proof -
  have "same_tree r (fdb_index db)" using fork_reachable_ok [OF assms(1)] assms(2) by (auto simp: fork_ok_def)
  then show ?thesis using assms(2-4) fetch_branch_from_spec by blast
qed

theorem branches_to_common_ancestor_witness:
  "\<exists>l1 l2 c. fetch_branch_from sample_fork (digest_of 3) (digest_of 5) = Some (Inr (l1, l2)) \<and>
     chain sample_fork (digest_of 3) l1 c \<and> chain sample_fork (digest_of 5) l2 c \<and> set l1 \<inter> set l2 = {}"
proof -
  obtain r where r: "fdb_root sample_fork = Some r" using fork_reachable_ok [OF sample_fork_reachable] by (auto simp: fork_ok_def)
  have "get_block sample_fork (digest_of 3) \<noteq> None" "get_block sample_fork (digest_of 5) \<noteq> None" by code_simp+
  then have "get_block_or_root sample_fork r (digest_of 3) \<noteq> None" "get_block_or_root sample_fork r (digest_of 5) \<noteq> None"
    by (simp_all add: get_block_or_root_def)
  with branches_to_common_ancestor [OF sample_fork_reachable r] r show ?thesis by fastforce
qed



text \<open>
  C19: \<^verbatim>\<open>remove_fork\<close> on a reachable database removes exactly the block and the blocks built on it; if the head is one of
  them it throws and leaves the database as it was.
\<close>

theorem remove_fork_exact:
  assumes "fork_reachable db" "fdb_head db = Some h"
  shows "remove_fork i db =
    Some (if descends (fdb_index db) i (bhs_id h) then (db, Inl Fork_database_exception)
          else (db\<lparr>fdb_index := filter (\<lambda>b. \<not> descends (fdb_index db) i (bhs_id b)) (fdb_index db)\<rparr>, Inr ()))"
proof -
  obtain r where "same_tree r (fdb_index db)" using fork_reachable_ok [OF assms(1)] by (auto simp: fork_ok_def)
  then show ?thesis using remove_fork_spec [OF same_tree_acyclic assms(2)] by blast
qed

theorem remove_fork_exact_witness:
  "\<exists>h. fdb_head sample_fork = Some h \<and> remove_fork (digest_of 2) sample_fork =
    Some (if descends (fdb_index sample_fork) (digest_of 2) (bhs_id h) then (sample_fork, Inl Fork_database_exception)
          else (sample_fork\<lparr>fdb_index := filter (\<lambda>b. \<not> descends (fdb_index sample_fork) (digest_of 2) (bhs_id b)) (fdb_index sample_fork)\<rparr>, Inr ()))"
proof -
  obtain h where "fdb_head sample_fork = Some h" using fork_reachable_ok [OF sample_fork_reachable] by (auto simp: fork_ok_def)
  with remove_fork_exact [OF sample_fork_reachable] show ?thesis by blast
qed

text \<open>
  C18: \<^verbatim>\<open>advance_root\<close> to a validated block on the branch of the head makes it the root and keeps exactly the blocks
  built on it: every fork that does not contain the new root is gone.
\<close>

theorem advance_root_exact:
  assumes "fork_reachable db" "fdb_head db = Some h" "get_block db i = Some b" "validated b"
    and "descends (fdb_index db) i (bhs_id h)"
  shows "advance_root i db =
    Some (db\<lparr>fdb_index := filter (\<lambda>x. descends (fdb_index db) i (bhs_id x) \<and> bhs_id x \<noteq> i) (fdb_index db), fdb_root := Some b\<rparr>, Inr ())"
proof -
  obtain r where "fdb_root db = Some r" "same_tree r (fdb_index db)"
    using fork_reachable_ok [OF assms(1)] by (auto simp: fork_ok_def)
  then show ?thesis using advance_root_spec [OF _ assms(2) _ assms(3-5)] by blast
qed

theorem advance_root_exact_witness:
  "\<exists>b. get_block sample_fork (digest_of 3) = Some b \<and> (\<exists>db. advance_root (digest_of 3) sample_fork = Some (db, Inr ()) \<and> fdb_root db = Some b)"
proof -
  have e: "map_option bhs_id (fdb_head sample_fork) = Some (digest_of 3)"
    "map_option validated (get_block sample_fork (digest_of 3)) = Some True"
    by code_simp+
  then obtain h b where hb: "fdb_head sample_fork = Some h" "bhs_id h = digest_of 3"
    "get_block sample_fork (digest_of 3) = Some b" "validated b" by auto
  have "descends (fdb_index sample_fork) (digest_of 3) (bhs_id h)" using hb(2) descends.self by metis
  from advance_root_exact [OF sample_fork_reachable hb(1,3,4) this] hb(3) show ?thesis by simp
qed

end
