(* ===== verification/Authorization_Manager.thy ===== *)
theory Authorization_Manager
  imports Authority Names Ordered_Index
begin

text \<open>
  The permissions of the accounts and the links of actions to permissions (\<^verbatim>\<open>permission_object.hpp\<close>,
  \<^verbatim>\<open>permission_link_object.hpp\<close>) and the operations of \<^verbatim>\<open>authorization_manager.cpp\<close> on them. The three chainbase
  containers are lists of rows in the order of their ids, each with the id of the next row; a look-up by another unique
  key searches the rows, and creating a row fails when another row has the same key. The time, the number of supported
  key types, the depth limit and the activation of a protocol feature, which the code reads from the controller and the
  global state, are fields of \<open>auth_env\<close>; unpacking of the data of actions by fc is \<open>action_lib\<close>. The call-backs that
  check the deadline are left out.
\<close>

section \<open>Names\<close>

text \<open>The literal \<^verbatim>\<open>"..."_n\<close>.\<close>

definition name_literal :: "string \<Rightarrow> name" where
  "name_literal s = (case string_to_uint64_t s of Inl _ \<Rightarrow> 0 | Inr n \<Rightarrow> n)"

definition system_account_name :: name where "system_account_name = name_literal ''eosio''"
definition active_name :: name where "active_name = name_literal ''active''"
definition owner_name :: name where "owner_name = name_literal ''owner''"
definition eosio_any_name :: name where "eosio_any_name = name_literal ''eosio.any''"
definition eosio_code_name :: name where "eosio_code_name = name_literal ''eosio.code''"
definition updateauth_name :: name where "updateauth_name = name_literal ''updateauth''"
definition deleteauth_name :: name where "deleteauth_name = name_literal ''deleteauth''"
definition linkauth_name :: name where "linkauth_name = name_literal ''linkauth''"
definition unlinkauth_name :: name where "unlinkauth_name = name_literal ''unlinkauth''"

text \<open>The values of the names, by which they are computed with.\<close>

lemma name_values [code]:
  "system_account_name = 6138663577826885632"
  "active_name = 3617214756542218240"
  "owner_name = 12044502819693133824"
  "eosio_any_name = 6138663581382606848"
  "eosio_code_name = 6138663582462279680"
  "updateauth_name = 15371467950649982976"
  "deleteauth_name = 5378050746259030016"
  "linkauth_name = 10063015651234021376"
  "unlinkauth_name = 15340080295291076608"
  by code_simp+

section \<open>Rows\<close>

text \<open>Ids count the created rows of a container.\<close>

type_synonym oid = nat

record 'k permission_object =
  po_id :: oid
  usage_id :: oid
  parent :: oid
  po_owner :: account_name
  po_name :: permission_name
  last_updated :: time_point
  po_auth :: "'k authority"

record permission_link_object =
  link_account :: account_name
  link_code :: account_name
  message_type :: action_name
  required_permission :: permission_name

record 'k auth_db =
  permissions :: "(oid, 'k permission_object) index"
  next_permission :: oid
  usages :: "(oid, time_point) index"
  next_usage :: oid
  links :: "(oid, permission_link_object) index"
  next_link :: oid

record 'k auth_env =
  key_which :: "'k \<Rightarrow> u32"
  num_supported_key_types :: u32
  pending_block_time :: time_point
  max_authority_depth :: u16
  fix_linkauth_restriction :: bool

definition empty_authority :: "'k authority" where
  "empty_authority = \<lparr>threshold = 0, keys = [], accounts = [], waits = []\<rparr>"

definition empty_auth_db :: "'k auth_db" where
  "empty_auth_db = \<lparr>permissions = [], next_permission = 0, usages = [], next_usage = 0, links = [], next_link = 0\<rparr>"

text \<open>The look-ups in the index by owner and name, and in the index of the links by action.\<close>

definition find_by_owner :: "'k auth_db \<Rightarrow> account_name \<Rightarrow> permission_name \<Rightarrow> 'k permission_object option" where
  "find_by_owner db a n = find (\<lambda>p. po_owner p = a \<and> po_name p = n) (map snd (permissions db))"

definition find_link :: "'k auth_db \<Rightarrow> account_name \<Rightarrow> account_name \<Rightarrow> action_name \<Rightarrow> (oid \<times> permission_link_object) option" where
  "find_link db a c t = find (\<lambda>r. link_account (snd r) = a \<and> link_code (snd r) = c \<and> message_type (snd r) = t) (links db)"

section \<open>Permissions\<close>

definition create_usage :: "time_point \<Rightarrow> 'k auth_db \<Rightarrow> oid \<times> 'k auth_db" where
  "create_usage t db = (next_usage db, db\<lparr>usages := idx_put (next_usage db) t (usages db), next_usage := next_usage db + 1\<rparr>)"

definition create_permission_object :: "'k permission_object \<Rightarrow> 'k auth_db \<Rightarrow> (chain_exception, 'k permission_object \<times> 'k auth_db) result" where
  "create_permission_object p db =
     (let p' = p\<lparr>po_id := next_permission db\<rparr> in
      if find_by_owner db (po_owner p) (po_name p) \<noteq> None then Inl Uniqueness_violation
      else Inr (p', db\<lparr>permissions := idx_put (next_permission db) p' (permissions db), next_permission := next_permission db + 1\<rparr>))"

definition auth_initialize_database :: "'k auth_db \<Rightarrow> (chain_exception, 'k auth_db) result" where
  "auth_initialize_database db =
     rbind (create_permission_object \<lparr>po_id = 0, usage_id = 0, parent = 0, po_owner = 0, po_name = 0, last_updated = 0,
              po_auth = empty_authority\<rparr> db) (\<lambda>(p, db). Inr db)"

definition check_key_types :: "'k auth_env \<Rightarrow> 'k authority \<Rightarrow> (chain_exception, unit) result" where
  "check_key_types env auth =
     for_each (\<lambda>k _. eos_assert (key_which env (kw_key k) < num_supported_key_types env) Unactivated_key_type) (keys auth) ()"

definition create_permission :: "'k auth_env \<Rightarrow> account_name \<Rightarrow> permission_name \<Rightarrow> oid \<Rightarrow> 'k authority \<Rightarrow> time_point \<Rightarrow>
    'k auth_db \<Rightarrow> (chain_exception, 'k permission_object \<times> 'k auth_db) result" where
  "create_permission env account name par auth initial_creation_time db =
     rbind (check_key_types env auth) (\<lambda>_.
     let creation_time = (if initial_creation_time = 0 then pending_block_time env else initial_creation_time);
         (u, db) = create_usage creation_time db in
     create_permission_object \<lparr>po_id = 0, usage_id = u, parent = par, po_owner = account, po_name = name,
       last_updated = creation_time, po_auth = auth\<rparr> db)"

definition modify_permission :: "'k auth_env \<Rightarrow> 'k permission_object \<Rightarrow> 'k authority \<Rightarrow> 'k auth_db \<Rightarrow> (chain_exception, 'k auth_db) result" where
  "modify_permission env p auth db =
     rbind (check_key_types env auth) (\<lambda>_.
     Inr (db\<lparr>permissions := idx_put (po_id p) (p\<lparr>po_auth := auth, last_updated := pending_block_time env\<rparr>) (permissions db)\<rparr>))"

definition children :: "'k auth_db \<Rightarrow> oid \<Rightarrow> 'k permission_object list" where
  "children db i = filter (\<lambda>p. parent p = i) (map snd (permissions db))"

definition remove_permission :: "'k permission_object \<Rightarrow> 'k auth_db \<Rightarrow> (chain_exception, 'k auth_db) result" where
  "remove_permission p db =
     rbind (eos_assert (children db (po_id p) = []) Action_validate_exception) (\<lambda>_.
     rbind (idx_get (usages db) (usage_id p)) (\<lambda>_.
     Inr (db\<lparr>usages := idx_remove (usage_id p) (usages db), permissions := idx_remove (po_id p) (permissions db)\<rparr>)))"

definition update_permission_usage :: "'k auth_env \<Rightarrow> 'k permission_object \<Rightarrow> 'k auth_db \<Rightarrow> (chain_exception, 'k auth_db) result" where
  "update_permission_usage env p db =
     rbind (idx_get (usages db) (usage_id p)) (\<lambda>_.
     Inr (db\<lparr>usages := idx_put (usage_id p) (pending_block_time env) (usages db)\<rparr>))"

definition get_permission_last_used :: "'k auth_db \<Rightarrow> 'k permission_object \<Rightarrow> (chain_exception, time_point) result" where
  "get_permission_last_used db p = idx_get (usages db) (usage_id p)"

definition check_level :: "permission_level \<Rightarrow> (chain_exception, unit) result" where
  "check_level level = eos_assert (actor level \<noteq> 0 \<and> permission level \<noteq> 0) Invalid_permission"

definition find_permission :: "'k auth_db \<Rightarrow> permission_level \<Rightarrow> (chain_exception, 'k permission_object option) result" where
  "find_permission db level =
     rethrow_as Permission_query_exception (rbind (check_level level) (\<lambda>_.
     Inr (find_by_owner db (actor level) (permission level))))"

definition get_permission :: "'k auth_db \<Rightarrow> permission_level \<Rightarrow> (chain_exception, 'k permission_object) result" where
  "get_permission db level =
     rethrow_as Permission_query_exception (rbind (check_level level) (\<lambda>_.
     case find_by_owner db (actor level) (permission level) of None \<Rightarrow> Inl Unknown_key | Some p \<Rightarrow> Inr p))"

text \<open>
  \<^verbatim>\<open>permission_object::satisfies\<close>. The loop follows the parents; a parent that is not in the index is dereferenced
  without a test.
\<close>

fun satisfies_loop :: "nat \<Rightarrow> 'k auth_db \<Rightarrow> oid \<Rightarrow> 'k permission_object \<Rightarrow> (chain_exception, bool) result" where
  "satisfies_loop n db i par =
     (if i = parent par then Inr True
      else if parent par = 0 then Inr False
      else
        (case n of
           0 \<Rightarrow> Inl Nonterminating
         | Suc n' \<Rightarrow>
             (case map_of (permissions db) (parent par) of
                None \<Rightarrow> Inl Undefined_behaviour
              | Some q \<Rightarrow> satisfies_loop n' db i q)))"

definition satisfies :: "'k auth_db \<Rightarrow> 'k permission_object \<Rightarrow> 'k permission_object \<Rightarrow> (chain_exception, bool) result" where
  "satisfies db self other =
     (if po_owner self \<noteq> po_owner other then Inr False
      else if po_id self = po_id other \<or> po_id self = parent other then Inr True
      else
        (case map_of (permissions db) (parent other) of
           None \<Rightarrow> Inl Undefined_behaviour
         | Some p \<Rightarrow> satisfies_loop (length (permissions db)) db (po_id self) p))"

section \<open>Links\<close>

definition lookup_linked_permission :: "'k auth_db \<Rightarrow> account_name \<Rightarrow> account_name \<Rightarrow> action_name \<Rightarrow> permission_name option" where
  "lookup_linked_permission db authorizer_account scope act_name =
     (let link = (case find_link db authorizer_account scope act_name of
                    None \<Rightarrow> find_link db authorizer_account scope 0
                  | Some l \<Rightarrow> Some l)
      in map_option (\<lambda>l. required_permission (snd l)) link)"

definition lookup_minimum_permission :: "'k auth_db \<Rightarrow> account_name \<Rightarrow> account_name \<Rightarrow> action_name \<Rightarrow>
    (chain_exception, permission_name option) result" where
  "lookup_minimum_permission db authorizer_account scope act_name =
     rbind (if scope = system_account_name
            then eos_assert (act_name \<noteq> updateauth_name \<and> act_name \<noteq> deleteauth_name \<and> act_name \<noteq> linkauth_name \<and>
                   act_name \<noteq> unlinkauth_name) Unlinkable_min_permission_action
            else Inr ()) (\<lambda>_.
     case lookup_linked_permission db authorizer_account scope act_name of
       None \<Rightarrow> Inr (Some active_name)
     | Some linked_permission \<Rightarrow> if linked_permission = eosio_any_name then Inr None else Inr (Some linked_permission))"

section \<open>Checks of the declared authorizations of native actions\<close>

record 'k updateauth =
  ua_account :: account_name
  ua_permission :: permission_name
  ua_parent :: permission_name
  ua_auth :: "'k authority"

record deleteauth =
  da_account :: account_name
  da_permission :: permission_name

record linkauth =
  la_account :: account_name
  la_code :: account_name
  la_type :: action_name
  la_requirement :: permission_name

record unlinkauth =
  ul_account :: account_name
  ul_code :: account_name
  ul_type :: action_name

text \<open>A single declared authorization, whose actor is the given account.\<close>

definition sole_authorization :: "account_name \<Rightarrow> permission_level list \<Rightarrow> (chain_exception, permission_level) result" where
  "sole_authorization account auths =
     (case auths of
        [auth] \<Rightarrow> rbind (eos_assert (actor auth = account) Irrelevant_auth_exception) (\<lambda>_. Inr auth)
      | _ \<Rightarrow> Inl Irrelevant_auth_exception)"

definition assert_satisfies :: "'k auth_db \<Rightarrow> permission_level \<Rightarrow> 'k permission_object \<Rightarrow> (chain_exception, unit) result" where
  "assert_satisfies db auth min_permission =
     rbind (get_permission db auth) (\<lambda>p.
     rbind (satisfies db p min_permission) (\<lambda>r. eos_assert r Irrelevant_auth_exception))"

definition check_updateauth_authorization :: "'k auth_db \<Rightarrow> 'k updateauth \<Rightarrow> permission_level list \<Rightarrow> (chain_exception, unit) result" where
  "check_updateauth_authorization db update auths =
     rbind (sole_authorization (ua_account update) auths) (\<lambda>auth.
     rbind (find_permission db \<lparr>actor = ua_account update, permission = ua_permission update\<rparr>) (\<lambda>m.
     rbind (case m of
              Some p \<Rightarrow> Inr p
            | None \<Rightarrow> get_permission db \<lparr>actor = ua_account update, permission = ua_parent update\<rparr>) (\<lambda>min_permission.
     assert_satisfies db auth min_permission)))"

definition check_deleteauth_authorization :: "'k auth_db \<Rightarrow> deleteauth \<Rightarrow> permission_level list \<Rightarrow> (chain_exception, unit) result" where
  "check_deleteauth_authorization db del auths =
     rbind (sole_authorization (da_account del) auths) (\<lambda>auth.
     rbind (get_permission db \<lparr>actor = da_account del, permission = da_permission del\<rparr>) (\<lambda>min_permission.
     assert_satisfies db auth min_permission))"

text \<open>
  In the two checks of links both permissions are fetched in one call of \<^verbatim>\<open>satisfies\<close>, the object expression first.
\<close>

definition assert_satisfies_level :: "'k auth_db \<Rightarrow> permission_level \<Rightarrow> permission_level \<Rightarrow> (chain_exception, unit) result" where
  "assert_satisfies_level db auth level =
     rbind (get_permission db auth) (\<lambda>p.
     rbind (get_permission db level) (\<lambda>min_permission.
     rbind (satisfies db p min_permission) (\<lambda>r. eos_assert r Irrelevant_auth_exception)))"

definition check_linkauth_authorization :: "'k auth_env \<Rightarrow> 'k auth_db \<Rightarrow> linkauth \<Rightarrow> permission_level list \<Rightarrow> (chain_exception, unit) result" where
  "check_linkauth_authorization env db link auths =
     rbind (sole_authorization (la_account link) auths) (\<lambda>auth.
     rbind (if la_code link = system_account_name \<or> \<not> fix_linkauth_restriction env
            then eos_assert (la_type link \<noteq> updateauth_name \<and> la_type link \<noteq> deleteauth_name \<and> la_type link \<noteq> linkauth_name \<and>
                   la_type link \<noteq> unlinkauth_name) Action_validate_exception
            else Inr ()) (\<lambda>_.
     rbind (lookup_minimum_permission db (la_account link) (la_code link) (la_type link)) (\<lambda>linked_permission_name.
     case linked_permission_name of
       None \<Rightarrow> Inr ()
     | Some n \<Rightarrow> assert_satisfies_level db auth \<lparr>actor = la_account link, permission = n\<rparr>)))"

definition check_unlinkauth_authorization :: "'k auth_db \<Rightarrow> unlinkauth \<Rightarrow> permission_level list \<Rightarrow> (chain_exception, unit) result" where
  "check_unlinkauth_authorization db unlink auths =
     rbind (sole_authorization (ul_account unlink) auths) (\<lambda>auth.
     case lookup_linked_permission db (ul_account unlink) (ul_code unlink) (ul_type unlink) of
       None \<Rightarrow> Inl Transaction_exception
     | Some n \<Rightarrow>
         if n = eosio_any_name then Inr ()
         else assert_satisfies_level db auth \<lparr>actor = ul_account unlink, permission = n\<rparr>)"

section \<open>Checks of the authorizations of a transaction\<close>

record action =
  act_account :: account_name
  act_name :: action_name
  act_authorization :: "permission_level list"
  act_data :: bytes

text \<open>How fc unpacks the data of the native actions that are checked here.\<close>

record 'k action_lib =
  unpack_updateauth :: "bytes \<Rightarrow> (chain_exception, 'k updateauth) result"
  unpack_deleteauth :: "bytes \<Rightarrow> (chain_exception, deleteauth) result"
  unpack_linkauth :: "bytes \<Rightarrow> (chain_exception, linkauth) result"
  unpack_unlinkauth :: "bytes \<Rightarrow> (chain_exception, unlinkauth) result"

definition data_as :: "name \<Rightarrow> (bytes \<Rightarrow> (chain_exception, 'd) result) \<Rightarrow> action \<Rightarrow> (chain_exception, 'd) result" where
  "data_as type_name unpack act =
     rbind (eos_assert (act_account act = system_account_name) Action_type_exception) (\<lambda>_.
     rbind (eos_assert (act_name act = type_name) Action_type_exception) (\<lambda>_.
     unpack (act_data act)))"

definition check_special_case :: "'k action_lib \<Rightarrow> 'k auth_env \<Rightarrow> 'k auth_db \<Rightarrow> action \<Rightarrow> (chain_exception, bool) result" where
  "check_special_case lib env db act =
     (if act_account act \<noteq> system_account_name then Inr False
      else if act_name act = updateauth_name then
        rbind (data_as updateauth_name (unpack_updateauth lib) act) (\<lambda>d.
        rbind (check_updateauth_authorization db d (act_authorization act)) (\<lambda>_. Inr True))
      else if act_name act = deleteauth_name then
        rbind (data_as deleteauth_name (unpack_deleteauth lib) act) (\<lambda>d.
        rbind (check_deleteauth_authorization db d (act_authorization act)) (\<lambda>_. Inr True))
      else if act_name act = linkauth_name then
        rbind (data_as linkauth_name (unpack_linkauth lib) act) (\<lambda>d.
        rbind (check_linkauth_authorization env db d (act_authorization act)) (\<lambda>_. Inr True))
      else if act_name act = unlinkauth_name then
        rbind (data_as unlinkauth_name (unpack_unlinkauth lib) act) (\<lambda>d.
        rbind (check_unlinkauth_authorization db d (act_authorization act)) (\<lambda>_. Inr True))
      else Inr False)"

definition check_declared :: "'k auth_db \<Rightarrow> action \<Rightarrow> bool \<Rightarrow> permission_level \<Rightarrow> (chain_exception, unit) result" where
  "check_declared db act special_case declared_auth =
     (if special_case then Inr ()
      else
        rbind (lookup_minimum_permission db (actor declared_auth) (act_account act) (act_name act)) (\<lambda>min_permission_name.
        case min_permission_name of
          None \<Rightarrow> Inr ()
        | Some n \<Rightarrow>
            rbind (get_permission db \<lparr>actor = actor declared_auth, permission = n\<rparr>) (\<lambda>min_permission.
            assert_satisfies db declared_auth min_permission)))"

text \<open>The first loop collects the permissions that are still to be satisfied, the second one satisfies them in turn.\<close>

fun check_actions :: "'k action_lib \<Rightarrow> 'k auth_env \<Rightarrow> 'k auth_db \<Rightarrow> permission_level list \<Rightarrow> action list \<Rightarrow>
    permission_level list \<Rightarrow> (chain_exception, permission_level list) result" where
  "check_actions lib env db satisfied_authorizations [] permissions_to_satisfy = Inr permissions_to_satisfy"
| "check_actions lib env db satisfied_authorizations (act # acts) permissions_to_satisfy =
     rbind (check_special_case lib env db act) (\<lambda>special_case.
     rbind (for_each (\<lambda>p _. check_declared db act special_case p) (act_authorization act) ()) (\<lambda>_.
     check_actions lib env db satisfied_authorizations acts
       (permissions_to_satisfy @ filter (\<lambda>p. p \<notin> set satisfied_authorizations) (act_authorization act))))"

fun satisfy_all :: "'k authority_checker \<Rightarrow> permission_level list \<Rightarrow> bool list \<Rightarrow> (chain_exception, bool list) result" where
  "satisfy_all c [] used = Inr used"
| "satisfy_all c (p # ps) used =
     rbind (satisfied_permission c p None used) (\<lambda>(r, (used', cache)).
     rbind (eos_assert r Unsatisfied_authorization) (\<lambda>_. satisfy_all c ps used'))"

definition get_authority :: "'k auth_db \<Rightarrow> permission_level \<Rightarrow> (chain_exception, 'k authority) result" where
  "get_authority db level = rbind (get_permission db level) (\<lambda>p. Inr (po_auth p))"

definition check_authorization :: "'k action_lib \<Rightarrow> 'k auth_env \<Rightarrow> 'k auth_db \<Rightarrow> action list \<Rightarrow> 'k list \<Rightarrow> permission_level list \<Rightarrow>
    bool \<Rightarrow> permission_level list \<Rightarrow> (chain_exception, unit) result" where
  "check_authorization lib env db actions pkeys pperms allow_unused_keys satisfied_authorizations =
     (let (checker, used) = make_auth_checker (get_authority db) (max_authority_depth env) pkeys pperms in
      rbind (check_actions lib env db satisfied_authorizations actions []) (\<lambda>permissions_to_satisfy.
      rbind (satisfy_all checker permissions_to_satisfy used) (\<lambda>used.
      if allow_unused_keys then Inr () else eos_assert (all_keys_used used) Tx_irrelevant_sig)))"

definition check_authorization_of :: "'k auth_env \<Rightarrow> 'k auth_db \<Rightarrow> account_name \<Rightarrow> permission_name \<Rightarrow> 'k list \<Rightarrow> permission_level list \<Rightarrow>
    bool \<Rightarrow> (chain_exception, unit) result" where
  "check_authorization_of env db account perm pkeys pperms allow_unused_keys =
     (let (checker, used) = make_auth_checker (get_authority db) (max_authority_depth env) pkeys pperms in
      rbind (satisfied_permission checker \<lparr>actor = account, permission = perm\<rparr> None used) (\<lambda>(r, (used, cache)).
      rbind (eos_assert r Unsatisfied_authorization) (\<lambda>_.
      if allow_unused_keys then Inr () else eos_assert (all_keys_used used) Tx_irrelevant_sig)))"

definition get_required_keys :: "'k auth_env \<Rightarrow> 'k auth_db \<Rightarrow> action list \<Rightarrow> 'k list \<Rightarrow> (chain_exception, 'k set) result" where
  "get_required_keys env db actions candidate_keys =
     (let (checker, used) = make_auth_checker (get_authority db) (max_authority_depth env) candidate_keys [] in
      rbind (satisfy_all checker (concat (map act_authorization actions)) used) (\<lambda>used.
      Inr (used_keys checker used)))"

section \<open>Snapshot rows\<close>

record 'k snapshot_permission_object =
  sp_parent :: permission_name
  sp_owner :: account_name
  sp_name :: permission_name
  sp_last_updated :: time_point
  sp_last_used :: time_point
  sp_auth :: "'k authority"

definition to_snapshot_row :: "'k auth_db \<Rightarrow> 'k permission_object \<Rightarrow> (chain_exception, 'k snapshot_permission_object) result" where
  "to_snapshot_row db value =
     rbind (idx_get (permissions db) (parent value)) (\<lambda>p.
     rbind (idx_get (usages db) (usage_id value)) (\<lambda>last_used.
     Inr \<lparr>sp_parent = po_name p, sp_owner = po_owner value, sp_name = po_name value, sp_last_updated = last_updated value,
          sp_last_used = last_used, sp_auth = po_auth value\<rparr>))"

text \<open>The row is read inside the creation of the next permission, whose id is known there.\<close>

definition from_snapshot_row :: "'k snapshot_permission_object \<Rightarrow> oid \<Rightarrow> 'k auth_db \<Rightarrow>
    (chain_exception, 'k permission_object \<times> 'k auth_db) result" where
  "from_snapshot_row row i db =
     rbind
       (if i = 0 then
          rbind (eos_assert (sp_parent row = 0) Snapshot_exception) (\<lambda>_.
          rbind (eos_assert (sp_name row = 0) Snapshot_exception) (\<lambda>_.
          rbind (eos_assert (sp_owner row = 0) Snapshot_exception) (\<lambda>_.
          rbind (eos_assert (accounts (sp_auth row) = []) Snapshot_exception) (\<lambda>_.
          rbind (eos_assert (keys (sp_auth row) = []) Snapshot_exception) (\<lambda>_.
          rbind (eos_assert (waits (sp_auth row) = []) Snapshot_exception) (\<lambda>_.
          rbind (eos_assert (threshold (sp_auth row) = 0) Snapshot_exception) (\<lambda>_.
          rbind (eos_assert (sp_last_updated row = 0) Snapshot_exception) (\<lambda>_. Inr 0))))))))
        else if sp_parent row \<noteq> 0 then
          (case find_by_owner db (sp_owner row) (sp_parent row) of
             None \<Rightarrow> Inl Unknown_key
           | Some p \<Rightarrow> rbind (eos_assert (po_id p \<noteq> 0) Snapshot_exception) (\<lambda>_. Inr (po_id p)))
        else Inr 0) (\<lambda>par.
     let (u, db) = (if i \<noteq> 0 then create_usage (sp_last_used row) db else (0, db)) in
     Inr (\<lparr>po_id = i, usage_id = u, parent = par, po_owner = sp_owner row, po_name = sp_name row,
            last_updated = sp_last_updated row, po_auth = sp_auth row\<rparr>, db))"

definition add_to_snapshot :: "'k auth_db \<Rightarrow> (chain_exception, 'k snapshot_permission_object list \<times> permission_link_object list) result" where
  "add_to_snapshot db =
     rbind (foldr (\<lambda>p r. rbind (to_snapshot_row db (snd p)) (\<lambda>row. rbind r (\<lambda>rows. Inr (row # rows)))) (permissions db) (Inr [])) (\<lambda>rows.
     Inr (rows, map snd (links db)))"

fun read_permissions :: "'k snapshot_permission_object list \<Rightarrow> 'k auth_db \<Rightarrow> (chain_exception, 'k auth_db) result" where
  "read_permissions [] db = Inr db"
| "read_permissions (row # rows) db =
     rbind (from_snapshot_row row (next_permission db) db) (\<lambda>(p, db).
     rbind (create_permission_object p db) (\<lambda>(p, db). read_permissions rows db))"

fun read_links :: "permission_link_object list \<Rightarrow> 'k auth_db \<Rightarrow> (chain_exception, 'k auth_db) result" where
  "read_links [] db = Inr db"
| "read_links (l # ls) db =
     (if find_link db (link_account l) (link_code l) (message_type l) \<noteq> None then Inl Uniqueness_violation
      else read_links ls (db\<lparr>links := idx_put (next_link db) l (links db), next_link := next_link db + 1\<rparr>))"

definition read_from_snapshot :: "'k snapshot_permission_object list \<Rightarrow> permission_link_object list \<Rightarrow> 'k auth_db \<Rightarrow>
    (chain_exception, 'k auth_db) result" where
  "read_from_snapshot rows ls db = rbind (read_permissions rows db) (read_links ls)"

section \<open>Well-formed databases\<close>

lemma map_of_put: "idx_ok m \<Longrightarrow> map_of (idx_put k v m) = (map_of m)(k \<mapsto> v)"
  by (auto simp: map_of_idx_put)

lemma map_of_remove: "map_of (idx_remove k m) = (map_of m)(k := None)"
  by (auto simp: map_of_idx_remove)

text \<open>
  Every permission but the reserved one has an owner and a name that no other permission has together, a parent with a
  smaller id that is the reserved permission or belongs to the same account, a usage object of its own, and an authority
  that refers to permission levels that are not empty.
\<close>

definition named_levels :: "permission_level set" where
  "named_levels = {p. actor p \<noteq> 0 \<and> permission p \<noteq> 0}"

definition levels_named :: "'k authority \<Rightarrow> bool" where
  "levels_named auth \<longleftrightarrow> (\<forall>q \<in> set (accounts auth). plw_permission q \<in> named_levels)"

definition permission_ok :: "(oid \<rightharpoonup> 'k permission_object) \<Rightarrow> (oid \<rightharpoonup> time_point) \<Rightarrow> 'k permission_object \<Rightarrow> bool" where
  "permission_ok pm um p \<longleftrightarrow>
     po_owner p \<noteq> 0 \<and> po_name p \<noteq> 0 \<and> parent p < po_id p \<and> um (usage_id p) \<noteq> None \<and> levels_named (po_auth p) \<and>
     (parent p \<noteq> 0 \<longrightarrow> (\<exists>q. pm (parent p) = Some q \<and> po_owner q = po_owner p))"

definition permissions_ok :: "(oid \<rightharpoonup> 'k permission_object) \<Rightarrow> oid \<Rightarrow> (oid \<rightharpoonup> time_point) \<Rightarrow> bool" where
  "permissions_ok pm nx um \<longleftrightarrow>
     (\<exists>p. pm 0 = Some p \<and> parent p = 0 \<and> po_owner p = 0 \<and> po_name p = 0 \<and> po_auth p = empty_authority \<and> last_updated p = 0) \<and>
     (\<forall>i p. pm i = Some p \<longrightarrow> po_id p = i \<and> i < nx \<and> (i \<noteq> 0 \<longrightarrow> permission_ok pm um p)) \<and>
     (\<forall>i j p q. pm i = Some p \<longrightarrow> pm j = Some q \<longrightarrow> po_owner p = po_owner q \<longrightarrow> po_name p = po_name q \<longrightarrow> i = j) \<and>
     (\<forall>i j p q. pm i = Some p \<longrightarrow> pm j = Some q \<longrightarrow> i \<noteq> 0 \<longrightarrow> j \<noteq> 0 \<longrightarrow> usage_id p = usage_id q \<longrightarrow> i = j)"

definition links_ok :: "(oid \<rightharpoonup> permission_link_object) \<Rightarrow> oid \<Rightarrow> bool" where
  "links_ok lm nx \<longleftrightarrow>
     (\<forall>i l. lm i = Some l \<longrightarrow> i < nx) \<and>
     (\<forall>i j k l. lm i = Some k \<longrightarrow> lm j = Some l \<longrightarrow> link_account k = link_account l \<longrightarrow> link_code k = link_code l \<longrightarrow>
        message_type k = message_type l \<longrightarrow> i = j)"

definition auth_ok :: "'k auth_db \<Rightarrow> bool" where
  "auth_ok db \<longleftrightarrow>
     idx_ok (permissions db) \<and> idx_ok (usages db) \<and> idx_ok (links db) \<and>
     (\<forall>u t. map_of (usages db) u = Some t \<longrightarrow> u < next_usage db) \<and>
     permissions_ok (map_of (permissions db)) (next_permission db) (map_of (usages db)) \<and>
     links_ok (map_of (links db)) (next_link db)"

lemma auth_okD:
  assumes "auth_ok db" "map_of (permissions db) i = Some p"
  shows "po_id p = i" "i < next_permission db" "i \<noteq> 0 \<Longrightarrow> permission_ok (map_of (permissions db)) (map_of (usages db)) p"
  using assms unfolding auth_ok_def permissions_ok_def by blast+

lemma auth_ok_idx: "auth_ok db \<Longrightarrow> idx_ok (permissions db)"
  by (simp add: auth_ok_def)

lemma reserved_row:
  assumes "auth_ok db"
  obtains p where "map_of (permissions db) 0 = Some p" "parent p = 0" "po_owner p = 0" "po_name p = 0"
    "po_auth p = empty_authority" "last_updated p = 0"
  using assms unfolding auth_ok_def permissions_ok_def by blast

lemma auth_ok_unique:
  "auth_ok db \<Longrightarrow> map_of (permissions db) i = Some p \<Longrightarrow> map_of (permissions db) j = Some q \<Longrightarrow>
     po_owner p = po_owner q \<Longrightarrow> po_name p = po_name q \<Longrightarrow> i = j"
  unfolding auth_ok_def permissions_ok_def by blast

lemma find_SomeD: "find P xs = Some x \<Longrightarrow> x \<in> set xs \<and> P x"
  by (induction xs) (auto split: if_splits)

lemma find_by_ownerD:
  "find_by_owner db a n = Some p \<Longrightarrow> \<exists>i. (i, p) \<in> set (permissions db) \<and> po_owner p = a \<and> po_name p = n"
  unfolding find_by_owner_def by (drule find_SomeD) auto

lemma find_by_owner_None:
  "idx_ok (permissions db) \<Longrightarrow> find_by_owner db a n = None \<longleftrightarrow>
     (\<forall>i p. map_of (permissions db) i = Some p \<longrightarrow> \<not> (po_owner p = a \<and> po_name p = n))"
proof -
  assume ok: "idx_ok (permissions db)"
  have "find_by_owner db a n = None \<longleftrightarrow> (\<forall>r \<in> set (permissions db). \<not> (po_owner (snd r) = a \<and> po_name (snd r) = n))"
    by (simp add: find_by_owner_def find_None_iff)
  moreover have "map_of (permissions db) i = Some p \<longleftrightarrow> (i, p) \<in> set (permissions db)" for i p
    using idx_ok_lookup [OF ok, of "(i, p)"] map_of_SomeD [of "permissions db" i p] by auto
  ultimately show ?thesis by force
qed

lemma find_by_owner_Some:
  assumes "auth_ok db"
  shows "find_by_owner db a n = Some p \<longleftrightarrow> map_of (permissions db) (po_id p) = Some p \<and> po_owner p = a \<and> po_name p = n"
    (is "?l \<longleftrightarrow> ?r")
proof
  assume ?l
  then obtain i where i: "(i, p) \<in> set (permissions db)" and p: "po_owner p = a" "po_name p = n"
    by (blast dest: find_by_ownerD)
  from idx_ok_lookup [OF auth_ok_idx [OF assms] i] have "map_of (permissions db) i = Some p" by simp
  with p auth_okD(1) [OF assms] show ?r by auto
next
  assume r: ?r
  then have "find_by_owner db a n \<noteq> None" using find_by_owner_None [OF auth_ok_idx [OF assms]] by blast
  then obtain q where q: "find_by_owner db a n = Some q" by auto
  then obtain i where i: "(i, q) \<in> set (permissions db)" and o: "po_owner q = a" "po_name q = n"
    by (blast dest: find_by_ownerD)
  from idx_ok_lookup [OF auth_ok_idx [OF assms] i] have "map_of (permissions db) i = Some q" by simp
  with r o auth_ok_unique [OF assms] have "q = p" by (metis option.inject)
  with q show ?l by simp
qed

lemma get_permission_Inr:
  "auth_ok db \<Longrightarrow> get_permission db l = Inr p \<longleftrightarrow>
     l \<in> named_levels \<and> map_of (permissions db) (po_id p) = Some p \<and> po_owner p = actor l \<and> po_name p = permission l"
proof -
  assume ok: "auth_ok db"
  show ?thesis
    unfolding find_by_owner_Some [OF ok, symmetric]
    by (auto simp: get_permission_def check_level_def result_simps named_levels_def split: option.splits)
qed

lemma get_permission_nonzero: "auth_ok db \<Longrightarrow> get_permission db l = Inr p \<Longrightarrow> po_id p \<noteq> 0"
  using reserved_row [of db] by (metis (mono_tags, lifting) get_permission_Inr mem_Collect_eq named_levels_def option.inject)

lemma get_permission_Inl:
  "l \<in> named_levels \<Longrightarrow> get_permission db l = Inl e \<Longrightarrow> e = Permission_query_exception"
  by (auto simp: get_permission_def check_level_def named_levels_def rethrow_as_def split: option.splits)

interpretation stored: permission_source auth_ok get_authority named_levels
proof
  fix d :: "'a auth_db" and p e
  assume "auth_ok d" "p \<in> named_levels" "get_authority d p = Inl e"
  then show "e = Permission_query_exception"
    by (auto simp: get_authority_def rbind_eq_Inl_iff intro: get_permission_Inl)
next
  fix d :: "'a auth_db" and p a q
  assume ok: "auth_ok d" and a: "get_authority d p = Inr a" and q: "q \<in> set (accounts a)"
  from a obtain po where po: "get_permission d p = Inr po" "po_auth po = a" by (auto simp: get_authority_def result_simps)
  then have "map_of (permissions d) (po_id po) = Some po" using ok by (simp add: get_permission_Inr)
  from auth_okD(3) [OF ok this] get_permission_nonzero [OF ok po(1)] po(2) q show "plw_permission q \<in> named_levels"
    by (simp add: permission_ok_def levels_named_def)
qed

section \<open>The hierarchy of permissions\<close>

inductive ancestor :: "'k auth_db \<Rightarrow> oid \<Rightarrow> oid \<Rightarrow> bool" for db i where
  self: "ancestor db i i"
| up: "map_of (permissions db) j = Some p \<Longrightarrow> j \<noteq> 0 \<Longrightarrow> ancestor db i (parent p) \<Longrightarrow> ancestor db i j"

inductive_simps ancestor_iff: "ancestor db i j"

lemma ancestor_zero: "ancestor db i 0 \<longleftrightarrow> i = 0"
  by (simp add: ancestor_iff [of db i 0])

lemma ancestor_row: "map_of (permissions db) j = Some p \<Longrightarrow> j \<noteq> 0 \<Longrightarrow> ancestor db i j \<longleftrightarrow> i = j \<or> ancestor db i (parent p)"
  by (subst ancestor_iff) auto

declare satisfies_loop.simps [simp del]

lemma parent_row:
  assumes "auth_ok db" "map_of (permissions db) j = Some p"
  obtains q where "map_of (permissions db) (parent p) = Some q" "parent p \<le> j" "j \<noteq> 0 \<longrightarrow> parent p < j"
proof -
  obtain r where r: "map_of (permissions db) 0 = Some r" "parent r = 0" using reserved_row [OF assms(1)] .
  show ?thesis
  proof (cases "j = 0")
    case True
    with r assms(2) show ?thesis by (intro that [of r]) simp_all
  next
    case False
    then have "permission_ok (map_of (permissions db)) (map_of (usages db)) p" "po_id p = j"
      using auth_okD [OF assms] by simp_all
    then show ?thesis
      using r(1) by (cases "parent p = 0") (auto simp: permission_ok_def intro: that)
  qed
qed

lemma satisfies_loop_ancestor:
  assumes ok: "auth_ok db" and i: "i \<noteq> 0"
  shows "map_of (permissions db) j = Some p \<Longrightarrow> length (filter (\<lambda>r. fst r < j) (permissions db)) \<le> n \<Longrightarrow>
     satisfies_loop n db i p = Inr (ancestor db i (parent p))"
proof (induction n arbitrary: j p)
  case 0
  obtain q where q: "map_of (permissions db) (parent p) = Some q" "parent p \<le> j" "j \<noteq> 0 \<longrightarrow> parent p < j"
    using parent_row [OF ok 0(1)] by blast
  have "\<not> (parent p, q) \<in> set (filter (\<lambda>r. fst r < j) (permissions db))" using 0(2) by simp
  then have "j = 0" using q map_of_SomeD [OF q(1)] by fastforce
  then have "parent p = 0" using q(2) by simp
  with i show ?case by (subst satisfies_loop.simps) (simp add: ancestor_zero)
next
  case (Suc n)
  obtain q where q: "map_of (permissions db) (parent p) = Some q" "parent p \<le> j" "j \<noteq> 0 \<longrightarrow> parent p < j"
    using parent_row [OF ok Suc.prems(1)] by blast
  show ?case
  proof (cases "parent p = 0")
    case True
    with i show ?thesis by (subst satisfies_loop.simps) (simp add: ancestor_zero)
  next
    case False
    then have lt: "parent p < j" using q by (cases "j = 0") auto
    have "length (filter (\<lambda>r. fst r < parent p) (filter (\<lambda>r. fst r < j) (permissions db))) <
        length (filter (\<lambda>r. fst r < j) (permissions db))"
      using map_of_SomeD [OF q(1)] lt by (intro length_filter_less [of "(parent p, q)"]) auto
    moreover have "filter (\<lambda>r. fst r < parent p) (filter (\<lambda>r. fst r < j) (permissions db)) =
        filter (\<lambda>r. fst r < parent p) (permissions db)"
      using lt by (auto intro!: filter_cong)
    ultimately have "length (filter (\<lambda>r. fst r < parent p) (permissions db)) \<le> n" using Suc.prems(2) by simp
    from Suc.IH [OF q(1) this] False q(1) show ?thesis
      by (subst satisfies_loop.simps) (auto simp: ancestor_row [OF q(1) False])
  qed
qed

lemma satisfies_iff:
  assumes ok: "auth_ok db" and self: "map_of (permissions db) (po_id s) = Some s" "po_id s \<noteq> 0"
    and other: "map_of (permissions db) (po_id t) = Some t"  "po_id t \<noteq> 0"
  shows "satisfies db s t = Inr (po_owner s = po_owner t \<and> ancestor db (po_id s) (po_id t))"
proof -
  obtain q where q: "map_of (permissions db) (parent t) = Some q" using parent_row [OF ok other(1)] by blast
  have "satisfies_loop (length (permissions db)) db (po_id s) q = Inr (ancestor db (po_id s) (parent q))"
    using satisfies_loop_ancestor [OF ok self(2) q] by simp
  moreover have "ancestor db (po_id s) (parent t) \<longleftrightarrow> po_id s = parent t \<or> ancestor db (po_id s) (parent q)"
    if "parent t \<noteq> 0" using ancestor_row [OF q that] .
  moreover have "parent q = 0" if "parent t = 0" using reserved_row [OF ok] q that by (metis option.inject)
  ultimately show ?thesis
    using q self(2) by (cases "parent t = 0") (auto simp: satisfies_def ancestor_row [OF other] ancestor_zero)
qed

section \<open>The operations keep the database well-formed\<close>

lemma permission_ok_mono:
  assumes "permission_ok pm um p"
    and "\<And>q. pm (parent p) = Some q \<Longrightarrow> parent p \<noteq> 0 \<Longrightarrow> \<exists>q'. pm' (parent p) = Some q' \<and> po_owner q' = po_owner q"
    and "um (usage_id p) \<noteq> None \<Longrightarrow> um' (usage_id p) \<noteq> None"
  shows "permission_ok pm' um' p"
  using assms unfolding permission_ok_def by metis

lemma permissions_okD:
  assumes "permissions_ok pm nx um"
  shows "\<exists>p. pm 0 = Some p \<and> parent p = 0 \<and> po_owner p = 0 \<and> po_name p = 0 \<and> po_auth p = empty_authority \<and> last_updated p = 0"
    "pm i = Some p \<Longrightarrow> po_id p = i" "pm i = Some p \<Longrightarrow> i < nx" "pm i = Some p \<Longrightarrow> i \<noteq> 0 \<Longrightarrow> permission_ok pm um p"
    "pm i = Some p \<Longrightarrow> pm j = Some q \<Longrightarrow> po_owner p = po_owner q \<Longrightarrow> po_name p = po_name q \<Longrightarrow> i = j"
    "pm i = Some p \<Longrightarrow> pm j = Some q \<Longrightarrow> i \<noteq> 0 \<Longrightarrow> j \<noteq> 0 \<Longrightarrow> usage_id p = usage_id q \<Longrightarrow> i = j"
  using assms unfolding permissions_ok_def by blast+

lemma permissions_okI:
  assumes "\<exists>p. pm 0 = Some p \<and> parent p = 0 \<and> po_owner p = 0 \<and> po_name p = 0 \<and> po_auth p = empty_authority \<and> last_updated p = 0"
    "\<And>i p. pm i = Some p \<Longrightarrow> po_id p = i \<and> i < nx" "\<And>i p. pm i = Some p \<Longrightarrow> i \<noteq> 0 \<Longrightarrow> permission_ok pm um p"
    "\<And>i j p q. pm i = Some p \<Longrightarrow> pm j = Some q \<Longrightarrow> po_owner p = po_owner q \<Longrightarrow> po_name p = po_name q \<Longrightarrow> i = j"
    "\<And>i j p q. pm i = Some p \<Longrightarrow> pm j = Some q \<Longrightarrow> i \<noteq> 0 \<Longrightarrow> j \<noteq> 0 \<Longrightarrow> usage_id p = usage_id q \<Longrightarrow> i = j"
  shows "permissions_ok pm nx um"
  unfolding permissions_ok_def using assms by blast

lemma permissions_ok_new:
  assumes pok: "permissions_ok pm nx um" and new: "permission_ok pm (um(usage_id p \<mapsto> t)) p" "po_id p = nx"
    and fresh: "\<And>i q. pm i = Some q \<Longrightarrow> \<not> (po_owner q = po_owner p \<and> po_name q = po_name p)"
    and usage: "um (usage_id p) = None"
  shows "permissions_ok (pm(nx \<mapsto> p)) (nx + 1) (um(usage_id p \<mapsto> t))"
proof (rule permissions_okI)
  note d = permissions_okD [OF pok]
  have no: "pm nx = None" using d(3) [of nx] by (cases "pm nx") auto
  have use: "usage_id q \<noteq> usage_id p" if "pm i = Some q" "i \<noteq> 0" for i q
    using d(4) [OF that] usage by (auto simp: permission_ok_def)
  show "\<exists>p'. (pm(nx \<mapsto> p)) 0 = Some p' \<and> parent p' = 0 \<and> po_owner p' = 0 \<and> po_name p' = 0 \<and> po_auth p' = empty_authority \<and> last_updated p' = 0"
    using d(1) no by (cases "nx = 0") auto
  show "po_id q = i \<and> i < nx + 1" if "(pm(nx \<mapsto> p)) i = Some q" for i q
    using that d(2,3) [of i q] new(2) by (cases "i = nx") auto
  show "permission_ok (pm(nx \<mapsto> p)) (um(usage_id p \<mapsto> t)) q" if "(pm(nx \<mapsto> p)) i = Some q" "i \<noteq> 0" for i q
  proof (cases "i = nx")
    case True
    with that new(1) have "permission_ok pm (um(usage_id p \<mapsto> t)) q" by simp
    then show ?thesis by (rule permission_ok_mono) (use no in auto)
  next
    case False
    with that have "permission_ok pm um q" using d(4) [of i q] by simp
    then show ?thesis by (rule permission_ok_mono) (use no in auto)
  qed
  show "i = j" if "(pm(nx \<mapsto> p)) i = Some p1" "(pm(nx \<mapsto> p)) j = Some q" "po_owner p1 = po_owner q" "po_name p1 = po_name q" for i j p1 q
    using that d(5) [of i p1 j q] fresh by (auto split: if_splits)
  show "i = j" if "(pm(nx \<mapsto> p)) i = Some p1" "(pm(nx \<mapsto> p)) j = Some q" "i \<noteq> 0" "j \<noteq> 0" "usage_id p1 = usage_id q" for i j p1 q
    using that d(6) [of i p1 j q] use by (auto split: if_splits)
qed

lemma auth_okI:
  assumes "idx_ok (permissions db)" "idx_ok (usages db)" "idx_ok (links db)"
    "\<And>u t. map_of (usages db) u = Some t \<Longrightarrow> u < next_usage db"
    "permissions_ok (map_of (permissions db)) (next_permission db) (map_of (usages db))"
    "links_ok (map_of (links db)) (next_link db)"
  shows "auth_ok db"
  unfolding auth_ok_def using assms by blast

lemma auth_ok_parts:
  assumes "auth_ok db"
  shows "idx_ok (permissions db)" "idx_ok (usages db)" "idx_ok (links db)"
    "map_of (usages db) u = Some t \<Longrightarrow> u < next_usage db"
    "permissions_ok (map_of (permissions db)) (next_permission db) (map_of (usages db))"
    "links_ok (map_of (links db)) (next_link db)"
  using assms unfolding auth_ok_def by blast+

lemma create_permissionE:
  assumes "create_permission env a n par auth t db = Inr (p, db')"
  obtains c where "check_key_types env auth = Inr ()" "find_by_owner db a n = None"
    "p = \<lparr>po_id = next_permission db, usage_id = next_usage db, parent = par, po_owner = a, po_name = n,
       last_updated = c, po_auth = auth\<rparr>"
    "db' = db\<lparr>usages := idx_put (next_usage db) c (usages db), next_usage := next_usage db + 1,
       permissions := idx_put (next_permission db) p (permissions db), next_permission := next_permission db + 1\<rparr>"
proof -
  let ?c = "if t = 0 then pending_block_time env else t"
  from assms have "check_key_types env auth = Inr ()" "find_by_owner db a n = None"
    "p = \<lparr>po_id = next_permission db, usage_id = next_usage db, parent = par, po_owner = a, po_name = n,
       last_updated = ?c, po_auth = auth\<rparr>"
    "db' = db\<lparr>usages := idx_put (next_usage db) ?c (usages db), next_usage := next_usage db + 1,
       permissions := idx_put (next_permission db) p (permissions db), next_permission := next_permission db + 1\<rparr>"
    by (auto simp: create_permission_def create_usage_def create_permission_object_def find_by_owner_def result_simps Let_def split: if_splits)
  then show ?thesis by (rule that)
qed

definition parent_fits :: "'k auth_db \<Rightarrow> account_name \<Rightarrow> oid \<Rightarrow> bool" where
  "parent_fits db a par \<longleftrightarrow> (par \<noteq> 0 \<longrightarrow> (\<exists>q. map_of (permissions db) par = Some q \<and> po_owner q = a))"

lemma auth_ok_create:
  assumes ok: "auth_ok db" and new: "create_permission env a n par auth t db = Inr (p, db')"
    and args: "a \<noteq> 0" "n \<noteq> 0" "levels_named auth" "parent_fits db a par"
  shows "auth_ok db'"
  using new
proof (cases rule: create_permissionE)
  case (1 c)
  note parts = auth_ok_parts [OF ok] and d = permissions_okD [OF auth_ok_parts(5) [OF ok]]
  have pos: "0 < next_permission db" using d(1) d(3) by blast
  have "par < next_permission db" using args(4) d(3) pos by (cases "par = 0") (auto simp: parent_fits_def)
  then have p: "permission_ok (map_of (permissions db)) ((map_of (usages db))(next_usage db \<mapsto> c)) p"
    using args unfolding 1(3) permission_ok_def parent_fits_def by simp
  have fresh: "\<not> (po_owner q = po_owner p \<and> po_name q = po_name p)" if "map_of (permissions db) i = Some q" for i q
    using that 1(2,3) find_by_owner_None [OF parts(1)] by auto
  have none: "map_of (usages db) (next_usage db) = None" using parts(4) by (cases "map_of (usages db) (next_usage db)") auto
  have "permissions_ok ((map_of (permissions db))(next_permission db \<mapsto> p)) (next_permission db + 1)
      ((map_of (usages db))(next_usage db \<mapsto> c))"
    using permissions_ok_new [OF parts(5), of p c] p fresh none 1(3) by simp
  with 1(4) parts show ?thesis
    by (intro auth_okI) (auto simp: map_of_put idx_ok_put split: if_splits intro: less_SucI)
qed

lemma auth_ok_modify:
  assumes ok: "auth_ok db" and p: "map_of (permissions db) (po_id p) = Some p" "po_id p \<noteq> 0"
    and new: "modify_permission env p auth db = Inr db'" "levels_named auth"
  shows "auth_ok db'"
proof -
  let ?p = "p\<lparr>po_auth := auth, last_updated := pending_block_time env\<rparr>"
  let ?pm = "(map_of (permissions db))(po_id p \<mapsto> ?p)"
  note parts = auth_ok_parts [OF ok] and d = permissions_okD [OF auth_ok_parts(5) [OF ok]]
  have db': "db' = db\<lparr>permissions := idx_put (po_id p) ?p (permissions db)\<rparr>"
    using new(1) by (auto simp: modify_permission_def result_simps)
  have old: "\<exists>q. map_of (permissions db) i = Some q \<and> po_owner q = po_owner q' \<and> po_name q = po_name q' \<and>
      usage_id q = usage_id q' \<and> parent q = parent q' \<and> po_id q = po_id q'" if "?pm i = Some q'" for i q'
    using that p(1) by (cases "i = po_id p") auto
  have "permissions_ok ?pm (next_permission db) (map_of (usages db))"
  proof (rule permissions_okI)
    show "permission_ok ?pm (map_of (usages db)) q" if q: "?pm i = Some q" "i \<noteq> 0" for i q
    proof -
      have "permission_ok (map_of (permissions db)) (map_of (usages db)) q"
        using q d(4) [of i q] d(4) [OF p] new(2) by (auto simp: permission_ok_def split: if_splits)
      then show ?thesis using p by (auto elim!: permission_ok_mono)
    qed
    show "i = j" if "?pm i = Some p1" "?pm j = Some q" "po_owner p1 = po_owner q" "po_name p1 = po_name q" for i j p1 q
      using old [OF that(1)] old [OF that(2)] that(3,4) d(5) by metis
    show "i = j" if "?pm i = Some p1" "?pm j = Some q" "i \<noteq> 0" "j \<noteq> 0" "usage_id p1 = usage_id q" for i j p1 q
      using old [OF that(1)] old [OF that(2)] that(3-5) d(6) by metis
    show "po_id q = i \<and> i < next_permission db" if "?pm i = Some q" for i q
      using old [OF that] d(2,3) by metis
  qed (use d(1) p(2) in simp)
  with db' parts show ?thesis by (intro auth_okI) (auto simp: map_of_put idx_ok_put)
qed

lemma remove_permissionE:
  assumes "remove_permission p db = Inr db'"
  obtains t where "children db (po_id p) = []" "map_of (usages db) (usage_id p) = Some t"
    "db' = db\<lparr>usages := idx_remove (usage_id p) (usages db), permissions := idx_remove (po_id p) (permissions db)\<rparr>"
  using assms by (auto simp: remove_permission_def result_simps)

lemma children_none:
  assumes "idx_ok (permissions db)" "children db i = []" "map_of (permissions db) j = Some q"
  shows "parent q \<noteq> i"
  using assms(2) map_of_SomeD [OF assms(3)] by (force simp: children_def filter_empty_conv)

lemma auth_ok_remove:
  assumes ok: "auth_ok db" and p: "map_of (permissions db) (po_id p) = Some p" "po_id p \<noteq> 0"
    and rem: "remove_permission p db = Inr db'"
  shows "auth_ok db'"
  using rem
proof (cases rule: remove_permissionE)
  case (1 t)
  let ?pm = "(map_of (permissions db))(po_id p := None)" and ?um = "(map_of (usages db))(usage_id p := None)"
  note parts = auth_ok_parts [OF ok] and d = permissions_okD [OF auth_ok_parts(5) [OF ok]]
  have old: "map_of (permissions db) i = Some q \<and> i \<noteq> po_id p" if "?pm i = Some q" for i q
    using that by (cases "i = po_id p") auto
  have "permissions_ok ?pm (next_permission db) ?um"
  proof (rule permissions_okI)
    show "permission_ok ?pm ?um q" if q: "?pm i = Some q" "i \<noteq> 0" for i q
    proof (rule permission_ok_mono)
      note q' = old [OF q(1)]
      show "permission_ok (map_of (permissions db)) (map_of (usages db)) q" using q' q(2) d(4) by blast
      show "\<exists>q''. ?pm (parent q) = Some q'' \<and> po_owner q'' = po_owner q'" if "map_of (permissions db) (parent q) = Some q'" for q'
        using that children_none [OF parts(1) 1(1)] q' by auto
      show "?um (usage_id q) \<noteq> None" if "map_of (usages db) (usage_id q) \<noteq> None"
        using that q' q(2) p d(6) [of i q "po_id p" p] by auto
    qed
    show "i = j" if "?pm i = Some p1" "?pm j = Some q" "po_owner p1 = po_owner q" "po_name p1 = po_name q" for i j p1 q
      using old [OF that(1)] old [OF that(2)] that(3,4) d(5) by blast
    show "i = j" if "?pm i = Some p1" "?pm j = Some q" "i \<noteq> 0" "j \<noteq> 0" "usage_id p1 = usage_id q" for i j p1 q
      using old [OF that(1)] old [OF that(2)] that(3-5) d(6) by blast
    show "po_id q = i \<and> i < next_permission db" if "?pm i = Some q" for i q
      using old [OF that] d(2,3) by blast
  qed (use d(1) p(2) in simp)
  with 1(3) parts show ?thesis by (intro auth_okI) (auto simp: map_of_remove idx_ok_remove split: if_splits)
qed

lemma auth_ok_usage:
  assumes ok: "auth_ok db" and "update_permission_usage env p db = Inr db'"
  shows "auth_ok db'"
proof -
  note parts = auth_ok_parts [OF ok] and d = permissions_okD [OF auth_ok_parts(5) [OF ok]]
  obtain t where t: "map_of (usages db) (usage_id p) = Some t"
    "db' = db\<lparr>usages := idx_put (usage_id p) (pending_block_time env) (usages db)\<rparr>"
    using assms(2) by (auto simp: update_permission_usage_def result_simps)
  have "permissions_ok (map_of (permissions db)) (next_permission db) ((map_of (usages db))(usage_id p \<mapsto> pending_block_time env))"
  proof (rule permissions_okI)
    show "permission_ok (map_of (permissions db)) ((map_of (usages db))(usage_id p \<mapsto> pending_block_time env)) q"
      if "map_of (permissions db) i = Some q" "i \<noteq> 0" for i q
      using d(4) [OF that] by (auto elim!: permission_ok_mono)
  qed (use d in blast)+
  with t parts show ?thesis by (intro auth_okI) (auto simp: map_of_put idx_ok_put split: if_splits)
qed

lemma auth_ok_initialize: "auth_initialize_database empty_auth_db = Inr db \<Longrightarrow> auth_ok db"
  by (auto simp: auth_initialize_database_def empty_auth_db_def create_permission_object_def find_by_owner_def auth_ok_def Let_def
      permissions_ok_def links_ok_def idx_ok_def split: if_splits)

text \<open>On a well-formed database every permission that has no children can be removed.\<close>

lemma remove_permission_succeeds:
  assumes ok: "auth_ok db" and p: "map_of (permissions db) (po_id p) = Some p" "po_id p \<noteq> 0" "children db (po_id p) = []"
  shows "\<exists>db'. remove_permission p db = Inr db'"
  using auth_okD(3) [OF ok p(1,2)] p(3) by (auto simp: remove_permission_def idx_get_def permission_ok_def)

section \<open>What the checks of a transaction establish\<close>

text \<open>
  A permission level holds over another one when both name stored permissions of the same account and the first is the
  second one or an ancestor of it.
\<close>

definition holds_over :: "'k auth_db \<Rightarrow> permission_level \<Rightarrow> permission_level \<Rightarrow> bool" where
  "holds_over db auth level \<longleftrightarrow>
     (\<exists>d m. get_permission db auth = Inr d \<and> get_permission db level = Inr m \<and> po_owner d = po_owner m \<and>
        ancestor db (po_id d) (po_id m))"

text \<open>The level that an account requires for an action: none when the action is linked to \<^verbatim>\<open>eosio.any\<close>.\<close>

definition required_level :: "'k auth_db \<Rightarrow> account_name \<Rightarrow> account_name \<Rightarrow> action_name \<Rightarrow> permission_level option" where
  "required_level db a scope act =
     (case lookup_linked_permission db a scope act of
        None \<Rightarrow> Some \<lparr>actor = a, permission = active_name\<rparr>
      | Some n \<Rightarrow> if n = eosio_any_name then None else Some \<lparr>actor = a, permission = n\<rparr>)"

definition meets :: "'k auth_db \<Rightarrow> permission_level \<Rightarrow> permission_level option \<Rightarrow> bool" where
  "meets db auth req \<longleftrightarrow> (\<forall>level. req = Some level \<longrightarrow> holds_over db auth level)"

definition native_names :: "name set" where
  "native_names = {updateauth_name, deleteauth_name, linkauth_name, unlinkauth_name}"

definition is_native :: "action \<Rightarrow> bool" where
  "is_native act \<longleftrightarrow> act_account act = system_account_name \<and> act_name act \<in> native_names"

text \<open>The level that an \<^verbatim>\<open>updateauth\<close> changes, or the parent of the one it creates.\<close>

definition changed_level :: "'k auth_db \<Rightarrow> 'k updateauth \<Rightarrow> permission_level" where
  "changed_level db d = \<lparr>actor = ua_account d,
     permission = (if find_by_owner db (ua_account d) (ua_permission d) = None then ua_parent d else ua_permission d)\<rparr>"

text \<open>What is required of the only declared authorization of each of the four native actions on permissions.\<close>

definition native_authorized :: "'k action_lib \<Rightarrow> 'k auth_db \<Rightarrow> action \<Rightarrow> permission_level \<Rightarrow> bool" where
  "native_authorized lib db act p \<longleftrightarrow>
     (act_name act = updateauth_name \<longrightarrow>
        (\<exists>d. unpack_updateauth lib (act_data act) = Inr d \<and> actor p = ua_account d \<and>
           holds_over db p (changed_level db d))) \<and>
     (act_name act = deleteauth_name \<longrightarrow>
        (\<exists>d. unpack_deleteauth lib (act_data act) = Inr d \<and> actor p = da_account d \<and>
           holds_over db p \<lparr>actor = da_account d, permission = da_permission d\<rparr>)) \<and>
     (act_name act = linkauth_name \<longrightarrow>
        (\<exists>d. unpack_linkauth lib (act_data act) = Inr d \<and> actor p = la_account d \<and>
           (la_code d = system_account_name \<longrightarrow> la_type d \<notin> native_names) \<and>
           meets db p (required_level db (la_account d) (la_code d) (la_type d)))) \<and>
     (act_name act = unlinkauth_name \<longrightarrow>
        (\<exists>d. unpack_unlinkauth lib (act_data act) = Inr d \<and> actor p = ul_account d \<and>
           lookup_linked_permission db (ul_account d) (ul_code d) (ul_type d) \<noteq> None \<and>
           meets db p (required_level db (ul_account d) (ul_code d) (ul_type d))))"

lemma get_permission_row: "auth_ok db \<Longrightarrow> get_permission db l = Inr p \<Longrightarrow> map_of (permissions db) (po_id p) = Some p"
  by (simp add: get_permission_Inr)

lemma satisfies_levels:
  assumes "auth_ok db" "get_permission db l = Inr p" "get_permission db l' = Inr q"
  shows "satisfies db p q = Inr (po_owner p = po_owner q \<and> ancestor db (po_id p) (po_id q))"
  using assms by (intro satisfies_iff) (simp_all add: get_permission_row get_permission_nonzero)

lemma assert_satisfies_level:
  assumes ok: "auth_ok db" and m: "get_permission db l = Inr m"
  shows "assert_satisfies db auth m = Inr () \<longleftrightarrow> holds_over db auth l"
proof -
  have "assert_satisfies db auth m = Inr () \<longleftrightarrow> (\<exists>p. get_permission db auth = Inr p \<and> satisfies db p m = Inr True)"
    by (auto simp: assert_satisfies_def result_simps)
  with satisfies_levels [OF ok _ m] m show ?thesis by (auto simp: holds_over_def)
qed

lemma assert_satisfies_level_iff:
  assumes ok: "auth_ok db"
  shows "assert_satisfies_level db auth l = Inr () \<longleftrightarrow> holds_over db auth l"
proof -
  have "assert_satisfies_level db auth l = Inr () \<longleftrightarrow>
      (\<exists>p q. get_permission db auth = Inr p \<and> get_permission db l = Inr q \<and> satisfies db p q = Inr True)"
    by (auto simp: assert_satisfies_level_def result_simps)
  with satisfies_levels [OF ok] show ?thesis by (auto simp: holds_over_def)
qed

lemma sole_authorization_Inr: "sole_authorization a auths = Inr p \<longleftrightarrow> auths = [p] \<and> actor p = a"
  by (auto simp: sole_authorization_def result_simps split: list.splits)

lemma not_native:
  "n \<noteq> updateauth_name \<and> n \<noteq> deleteauth_name \<and> n \<noteq> linkauth_name \<and> n \<noteq> unlinkauth_name \<longleftrightarrow> n \<notin> native_names"
  by (simp add: native_names_def)

lemma lookup_minimum_permission_Inr:
  "lookup_minimum_permission db a scope act = Inr n \<longleftrightarrow>
     \<not> (scope = system_account_name \<and> act \<in> native_names) \<and>
     required_level db a scope act = map_option (\<lambda>n. \<lparr>actor = a, permission = n\<rparr>) n"
proof (cases "lookup_linked_permission db a scope act")
  case None
  then show ?thesis
    by (cases n; cases "scope = system_account_name")
      (auto simp: lookup_minimum_permission_def required_level_def not_native result_simps)
next
  case (Some m)
  then show ?thesis
    by (cases n; cases "scope = system_account_name"; cases "m = eosio_any_name")
      (auto simp: lookup_minimum_permission_def required_level_def not_native result_simps)
qed

lemma find_permission_Inr:
  "find_permission db l = Inr r \<longleftrightarrow> l \<in> named_levels \<and> r = find_by_owner db (actor l) (permission l)"
  by (auto simp: find_permission_def check_level_def named_levels_def result_simps)

lemma check_updateauth_iff:
  assumes ok: "auth_ok db"
  shows "check_updateauth_authorization db d auths = Inr () \<longleftrightarrow>
     (\<exists>p. auths = [p] \<and> actor p = ua_account d \<and> ua_account d \<noteq> 0 \<and> ua_permission d \<noteq> 0 \<and>
        holds_over db p (changed_level db d))"
proof (cases "find_by_owner db (ua_account d) (ua_permission d)")
  case None
  show ?thesis
    using None assert_satisfies_level [OF ok]
    by (auto simp: check_updateauth_authorization_def result_simps sole_authorization_Inr find_permission_Inr named_levels_def changed_level_def)
      (auto simp: holds_over_def)
next
  case (Some m)
  have "get_permission db \<lparr>actor = ua_account d, permission = ua_permission d\<rparr> = Inr m"
    if "ua_account d \<noteq> 0" "ua_permission d \<noteq> 0"
    using Some that ok by (simp add: get_permission_Inr find_by_owner_Some named_levels_def)
  from assert_satisfies_level [OF ok this] Some show ?thesis
    by (auto simp: check_updateauth_authorization_def result_simps sole_authorization_Inr find_permission_Inr named_levels_def changed_level_def)
qed

lemma check_deleteauth_iff:
  assumes ok: "auth_ok db"
  shows "check_deleteauth_authorization db d auths = Inr () \<longleftrightarrow>
     (\<exists>p. auths = [p] \<and> actor p = da_account d \<and> holds_over db p \<lparr>actor = da_account d, permission = da_permission d\<rparr>)"
  using assert_satisfies_level [OF ok]
  by (auto simp: check_deleteauth_authorization_def result_simps sole_authorization_Inr) (auto simp: holds_over_def)

lemma check_linkauth_iff:
  assumes ok: "auth_ok db"
  shows "check_linkauth_authorization env db d auths = Inr () \<longleftrightarrow>
     (\<exists>p. auths = [p] \<and> actor p = la_account d \<and>
        (la_code d = system_account_name \<or> \<not> fix_linkauth_restriction env \<longrightarrow> la_type d \<notin> native_names) \<and>
        meets db p (required_level db (la_account d) (la_code d) (la_type d)))"
proof -
  let ?req = "required_level db (la_account d) (la_code d) (la_type d)"
  have "rbind (lookup_minimum_permission db (la_account d) (la_code d) (la_type d))
      (\<lambda>n. case n of None \<Rightarrow> Inr () | Some n \<Rightarrow> assert_satisfies_level db p \<lparr>actor = la_account d, permission = n\<rparr>) = Inr () \<longleftrightarrow>
      \<not> (la_code d = system_account_name \<and> la_type d \<in> native_names) \<and> meets db p ?req" (is "?l \<longleftrightarrow> ?r") for p
  proof
    assume ?l
    then show ?r
      by (auto simp: result_simps lookup_minimum_permission_Inr meets_def assert_satisfies_level_iff [OF ok] split: option.splits)
  next
    assume r: ?r
    define n where "n = map_option permission ?req"
    have n: "?req = map_option (\<lambda>n. \<lparr>actor = la_account d, permission = n\<rparr>) n"
      by (auto simp: n_def required_level_def split: option.splits)
    then have "lookup_minimum_permission db (la_account d) (la_code d) (la_type d) = Inr n"
      using r by (simp add: lookup_minimum_permission_Inr)
    with r n show ?l by (cases n) (auto simp: meets_def assert_satisfies_level_iff [OF ok])
  qed
  then show ?thesis
    by (auto simp: check_linkauth_authorization_def result_simps sole_authorization_Inr not_native)
qed

lemma check_unlinkauth_iff:
  assumes ok: "auth_ok db"
  shows "check_unlinkauth_authorization db d auths = Inr () \<longleftrightarrow>
     (\<exists>p. auths = [p] \<and> actor p = ul_account d \<and>
        lookup_linked_permission db (ul_account d) (ul_code d) (ul_type d) \<noteq> None \<and>
        meets db p (required_level db (ul_account d) (ul_code d) (ul_type d)))"
  by (auto simp: check_unlinkauth_authorization_def result_simps sole_authorization_Inr required_level_def
      assert_satisfies_level_iff [OF ok] meets_def split: option.splits if_splits)

lemma for_each_unit: "for_each (\<lambda>x _. f x) xs () = Inr () \<longleftrightarrow> (\<forall>x \<in> set xs. f x = Inr ())"
  by (induction xs) (auto simp: rbind_eq_Inr_iff)

lemma check_actions_Inr:
  "check_actions lib env db S acts ps = Inr ps' \<Longrightarrow>
     ps' = ps @ concat (map (\<lambda>act. filter (\<lambda>p. p \<notin> set S) (act_authorization act)) acts) \<and>
     (\<forall>act \<in> set acts. \<exists>special. check_special_case lib env db act = Inr special \<and>
        (\<forall>p \<in> set (act_authorization act). check_declared db act special p = Inr ()))"
proof (induction acts arbitrary: ps)
  case (Cons act acts)
  then obtain special where s: "check_special_case lib env db act = Inr special"
    "for_each (\<lambda>p _. check_declared db act special p) (act_authorization act) () = Inr ()"
    "check_actions lib env db S acts (ps @ filter (\<lambda>p. p \<notin> set S) (act_authorization act)) = Inr ps'"
    by (auto simp: result_simps)
  from Cons.IH [OF s(3)] s(1,2) show ?case by (simp add: for_each_unit)
qed simp

lemma satisfy_all_Inr:
  "satisfy_all c ps used = Inr used' \<Longrightarrow> p \<in> set ps \<Longrightarrow>
     \<exists>used1 used2 cache. satisfied_permission c p None used1 = Inr (True, (used2, cache))"
proof (induction ps arbitrary: used)
  case (Cons q ps)
  then obtain used1 cache where "satisfied_permission c q None used = Inr (True, (used1, cache))" "satisfy_all c ps used1 = Inr used'"
    by (auto simp: result_simps)
  with Cons.IH [of used1] Cons.prems(2) show ?case by auto
qed simp

lemma native_distinct: "distinct [updateauth_name, deleteauth_name, linkauth_name, unlinkauth_name]"
  by (simp add: name_values)

lemma check_special_case_Inr:
  assumes ok: "auth_ok db" and "check_special_case lib env db act = Inr special"
  shows "special = is_native act"
    "special \<Longrightarrow> \<exists>p. act_authorization act = [p] \<and> native_authorized lib db act p"
proof -
  show "special = is_native act"
    using assms(2) by (auto simp: check_special_case_def is_native_def native_names_def result_simps split: if_splits)
  show "\<exists>p. act_authorization act = [p] \<and> native_authorized lib db act p" if special
  proof -
    have "act_name act \<in> native_names" "act_account act = system_account_name"
      using \<open>special = is_native act\<close> that by (simp_all add: is_native_def)
    then consider "act_name act = updateauth_name" | "act_name act = deleteauth_name" | "act_name act = linkauth_name"
      | "act_name act = unlinkauth_name"
      by (auto simp: native_names_def)
    then show ?thesis
      using assms(2) native_distinct \<open>act_account act = _\<close>
      by cases (auto simp: check_special_case_def native_authorized_def data_as_def result_simps check_updateauth_iff [OF ok]
        check_deleteauth_iff [OF ok] check_linkauth_iff [OF ok] check_unlinkauth_iff [OF ok])
  qed
qed

lemma check_declared_iff:
  assumes ok: "auth_ok db"
  shows "check_declared db act False p = Inr () \<longleftrightarrow>
     \<not> is_native act \<and> meets db p (required_level db (actor p) (act_account act) (act_name act))"
proof -
  let ?req = "required_level db (actor p) (act_account act) (act_name act)"
  define n where "n = map_option permission ?req"
  have n: "?req = map_option (\<lambda>n. \<lparr>actor = actor p, permission = n\<rparr>) n"
    by (auto simp: n_def required_level_def split: option.splits)
  show ?thesis
  proof (cases "is_native act")
    case True
    then show ?thesis
      by (auto simp: check_declared_def result_simps lookup_minimum_permission_Inr is_native_def)
  next
    case False
    then have "lookup_minimum_permission db (actor p) (act_account act) (act_name act) = Inr n"
      using n by (auto simp: lookup_minimum_permission_Inr is_native_def)
    with n False show ?thesis
      using assert_satisfies_level [OF ok]
      by (cases n) (auto simp: check_declared_def meets_def result_simps, auto simp: holds_over_def)
  qed
qed

lemma check_authorization_facts:
  assumes ok: "auth_ok db" and run: "check_authorization lib env db acts pkeys pperms unused S = Inr ()"
    and act: "act \<in> set acts" and p: "p \<in> set (act_authorization act)"
  shows "p \<in> set S \<or> level_ok (get_authority db) (set pkeys) (set pperms) p"
    "if is_native act then act_authorization act = [p] \<and> native_authorized lib db act p
     else meets db p (required_level db (actor p) (act_account act) (act_name act))"
proof -
  obtain c used ps used' where c: "make_auth_checker (get_authority db) (max_authority_depth env) pkeys pperms = (c, used)"
    and ps: "check_actions lib env db S acts [] = Inr ps" and sat: "satisfy_all c ps used = Inr used'"
    using run by (auto simp: check_authorization_def result_simps split: prod.splits)
  have cf: "permission_to_authority c = get_authority db" "provided_keys c = pkeys" "provided_permissions c = pperms"
    using c by (auto simp: make_auth_checker_def)
  note acts = check_actions_Inr [OF ps]
  show "p \<in> set S \<or> level_ok (get_authority db) (set pkeys) (set pperms) p"
  proof (cases "p \<in> set S")
    case False
    with act p acts have "p \<in> set ps" by auto
    from satisfy_all_Inr [OF sat this] satisfied_permission_sound [of c p] cf show ?thesis by auto
  qed simp
  obtain special where sp: "check_special_case lib env db act = Inr special" "check_declared db act special p = Inr ()"
    using acts act p by blast
  show "if is_native act then act_authorization act = [p] \<and> native_authorized lib db act p
     else meets db p (required_level db (actor p) (act_account act) (act_name act))"
    using check_special_case_Inr [OF ok sp(1)] sp(2) p check_declared_iff [OF ok, of act p] by (cases special) auto
qed

section \<open>A database with two accounts\<close>

definition sample_env :: "nat auth_env" where
  "sample_env = \<lparr>key_which = (\<lambda>_. 0), num_supported_key_types = 2, pending_block_time = 100, max_authority_depth = 6,
     fix_linkauth_restriction = True\<rparr>"

definition sample_create :: "account_name \<Rightarrow> permission_name \<Rightarrow> oid \<Rightarrow> nat authority \<Rightarrow> nat auth_db \<Rightarrow> nat auth_db" where
  "sample_create a n par auth db = snd (projr (create_permission sample_env a n par auth 0 db))"

definition sample_auth_db :: "nat auth_db" where
  "sample_auth_db =
     sample_create 5 8 2 (authority_of_permission \<lparr>actor = 6, permission = 7\<rparr> 0)
       (sample_create 6 7 0 (authority_of_key 20 0)
         (sample_create 5 active_name 1 (authority_of_key 11 0)
           (sample_create 5 owner_name 0 (authority_of_key 10 0) (projr (auth_initialize_database empty_auth_db)))))"

lemma sample_create_ok:
  assumes "auth_ok db" "a \<noteq> 0" "n \<noteq> 0" "levels_named auth" "parent_fits db a par"
    "\<not> isl (create_permission sample_env a n par auth 0 db)"
  shows "auth_ok (sample_create a n par auth db)"
proof -
  obtain p db' where "create_permission sample_env a n par auth 0 db = Inr (p, db')"
    using assms(6) by (cases "create_permission sample_env a n par auth 0 db") auto
  with auth_ok_create [OF assms(1) this assms(2-5)] show ?thesis by (simp add: sample_create_def)
qed

lemma levels_named_code [code]:
  "levels_named auth \<longleftrightarrow> list_all (\<lambda>q. actor (plw_permission q) \<noteq> 0 \<and> permission (plw_permission q) \<noteq> 0) (accounts auth)"
  by (auto simp: levels_named_def named_levels_def list_all_iff)

lemma parent_fits_code [code]:
  "parent_fits db a par \<longleftrightarrow> par = 0 \<or> (case map_of (permissions db) par of None \<Rightarrow> False | Some q \<Rightarrow> po_owner q = a)"
  by (auto simp: parent_fits_def split: option.splits)

lemma sample_auth_ok: "auth_ok sample_auth_db"
  unfolding sample_auth_db_def
proof (intro sample_create_ok)
  show "auth_ok (projr (auth_initialize_database empty_auth_db))"
    by (rule auth_ok_initialize) (simp add: auth_initialize_database_def empty_auth_db_def create_permission_object_def find_by_owner_def Let_def)
qed code_simp+

definition sample_lib :: "nat action_lib" where
  "sample_lib = \<lparr>unpack_updateauth = (\<lambda>_. Inl Fc_exception), unpack_deleteauth = (\<lambda>_. Inl Fc_exception),
     unpack_linkauth = (\<lambda>_. Inl Fc_exception), unpack_unlinkauth = (\<lambda>_. Inl Fc_exception)\<rparr>"

definition sample_action :: action where
  "sample_action = \<lparr>act_account = 30, act_name = 31, act_authorization = [\<lparr>actor = 5, permission = owner_name\<rparr>], act_data = []\<rparr>"

section \<open>Properties of the authorization manager\<close>

text \<open>
  C3: soundness of the authorization of transactions. When \<^verbatim>\<open>check_authorization\<close> accepts a list of actions on a
  well-formed database, every declared authorization was satisfied before or is granted by the provided keys and
  permissions; it is a permission that its account requires for the action, or an ancestor of it, according to the
  links of the account; and a native action on permissions has a single authorization, by the account whose permissions
  it changes, that holds over the permission it changes or unlinks.
\<close>

theorem check_authorization_sound:
  assumes "auth_ok db" and "check_authorization lib env db acts pkeys pperms unused S = Inr ()"
    and "act \<in> set acts" "p \<in> set (act_authorization act)"
  shows "(p \<in> set S \<or> level_ok (get_authority db) (set pkeys) (set pperms) p) \<and>
    (if is_native act then act_authorization act = [p] \<and> native_authorized lib db act p
     else meets db p (required_level db (actor p) (act_account act) (act_name act)))"
  using check_authorization_facts [OF assms] by blast

theorem check_authorization_sound_witness:
  "level_ok (get_authority sample_auth_db) {10} {} \<lparr>actor = 5, permission = owner_name\<rparr> \<and>
   meets sample_auth_db \<lparr>actor = 5, permission = owner_name\<rparr> (required_level sample_auth_db 5 30 31)"
proof -
  have run: "check_authorization sample_lib sample_env sample_auth_db [sample_action] [10] [] False [] = Inr ()"
    by code_simp
  have "\<not> is_native sample_action" by code_simp
  with check_authorization_sound [OF sample_auth_ok run, of sample_action "\<lparr>actor = 5, permission = owner_name\<rparr>"]
  show ?thesis by (simp add: sample_action_def)
qed

text \<open>
  C28: \<^verbatim>\<open>permission_object::satisfies\<close> returns on every well-formed database, and returns true exactly when both
  permissions have the same owner and the first one is the second one or an ancestor of it.
\<close>

theorem satisfies_is_ancestor:
  assumes "auth_ok db" "get_permission db l = Inr p" "get_permission db l' = Inr q"
  shows "satisfies db p q = Inr (po_owner p = po_owner q \<and> ancestor db (po_id p) (po_id q))"
  using assms by (rule satisfies_levels)

theorem satisfies_is_ancestor_witness:
  "\<exists>p q. get_permission sample_auth_db \<lparr>actor = 5, permission = owner_name\<rparr> = Inr p \<and>
     get_permission sample_auth_db \<lparr>actor = 5, permission = 8\<rparr> = Inr q \<and>
     satisfies sample_auth_db p q = Inr (po_owner p = po_owner q \<and> ancestor sample_auth_db (po_id p) (po_id q))"
proof -
  have "\<not> isl (get_permission sample_auth_db \<lparr>actor = 5, permission = owner_name\<rparr>)"
    "\<not> isl (get_permission sample_auth_db \<lparr>actor = 5, permission = 8\<rparr>)" by code_simp+
  then obtain p q where "get_permission sample_auth_db \<lparr>actor = 5, permission = owner_name\<rparr> = Inr p"
    "get_permission sample_auth_db \<lparr>actor = 5, permission = 8\<rparr> = Inr q"
    by (metis isl_def sum.exhaust)
  with satisfies_is_ancestor [OF sample_auth_ok] show ?thesis by blast
qed

end
