(* ===== verification/Eosio_Contract.thy ===== *)
theory Eosio_Contract
  imports Authorization_Manager Resource_Limits Block_Header
begin

text \<open>
  The native actions of the system account (\<^verbatim>\<open>eosio_contract.cpp\<close>): creating accounts, setting code and ABI, changing
  and deleting permissions, linking and unlinking them, with the rows of accounts and of code they change and the RAM
  they bill. What they read from the controller are fields of \<open>native_env\<close>; unpacking and hashing by fc and the
  validation of WebAssembly modules are fields of \<open>native_lib\<close>. The containers of accounts, of their metadata and of code
  are maps, because no native action walks through them. An exception undoes all changes of the transaction, so a failed
  action has no resulting state.
\<close>

section \<open>Data\<close>

definition newaccount_name :: name where "newaccount_name = name_literal ''newaccount''"
definition setcode_name :: name where "setcode_name = name_literal ''setcode''"
definition setabi_name :: name where "setabi_name = name_literal ''setabi''"
definition canceldelay_name :: name where "canceldelay_name = name_literal ''canceldelay''"

record 'k newaccount =
  na_creator :: account_name
  na_name :: account_name
  na_owner :: "'k authority"
  na_active :: "'k authority"

record setcode =
  sc_account :: account_name
  sc_vmtype :: u8
  sc_vmversion :: u8
  sc_code :: bytes

record setabi =
  sa_account :: account_name
  sa_abi :: bytes

record account_object =
  creation_date :: block_timestamp_type
  acc_abi :: bytes

record account_metadata_object =
  recv_sequence :: u64
  auth_sequence :: u64
  code_sequence :: u64
  abi_sequence :: u64
  code_hash :: digest_type
  last_code_update :: time_point
  flags :: u32
  vm_type :: u8
  vm_version :: u8

record code_object =
  co_code :: bytes
  code_ref_count :: u64
  first_block_used :: u32

definition empty_digest :: digest_type where
  "empty_digest = \<lparr>hash0 = 0, hash1 = 0, hash2 = 0, hash3 = 0\<rparr>"

definition new_metadata :: account_metadata_object where
  "new_metadata = \<lparr>recv_sequence = 0, auth_sequence = 0, code_sequence = 0, abi_sequence = 0, code_hash = empty_digest,
     last_code_update = 0, flags = 0, vm_type = 0, vm_version = 0\<rparr>"

definition is_privileged :: "account_metadata_object \<Rightarrow> bool" where
  "is_privileged m \<longleftrightarrow> bit (flags m) 0"

definition code_key :: "account_metadata_object \<Rightarrow> digest_type \<times> u8 \<times> u8" where
  "code_key m = (code_hash m, vm_type m, vm_version m)"

record 'k native_lib = "'k action_lib" +
  unpack_newaccount :: "bytes \<Rightarrow> (chain_exception, 'k newaccount) result"
  unpack_setcode :: "bytes \<Rightarrow> (chain_exception, setcode) result"
  unpack_setabi :: "bytes \<Rightarrow> (chain_exception, setabi) result"
  code_sha256 :: "bytes \<Rightarrow> digest_type"
  key_pack_size :: "'k \<Rightarrow> u64"
  wasm_validate :: "bytes \<Rightarrow> (chain_exception, unit) result"

record 'k native_env = "'k auth_env" +
  head_block_num :: u32
  max_transaction_delay :: u32
  only_link_to_existing_permission :: bool
  enforce_whiteblacklist :: bool
  is_producing_block :: bool
  key_blacklist :: "'k list"

text \<open>The state of the database and what the transaction and the action record about RAM.\<close>

record 'k native_state =
  ns_auth :: "'k auth_db"
  ns_accounts :: "account_name \<rightharpoonup> account_object"
  ns_metadata :: "account_name \<rightharpoonup> account_metadata_object"
  ns_codes :: "digest_type \<times> u8 \<times> u8 \<rightharpoonup> code_object"
  ns_resources :: resource_db
  validate_ram_usage :: "account_name set"
  account_ram_deltas :: "(account_name, i64) index"

section \<open>Billed sizes\<close>

definition billable_size_v :: "u64 \<Rightarrow> u64" where
  "billable_size_v v = ((v + 16 - 1) div 16) * 16"

definition permission_level_weight_size :: u64 where "permission_level_weight_size = 24"
definition key_weight_size :: u64 where "key_weight_size = 8"
definition wait_weight_size :: u64 where "wait_weight_size = 16"
definition shared_authority_size :: u64 where "shared_authority_size = 3 * 16 + 4"
definition permission_object_size :: u64 where
  "permission_object_size = (billable_size_v shared_authority_size + 64) + 5 * 32"
definition permission_link_object_size :: u64 where "permission_link_object_size = 40 + 32 * 3"
definition overhead_per_account_ram_bytes :: u64 where "overhead_per_account_ram_bytes = 2 * 1024"
definition setcode_ram_bytes_multiplier :: u64 where "setcode_ram_bytes_multiplier = 10"

definition get_billable_size :: "('k, 'x) native_lib_scheme \<Rightarrow> 'k authority \<Rightarrow> u64" where
  "get_billable_size lib auth =
     (let accounts_size = of_nat (length (accounts auth)) * billable_size_v permission_level_weight_size;
          waits_size = of_nat (length (waits auth)) * billable_size_v wait_weight_size;
          keys_size = (\<Sum>k\<leftarrow>keys auth. billable_size_v key_weight_size + key_pack_size lib (kw_key k))
      in accounts_size + waits_size + keys_size)"

section \<open>The context of an action\<close>

definition require_authorization :: "action \<Rightarrow> account_name \<Rightarrow> (chain_exception, unit) result" where
  "require_authorization act account =
     (if list_ex (\<lambda>p. actor p = account) (act_authorization act) then Inr () else Inl Missing_auth_exception)"

text \<open>Arithmetic of \<^verbatim>\<open>int64_t\<close>, undefined when it overflows.\<close>

definition add_i64 :: "i64 \<Rightarrow> i64 \<Rightarrow> (chain_exception, i64) result" where
  "add_i64 a b = (if sint (a + b) = sint a + sint b then Inr (a + b) else Inl Undefined_behaviour)"

definition sub_i64 :: "i64 \<Rightarrow> i64 \<Rightarrow> (chain_exception, i64) result" where
  "sub_i64 a b = (if sint (a - b) = sint a - sint b then Inr (a - b) else Inl Undefined_behaviour)"

definition mul_i64 :: "i64 \<Rightarrow> i64 \<Rightarrow> (chain_exception, i64) result" where
  "mul_i64 a b = (if sint (a * b) = sint a * sint b then Inr (a * b) else Inl Undefined_behaviour)"

lemma i64_InrD: "sub_i64 a b = Inr d \<Longrightarrow> d = a - b" "mul_i64 a b = Inr d \<Longrightarrow> d = a * b"
  by (auto simp: sub_i64_def mul_i64_def split: if_splits)

definition trx_add_ram_usage :: "account_name \<Rightarrow> i64 \<Rightarrow> 'k native_state \<Rightarrow> (chain_exception, 'k native_state) result" where
  "trx_add_ram_usage account ram_delta s =
     rbind (add_pending_ram_usage account ram_delta (ns_resources s)) (\<lambda>r.
     Inr (s\<lparr>ns_resources := r,
            validate_ram_usage := (if 0 < sint ram_delta then insert account (validate_ram_usage s) else validate_ram_usage s)\<rparr>))"

definition add_ram_usage :: "account_name \<Rightarrow> i64 \<Rightarrow> 'k native_state \<Rightarrow> (chain_exception, 'k native_state) result" where
  "add_ram_usage account ram_delta s =
     rbind (trx_add_ram_usage account ram_delta s) (\<lambda>s.
     rbind (case map_of (account_ram_deltas s) account of
              None \<Rightarrow> Inr ram_delta
            | Some d \<Rightarrow> add_i64 d ram_delta) (\<lambda>d.
     Inr (s\<lparr>account_ram_deltas := idx_put account d (account_ram_deltas s)\<rparr>)))"

definition check_key_list :: "('k, 'x) native_env_scheme \<Rightarrow> 'k \<Rightarrow> (chain_exception, unit) result" where
  "check_key_list env key =
     (if key_blacklist env \<noteq> [] then eos_assert (key \<notin> set (key_blacklist env)) Key_blacklist_exception else Inr ())"

section \<open>Accounts\<close>

text \<open>The body of the first loop, for an entry of the authority that is a permission level.\<close>

definition check_authority_account :: "'k native_state \<Rightarrow> permission_level \<Rightarrow> (chain_exception, unit) result" where
  "check_authority_account s p =
     rbind (eos_assert (ns_accounts s (actor p) \<noteq> None) Action_validate_exception) (\<lambda>_.
     if permission p = owner_name \<or> permission p = active_name then Inr ()
     else if permission p = eosio_code_name then Inr ()
     else (case get_permission (ns_auth s) \<lparr>actor = actor p, permission = permission p\<rparr> of
             Inl e \<Rightarrow> Inl (if e = Permission_query_exception then Action_validate_exception else e)
           | Inr _ \<Rightarrow> Inr ()))"

definition validate_authority_precondition :: "('k, 'x) native_env_scheme \<Rightarrow> 'k native_state \<Rightarrow> 'k authority \<Rightarrow> (chain_exception, unit) result" where
  "validate_authority_precondition env s auth =
     rbind (for_each (\<lambda>a _. check_authority_account s (plw_permission a)) (accounts auth) ()) (\<lambda>_.
     if enforce_whiteblacklist env \<and> is_producing_block env
     then for_each (\<lambda>k _. check_key_list env (kw_key k)) (keys auth) ()
     else Inr ())"

definition timestamp_of_time_point :: "time_point \<Rightarrow> block_timestamp_type" where
  "timestamp_of_time_point t = timestamp_from_msec (word_of_int (sgn t * (\<bar>t\<bar> div 1000)))"

definition apply_eosio_newaccount :: "('k :: linorder, 'x) native_lib_scheme \<Rightarrow> 'k native_env \<Rightarrow> action \<Rightarrow> 'k native_state \<Rightarrow>
    (chain_exception, 'k native_state) result" where
  "apply_eosio_newaccount lib env act s =
     rbind (data_as newaccount_name (unpack_newaccount lib) act) (\<lambda>create.
     rbind (require_authorization act (na_creator create)) (\<lambda>_.
     rbind (eos_assert (validate (na_owner create)) Action_validate_exception) (\<lambda>_.
     rbind (eos_assert (validate (na_active create)) Action_validate_exception) (\<lambda>_.
     let name_str = to_string (na_name create) in
     rbind (eos_assert (na_name create \<noteq> 0) Action_validate_exception) (\<lambda>_.
     rbind (eos_assert (length name_str \<le> 12) Action_validate_exception) (\<lambda>_.
     rbind (case ns_metadata s (na_creator create) of None \<Rightarrow> Inl Unknown_key | Some m \<Rightarrow> Inr m) (\<lambda>creator.
     rbind (if is_privileged creator then Inr ()
            else eos_assert (take 6 name_str \<noteq> ''eosio.'') Action_validate_exception) (\<lambda>_.
     rbind (eos_assert (ns_accounts s (na_name create) = None) Account_name_exists_exception) (\<lambda>_.
     let s = s\<lparr>ns_accounts := (ns_accounts s)(na_name create \<mapsto>
                \<lparr>creation_date = timestamp_of_time_point (pending_block_time env), acc_abi = []\<rparr>)\<rparr> in
     rbind (if ns_metadata s (na_name create) \<noteq> None then Inl Uniqueness_violation
            else Inr (s\<lparr>ns_metadata := (ns_metadata s)(na_name create \<mapsto> new_metadata)\<rparr>)) (\<lambda>s.
     rbind (for_each (\<lambda>auth _. validate_authority_precondition env s auth) [na_owner create, na_active create] ()) (\<lambda>_.
     rbind (create_permission (auth_env.truncate env) (na_name create) owner_name 0 (na_owner create) 0 (ns_auth s)) (\<lambda>(owner_permission, a).
     rbind (create_permission (auth_env.truncate env) (na_name create) active_name (po_id owner_permission) (na_active create) 0 a) (\<lambda>(active_permission, a).
     rbind (initialize_account (na_name create) (ns_resources s)) (\<lambda>r.
     let s = s\<lparr>ns_auth := a, ns_resources := r\<rparr>;
         ram_delta = overhead_per_account_ram_bytes + 2 * billable_size_v permission_object_size +
           get_billable_size lib (po_auth owner_permission) + get_billable_size lib (po_auth active_permission) in
     add_ram_usage (na_name create) ram_delta s))))))))))))))"

section \<open>Code and ABI\<close>

definition remove_code_reference :: "digest_type \<times> u8 \<times> u8 \<Rightarrow> code_object \<Rightarrow> (digest_type \<times> u8 \<times> u8 \<rightharpoonup> code_object) \<Rightarrow>
    (digest_type \<times> u8 \<times> u8 \<rightharpoonup> code_object)" where
  "remove_code_reference k c codes =
     (if code_ref_count c = 1 then codes(k := None) else codes(k \<mapsto> c\<lparr>code_ref_count := code_ref_count c - 1\<rparr>))"

definition add_code_reference :: "digest_type \<times> u8 \<times> u8 \<Rightarrow> bytes \<Rightarrow> u32 \<Rightarrow> (digest_type \<times> u8 \<times> u8 \<rightharpoonup> code_object) \<Rightarrow>
    (digest_type \<times> u8 \<times> u8 \<rightharpoonup> code_object)" where
  "add_code_reference k code block_num codes =
     (case codes k of
        Some c \<Rightarrow> codes(k \<mapsto> c\<lparr>code_ref_count := code_ref_count c + 1\<rparr>)
      | None \<Rightarrow> codes(k \<mapsto> \<lparr>co_code = code, code_ref_count = 1, first_block_used = block_num\<rparr>))"

definition apply_eosio_setcode :: "('k, 'x) native_lib_scheme \<Rightarrow> 'k native_env \<Rightarrow> action \<Rightarrow> 'k native_state \<Rightarrow>
    (chain_exception, 'k native_state) result" where
  "apply_eosio_setcode lib env act s =
     rbind (data_as setcode_name (unpack_setcode lib) act) (\<lambda>a.
     rbind (require_authorization act (sc_account a)) (\<lambda>_.
     rbind (eos_assert (sc_vmtype a = 0) Invalid_contract_vm_type) (\<lambda>_.
     rbind (eos_assert (sc_vmversion a = 0) Invalid_contract_vm_version) (\<lambda>_.
     let code_size = of_nat (length (sc_code a)) :: i64;
         new_hash = (if 0 < sint code_size then code_sha256 lib (sc_code a) else empty_digest) in
     rbind (if 0 < sint code_size then wasm_validate lib (sc_code a) else Inr ()) (\<lambda>_.
     rbind (case ns_metadata s (sc_account a) of None \<Rightarrow> Inl Unknown_key | Some m \<Rightarrow> Inr m) (\<lambda>account.
     let existing_code = (code_hash account \<noteq> empty_digest) in
     rbind (eos_assert (0 < sint code_size \<or> existing_code) Set_exact_code) (\<lambda>_.
     rbind (mul_i64 code_size setcode_ram_bytes_multiplier) (\<lambda>new_size.
     rbind (if existing_code then
              (case ns_codes s (code_key account) of
                 None \<Rightarrow> Inl Unknown_key
               | Some old_code_entry \<Rightarrow>
                   rbind (eos_assert (code_hash account \<noteq> new_hash) Set_exact_code) (\<lambda>_.
                   rbind (mul_i64 (of_nat (length (co_code old_code_entry))) setcode_ram_bytes_multiplier) (\<lambda>old_size.
                   Inr (old_size, remove_code_reference (code_key account) old_code_entry (ns_codes s)))))
            else Inr (0, ns_codes s)) (\<lambda>(old_size, codes).
     let codes = (if 0 < sint code_size
                  then add_code_reference (new_hash, sc_vmtype a, sc_vmversion a) (sc_code a) (head_block_num env + 1) codes
                  else codes);
         s = s\<lparr>ns_codes := codes,
               ns_metadata := (ns_metadata s)(sc_account a \<mapsto> account\<lparr>code_sequence := code_sequence account + 1,
                 code_hash := new_hash, vm_type := sc_vmtype a, vm_version := sc_vmversion a,
                 last_code_update := pending_block_time env\<rparr>)\<rparr> in
     if new_size \<noteq> old_size
     then rbind (sub_i64 new_size old_size) (\<lambda>ram_delta. add_ram_usage (sc_account a) ram_delta s) else Inr s)))))))))"

definition apply_eosio_setabi :: "('k, 'x) native_lib_scheme \<Rightarrow> action \<Rightarrow> 'k native_state \<Rightarrow> (chain_exception, 'k native_state) result" where
  "apply_eosio_setabi lib act s =
     rbind (data_as setabi_name (unpack_setabi lib) act) (\<lambda>a.
     rbind (require_authorization act (sa_account a)) (\<lambda>_.
     rbind (case ns_accounts s (sa_account a) of None \<Rightarrow> Inl Unknown_key | Some x \<Rightarrow> Inr x) (\<lambda>account.
     let old_size = of_nat (length (acc_abi account)) :: i64;
         new_size = of_nat (length (sa_abi a));
         s = s\<lparr>ns_accounts := (ns_accounts s)(sa_account a \<mapsto> account\<lparr>acc_abi := sa_abi a\<rparr>)\<rparr> in
     rbind (case ns_metadata s (sa_account a) of None \<Rightarrow> Inl Unknown_key | Some m \<Rightarrow> Inr m) (\<lambda>m.
     let s = s\<lparr>ns_metadata := (ns_metadata s)(sa_account a \<mapsto> m\<lparr>abi_sequence := abi_sequence m + 1\<rparr>)\<rparr> in
     if new_size \<noteq> old_size
     then rbind (sub_i64 new_size old_size) (\<lambda>ram_delta. add_ram_usage (sa_account a) ram_delta s) else Inr s))))"

section \<open>Permissions and links\<close>

definition check_updateauth :: "'k native_env \<Rightarrow> ('k :: linorder) updateauth \<Rightarrow> 'k native_state \<Rightarrow> (chain_exception, unit) result" where
  "check_updateauth env update s =
     rbind (eos_assert (ua_permission update \<noteq> 0) Action_validate_exception) (\<lambda>_.
     rbind (eos_assert (take 6 (to_string (ua_permission update)) \<noteq> ''eosio.'') Action_validate_exception) (\<lambda>_.
     rbind (eos_assert (ua_permission update \<noteq> ua_parent update) Action_validate_exception) (\<lambda>_.
     rbind (if ns_accounts s (ua_account update) = None then Inl Unknown_key else Inr ()) (\<lambda>_.
     rbind (eos_assert (validate (ua_auth update)) Action_validate_exception) (\<lambda>_.
     rbind (if ua_permission update = active_name
            then eos_assert (ua_parent update = owner_name) Action_validate_exception else Inr ()) (\<lambda>_.
     rbind (if ua_permission update = owner_name
            then eos_assert (ua_parent update = 0) Action_validate_exception
            else eos_assert (ua_parent update \<noteq> 0) Action_validate_exception) (\<lambda>_.
     rbind (if waits (ua_auth update) \<noteq> []
            then eos_assert (ww_wait_sec (last (waits (ua_auth update))) \<le> max_transaction_delay env) Action_validate_exception
            else Inr ()) (\<lambda>_.
     validate_authority_precondition env s (ua_auth update)))))))))"

definition apply_eosio_updateauth :: "('k :: linorder, 'x) native_lib_scheme \<Rightarrow> 'k native_env \<Rightarrow> action \<Rightarrow> 'k native_state \<Rightarrow>
    (chain_exception, 'k native_state) result" where
  "apply_eosio_updateauth lib env act s =
     rbind (data_as updateauth_name (unpack_updateauth lib) act) (\<lambda>update.
     rbind (require_authorization act (ua_account update)) (\<lambda>_.
     rbind (check_updateauth env update s) (\<lambda>_.
     rbind (find_permission (ns_auth s) \<lparr>actor = ua_account update, permission = ua_permission update\<rparr>) (\<lambda>perm.
     rbind (if ua_permission update \<noteq> owner_name
            then rbind (get_permission (ns_auth s) \<lparr>actor = ua_account update, permission = ua_parent update\<rparr>) (\<lambda>p. Inr (po_id p))
            else Inr 0) (\<lambda>parent_id.
     case perm of
       Some p \<Rightarrow>
         rbind (eos_assert (parent_id = parent p) Action_validate_exception) (\<lambda>_.
         let old_size = billable_size_v permission_object_size + get_billable_size lib (po_auth p) in
         rbind (modify_permission (auth_env.truncate env) p (ua_auth update) (ns_auth s)) (\<lambda>a.
         let new_size = billable_size_v permission_object_size + get_billable_size lib (ua_auth update) in
         rbind (sub_i64 new_size old_size) (\<lambda>ram_delta. add_ram_usage (po_owner p) ram_delta (s\<lparr>ns_auth := a\<rparr>))))
     | None \<Rightarrow>
         rbind (create_permission (auth_env.truncate env) (ua_account update) (ua_permission update) parent_id (ua_auth update) 0 (ns_auth s)) (\<lambda>(p, a).
         let new_size = billable_size_v permission_object_size + get_billable_size lib (po_auth p) in
         add_ram_usage (ua_account update) new_size (s\<lparr>ns_auth := a\<rparr>)))))))"

definition apply_eosio_deleteauth :: "('k, 'x) native_lib_scheme \<Rightarrow> action \<Rightarrow> 'k native_state \<Rightarrow> (chain_exception, 'k native_state) result" where
  "apply_eosio_deleteauth lib act s =
     rbind (data_as deleteauth_name (unpack_deleteauth lib) act) (\<lambda>remove.
     rbind (require_authorization act (da_account remove)) (\<lambda>_.
     rbind (eos_assert (da_permission remove \<noteq> active_name) Action_validate_exception) (\<lambda>_.
     rbind (eos_assert (da_permission remove \<noteq> owner_name) Action_validate_exception) (\<lambda>_.
     rbind (eos_assert (\<not> list_ex (\<lambda>r. link_account (snd r) = da_account remove \<and> required_permission (snd r) = da_permission remove)
              (links (ns_auth s))) Action_validate_exception) (\<lambda>_.
     rbind (get_permission (ns_auth s) \<lparr>actor = da_account remove, permission = da_permission remove\<rparr>) (\<lambda>p.
     let old_size = billable_size_v permission_object_size + get_billable_size lib (po_auth p) in
     rbind (remove_permission p (ns_auth s)) (\<lambda>a.
     rbind (sub_i64 0 old_size) (\<lambda>ram_delta. add_ram_usage (da_account remove) ram_delta (s\<lparr>ns_auth := a\<rparr>)))))))))"

definition set_link :: "oid \<Rightarrow> permission_link_object \<Rightarrow> 'k auth_db \<Rightarrow> 'k auth_db" where
  "set_link i l a = a\<lparr>links := idx_put i l (links a)\<rparr>"

definition create_link :: "permission_link_object \<Rightarrow> 'k auth_db \<Rightarrow> 'k auth_db" where
  "create_link l a = (set_link (next_link a) l a)\<lparr>next_link := next_link a + 1\<rparr>"

definition remove_link :: "oid \<Rightarrow> 'k auth_db \<Rightarrow> 'k auth_db" where
  "remove_link i a = a\<lparr>links := idx_remove i (links a)\<rparr>"

definition apply_eosio_linkauth :: "('k, 'x) native_lib_scheme \<Rightarrow> 'k native_env \<Rightarrow> action \<Rightarrow> 'k native_state \<Rightarrow>
    (chain_exception, 'k native_state) result" where
  "apply_eosio_linkauth lib env act s =
     rbind (data_as linkauth_name (unpack_linkauth lib) act) (\<lambda>r.
     rbind (eos_assert (la_requirement r \<noteq> 0) Action_validate_exception) (\<lambda>_.
     rbind (require_authorization act (la_account r)) (\<lambda>_.
     rbind (eos_assert (ns_accounts s (la_account r) \<noteq> None) Account_query_exception) (\<lambda>_.
     rbind (eos_assert (ns_accounts s (la_code r) \<noteq> None) Account_query_exception) (\<lambda>_.
     rbind (if la_requirement r \<noteq> eosio_any_name then
              eos_assert (if only_link_to_existing_permission env
                then find_by_owner (ns_auth s) (la_account r) (la_requirement r) \<noteq> None
                else list_ex (\<lambda>p. po_name (snd p) = la_requirement r) (permissions (ns_auth s))) Permission_query_exception
            else Inr ()) (\<lambda>_.
     case find_link (ns_auth s) (la_account r) (la_code r) (la_type r) of
       Some (i, l) \<Rightarrow>
         rbind (eos_assert (required_permission l \<noteq> la_requirement r) Action_validate_exception) (\<lambda>_.
         Inr (s\<lparr>ns_auth := set_link i (l\<lparr>required_permission := la_requirement r\<rparr>) (ns_auth s)\<rparr>))
     | None \<Rightarrow>
         add_ram_usage (la_account r) (billable_size_v permission_link_object_size)
           (s\<lparr>ns_auth := create_link \<lparr>link_account = la_account r, link_code = la_code r, message_type = la_type r,
              required_permission = la_requirement r\<rparr> (ns_auth s)\<rparr>)))))))"

definition apply_eosio_unlinkauth :: "('k, 'x) native_lib_scheme \<Rightarrow> action \<Rightarrow> 'k native_state \<Rightarrow> (chain_exception, 'k native_state) result" where
  "apply_eosio_unlinkauth lib act s =
     rbind (data_as unlinkauth_name (unpack_unlinkauth lib) act) (\<lambda>u.
     rbind (require_authorization act (ul_account u)) (\<lambda>_.
     case find_link (ns_auth s) (ul_account u) (ul_code u) (ul_type u) of
       None \<Rightarrow> Inl Action_validate_exception
     | Some (i, l) \<Rightarrow>
         rbind (add_ram_usage (link_account l) (- billable_size_v permission_link_object_size) s) (\<lambda>s.
         Inr (s\<lparr>ns_auth := remove_link i (ns_auth s)\<rparr>))))"

definition apply_eosio_canceldelay :: "'k native_state \<Rightarrow> (chain_exception, 'k native_state) result" where
  "apply_eosio_canceldelay s = Inl Unsupported_feature"

text \<open>The handlers the controller registers; \<open>None\<close> for an action that has no native handler.\<close>

definition apply_native :: "('k :: linorder, 'x) native_lib_scheme \<Rightarrow> 'k native_env \<Rightarrow> account_name \<Rightarrow> action \<Rightarrow> 'k native_state \<Rightarrow>
    (chain_exception, 'k native_state) result option" where
  "apply_native lib env receiver act s =
     (if receiver \<noteq> system_account_name \<or> act_account act \<noteq> system_account_name then None
      else if act_name act = newaccount_name then Some (apply_eosio_newaccount lib env act s)
      else if act_name act = setcode_name then Some (apply_eosio_setcode lib env act s)
      else if act_name act = setabi_name then Some (apply_eosio_setabi lib act s)
      else if act_name act = updateauth_name then Some (apply_eosio_updateauth lib env act s)
      else if act_name act = deleteauth_name then Some (apply_eosio_deleteauth lib act s)
      else if act_name act = linkauth_name then Some (apply_eosio_linkauth lib env act s)
      else if act_name act = unlinkauth_name then Some (apply_eosio_unlinkauth lib act s)
      else if act_name act = canceldelay_name then Some (apply_eosio_canceldelay s)
      else None)"

section \<open>Look-ups after the operations on permissions\<close>

lemma option_eqI: "(\<And>y. x = Some y \<longleftrightarrow> x' = Some y) \<Longrightarrow> x = x'"
  by (cases x; cases x') auto

lemma find_by_owner_create:
  assumes ok: "auth_ok db" and new: "create_permission env a n par auth t db = Inr (p, db')" and ok': "auth_ok db'"
  shows "find_by_owner db' a' n' = (if a' = a \<and> n' = n then Some p else find_by_owner db a' n')"
    "map_of (permissions db') = (map_of (permissions db))(po_id p \<mapsto> p)" "links db' = links db" "next_link db' = next_link db"
    "po_id p = next_permission db" "po_owner p = a" "po_name p = n" "parent p = par" "po_auth p = auth"
proof -
  obtain c where c: "find_by_owner db a n = None"
    "p = \<lparr>po_id = next_permission db, usage_id = next_usage db, parent = par, po_owner = a, po_name = n,
       last_updated = c, po_auth = auth\<rparr>"
    "db' = db\<lparr>usages := idx_put (next_usage db) c (usages db), next_usage := next_usage db + 1,
       permissions := idx_put (next_permission db) p (permissions db), next_permission := next_permission db + 1\<rparr>"
    using create_permissionE [OF new] by blast
  show m: "map_of (permissions db') = (map_of (permissions db))(po_id p \<mapsto> p)"
    using c(2,3) auth_ok_parts(1) [OF ok] by (simp add: map_of_put)
  show "links db' = links db" "next_link db' = next_link db" "po_id p = next_permission db" "po_owner p = a" "po_name p = n"
    "parent p = par" "po_auth p = auth"
    using c(2,3) by simp_all
  have none: "map_of (permissions db) (po_id p) = None"
    using auth_okD(2) [OF ok] c(2) by (cases "map_of (permissions db) (po_id p)") auto
  show "find_by_owner db' a' n' = (if a' = a \<and> n' = n then Some p else find_by_owner db a' n')"
  proof (rule option_eqI)
    fix q
    have "find_by_owner db' a' n' = Some q \<longleftrightarrow>
        ((map_of (permissions db))(po_id p \<mapsto> p)) (po_id q) = Some q \<and> po_owner q = a' \<and> po_name q = n'"
      by (simp add: find_by_owner_Some [OF ok'] m)
    moreover have "find_by_owner db a' n' = Some q \<longleftrightarrow> map_of (permissions db) (po_id q) = Some q \<and> po_owner q = a' \<and> po_name q = n'"
      by (rule find_by_owner_Some [OF ok])
    ultimately show "find_by_owner db' a' n' = Some q \<longleftrightarrow> (if a' = a \<and> n' = n then Some p else find_by_owner db a' n') = Some q"
      using none c(1,2) by (cases "q = p") auto
  qed
qed

lemma find_by_owner_modify:
  assumes ok: "auth_ok db" and p: "map_of (permissions db) (po_id p) = Some p"
    and new: "modify_permission env p auth db = Inr db'" and ok': "auth_ok db'"
  shows "\<exists>p'. po_id p' = po_id p \<and> po_owner p' = po_owner p \<and> po_name p' = po_name p \<and> parent p' = parent p \<and> po_auth p' = auth \<and>
     map_of (permissions db') = (map_of (permissions db))(po_id p \<mapsto> p') \<and>
     (\<forall>a n. find_by_owner db' a n = (if a = po_owner p \<and> n = po_name p then Some p' else find_by_owner db a n))"
    "links db' = links db" "next_link db' = next_link db"
proof -
  define p' where "p' = p\<lparr>po_auth := auth, last_updated := pending_block_time env\<rparr>"
  have f: "po_id p' = po_id p" "po_owner p' = po_owner p" "po_name p' = po_name p" "parent p' = parent p" "po_auth p' = auth"
    by (simp_all add: p'_def)
  have db': "db' = db\<lparr>permissions := idx_put (po_id p) p' (permissions db)\<rparr>"
    using new by (auto simp: modify_permission_def result_simps p'_def)
  then show "links db' = links db" "next_link db' = next_link db" by simp_all
  have m: "map_of (permissions db') = (map_of (permissions db))(po_id p \<mapsto> p')"
    using db' auth_ok_parts(1) [OF ok] by (simp add: map_of_put)
  have "find_by_owner db' a n = (if a = po_owner p \<and> n = po_name p then Some p' else find_by_owner db a n)" for a n
  proof (rule option_eqI)
    fix q
    have l: "find_by_owner db' a n = Some q \<longleftrightarrow>
        ((map_of (permissions db))(po_id p \<mapsto> p')) (po_id q) = Some q \<and> po_owner q = a \<and> po_name q = n"
      by (simp add: find_by_owner_Some [OF ok'] m)
    have r: "find_by_owner db a n = Some q \<longleftrightarrow> map_of (permissions db) (po_id q) = Some q \<and> po_owner q = a \<and> po_name q = n"
      by (rule find_by_owner_Some [OF ok])
    show "find_by_owner db' a n = Some q \<longleftrightarrow>
        (if a = po_owner p \<and> n = po_name p then Some p' else find_by_owner db a n) = Some q"
    proof (cases "po_id q = po_id p")
      case True
      then show ?thesis unfolding l using f p r by auto
    next
      case False
      then have "\<not> (po_owner q = po_owner p \<and> po_name q = po_name p)" if "map_of (permissions db) (po_id q) = Some q"
        using auth_ok_unique [OF ok that p] by blast
      with False show ?thesis unfolding l using r f by auto
    qed
  qed
  with m f show "\<exists>p'. po_id p' = po_id p \<and> po_owner p' = po_owner p \<and> po_name p' = po_name p \<and> parent p' = parent p \<and> po_auth p' = auth \<and>
     map_of (permissions db') = (map_of (permissions db))(po_id p \<mapsto> p') \<and>
     (\<forall>a n. find_by_owner db' a n = (if a = po_owner p \<and> n = po_name p then Some p' else find_by_owner db a n))"
    by (intro exI [of _ p']) simp
qed

lemma find_by_owner_remove:
  assumes ok: "auth_ok db" and p: "map_of (permissions db) (po_id p) = Some p"
    and rem: "remove_permission p db = Inr db'" and ok': "auth_ok db'"
  shows "find_by_owner db' a n = (if a = po_owner p \<and> n = po_name p then None else find_by_owner db a n)"
    "map_of (permissions db') = (map_of (permissions db))(po_id p := None)" "links db' = links db" "next_link db' = next_link db"
proof -
  obtain t where db': "db' = db\<lparr>usages := idx_remove (usage_id p) (usages db), permissions := idx_remove (po_id p) (permissions db)\<rparr>"
    using remove_permissionE [OF rem] by blast
  then show m: "map_of (permissions db') = (map_of (permissions db))(po_id p := None)"
    and "links db' = links db" "next_link db' = next_link db"
    by (simp_all add: map_of_remove)
  show "find_by_owner db' a n = (if a = po_owner p \<and> n = po_name p then None else find_by_owner db a n)"
  proof (rule option_eqI)
    fix q
    have l: "find_by_owner db' a n = Some q \<longleftrightarrow>
        ((map_of (permissions db))(po_id p := None)) (po_id q) = Some q \<and> po_owner q = a \<and> po_name q = n"
      by (simp add: find_by_owner_Some [OF ok'] m)
    have r: "find_by_owner db a n = Some q \<longleftrightarrow> map_of (permissions db) (po_id q) = Some q \<and> po_owner q = a \<and> po_name q = n"
      by (rule find_by_owner_Some [OF ok])
    show "find_by_owner db' a n = Some q \<longleftrightarrow> (if a = po_owner p \<and> n = po_name p then None else find_by_owner db a n) = Some q"
    proof (cases "po_id q = po_id p")
      case True
      then show ?thesis unfolding l using p r by auto
    next
      case False
      then have "\<not> (po_owner q = po_owner p \<and> po_name q = po_name p)" if "map_of (permissions db) (po_id q) = Some q"
        using auth_ok_unique [OF ok that p] by blast
      with False show ?thesis unfolding l using r by auto
    qed
  qed
qed

text \<open>The links of actions do not touch the permissions.\<close>

lemma find_by_owner_links [simp]:
  "find_by_owner (set_link i l db) a n = find_by_owner db a n"
  "find_by_owner (create_link l db) a n = find_by_owner db a n"
  "find_by_owner (remove_link i db) a n = find_by_owner db a n"
  by (simp_all add: find_by_owner_def set_link_def create_link_def remove_link_def)

lemma permissions_links [simp]:
  "permissions (set_link i l db) = permissions db" "permissions (create_link l db) = permissions db"
  "permissions (remove_link i db) = permissions db"
  by (simp_all add: set_link_def create_link_def remove_link_def)

lemma find_linkD:
  assumes "idx_ok (links db)" "find_link db a c t = Some (i, l)"
  shows "map_of (links db) i = Some l" "link_account l = a" "link_code l = c" "message_type l = t"
  using find_SomeD [OF assms(2) [unfolded find_link_def]] idx_ok_lookup [OF assms(1), of "(i, l)"] by auto

lemma find_link_NoneD:
  "find_link db a c t = None \<Longrightarrow> map_of (links db) i = Some l \<Longrightarrow> \<not> (link_account l = a \<and> link_code l = c \<and> message_type l = t)"
  using map_of_SomeD by (fastforce simp: find_link_def find_None_iff)

lemma auth_ok_link_ops:
  assumes ok: "auth_ok db"
  shows "find_link db a c t = Some (i, l) \<Longrightarrow> auth_ok (set_link i (l\<lparr>required_permission := r\<rparr>) db)"
    "find_link db (link_account k) (link_code k) (message_type k) = None \<Longrightarrow> auth_ok (create_link k db)"
    "auth_ok (remove_link i db)"
proof -
  note parts = auth_ok_parts [OF ok]
  have lo: "map_of (links db) i = Some l \<Longrightarrow> i < next_link db"
    "map_of (links db) i = Some k \<Longrightarrow> map_of (links db) j = Some l \<Longrightarrow> link_account k = link_account l \<Longrightarrow>
      link_code k = link_code l \<Longrightarrow> message_type k = message_type l \<Longrightarrow> i = j" for i j k l
    using parts(6) unfolding links_ok_def by blast+
  show "auth_ok (set_link i (l\<lparr>required_permission := r\<rparr>) db)" if f: "find_link db a c t = Some (i, l)"
  proof -
    note l = find_linkD [OF parts(3) f]
    have "links_ok ((map_of (links db))(i \<mapsto> l\<lparr>required_permission := r\<rparr>)) (next_link db)"
      unfolding links_ok_def using lo l(1) by (auto split: if_splits)
    with parts show ?thesis by (intro auth_okI) (auto simp: set_link_def map_of_put idx_ok_put)
  qed
  show "auth_ok (create_link k db)" if f: "find_link db (link_account k) (link_code k) (message_type k) = None"
  proof -
    have "links_ok ((map_of (links db))(next_link db \<mapsto> k)) (next_link db + 1)"
      unfolding links_ok_def using lo by (auto split: if_splits intro: less_SucI dest: find_link_NoneD [OF f])
    with parts show ?thesis by (intro auth_okI) (auto simp: create_link_def set_link_def map_of_put idx_ok_put)
  qed
  have "links_ok ((map_of (links db))(i := None)) (next_link db)"
    unfolding links_ok_def using lo by (auto split: if_splits)
  with parts show "auth_ok (remove_link i db)" by (intro auth_okI) (auto simp: remove_link_def map_of_remove idx_ok_remove)
qed

section \<open>What a successful action has done\<close>

lemma add_ram_usageE:
  assumes "add_ram_usage a d s = Inr s'"
  obtains r v ds where "add_pending_ram_usage a d (ns_resources s) = Inr r"
    "s' = s\<lparr>ns_resources := r, validate_ram_usage := v, account_ram_deltas := ds\<rparr>"
  using assms by (auto simp: add_ram_usage_def trx_add_ram_usage_def result_simps split: option.splits)

lemma add_ram_usage_keeps:
  assumes "add_ram_usage a d s = Inr s'"
  shows "ns_auth s' = ns_auth s" "ns_accounts s' = ns_accounts s" "ns_metadata s' = ns_metadata s" "ns_codes s' = ns_codes s"
    "add_pending_ram_usage a d (ns_resources s) = Inr (ns_resources s')"
  by (rule add_ram_usageE [OF assms], simp)+

definition initial_size :: "('k, 'x) native_lib_scheme \<Rightarrow> 'k newaccount \<Rightarrow> u64" where
  "initial_size lib d = overhead_per_account_ram_bytes + 2 * billable_size_v permission_object_size +
     get_billable_size lib (na_owner d) + get_billable_size lib (na_active d)"

lemma newaccountE:
  fixes lib :: "('k :: linorder, 'x) native_lib_scheme"
  assumes "apply_eosio_newaccount lib env act s = Inr s'"
  obtains d acc s1 p1 a1 p2 a2 r where "unpack_newaccount lib (act_data act) = Inr d"
    "validate (na_owner d)" "validate (na_active d)" "na_name d \<noteq> 0" "ns_accounts s (na_name d) = None" "ns_metadata s (na_name d) = None"
    "s1 = s\<lparr>ns_accounts := (ns_accounts s)(na_name d \<mapsto> acc), ns_metadata := (ns_metadata s)(na_name d \<mapsto> new_metadata)\<rparr>" "acc_abi acc = []"
    "validate_authority_precondition env s1 (na_owner d) = Inr ()" "validate_authority_precondition env s1 (na_active d) = Inr ()"
    "create_permission (auth_env.truncate env) (na_name d) owner_name 0 (na_owner d) 0 (ns_auth s) = Inr (p1, a1)"
    "create_permission (auth_env.truncate env) (na_name d) active_name (po_id p1) (na_active d) 0 a1 = Inr (p2, a2)"
    "initialize_account (na_name d) (ns_resources s) = Inr r"
    "add_ram_usage (na_name d) (initial_size lib d) (s1\<lparr>ns_auth := a2, ns_resources := r\<rparr>) = Inr s'"
proof -
  obtain d where d: "data_as newaccount_name (unpack_newaccount lib) act = Inr d" "require_authorization act (na_creator d) = Inr ()"
    "validate (na_owner d)" "validate (na_active d)" "na_name d \<noteq> 0"
    using assms by (auto simp: apply_eosio_newaccount_def Let_def rbind_eq_Inr_iff eos_assert_eq_Inr_iff)
  define acc where "acc = \<lparr>creation_date = timestamp_of_time_point (pending_block_time env), acc_abi = []\<rparr>"
  define s1 where "s1 = s\<lparr>ns_accounts := (ns_accounts s)(na_name d \<mapsto> acc), ns_metadata := (ns_metadata s)(na_name d \<mapsto> new_metadata)\<rparr>"
  have "ns_accounts s (na_name d) = None" "ns_metadata s (na_name d) = None"
    and rest: "rbind (for_each (\<lambda>auth _. validate_authority_precondition env s1 auth) [na_owner d, na_active d] ()) (\<lambda>_.
     rbind (create_permission (auth_env.truncate env) (na_name d) owner_name 0 (na_owner d) 0 (ns_auth s1)) (\<lambda>(owner_permission, a).
     rbind (create_permission (auth_env.truncate env) (na_name d) active_name (po_id owner_permission) (na_active d) 0 a) (\<lambda>(active_permission, a).
     rbind (initialize_account (na_name d) (ns_resources s1)) (\<lambda>r.
     add_ram_usage (na_name d) (overhead_per_account_ram_bytes + 2 * billable_size_v permission_object_size +
           get_billable_size lib (po_auth owner_permission) + get_billable_size lib (po_auth active_permission)) (s1\<lparr>ns_auth := a, ns_resources := r\<rparr>))))) = Inr s'"
    using assms d unfolding apply_eosio_newaccount_def s1_def acc_def Let_def
    by (auto simp: rbind_eq_Inr_iff eos_assert_eq_Inr_iff simp del: for_each.simps split: if_splits)
  then obtain p1 a1 p2 a2 r where run: "for_each (\<lambda>auth _. validate_authority_precondition env s1 auth) [na_owner d, na_active d] () = Inr ()"
    "create_permission (auth_env.truncate env) (na_name d) owner_name 0 (na_owner d) 0 (ns_auth s1) = Inr (p1, a1)"
    "create_permission (auth_env.truncate env) (na_name d) active_name (po_id p1) (na_active d) 0 a1 = Inr (p2, a2)"
    "initialize_account (na_name d) (ns_resources s1) = Inr r"
    "add_ram_usage (na_name d) (overhead_per_account_ram_bytes + 2 * billable_size_v permission_object_size +
           get_billable_size lib (po_auth p1) + get_billable_size lib (po_auth p2)) (s1\<lparr>ns_auth := a2, ns_resources := r\<rparr>) = Inr s'"
    by (auto simp: rbind_eq_Inr_iff simp del: for_each.simps)
  have sizes: "po_auth p1 = na_owner d" "po_auth p2 = na_active d"
    using create_permissionE [OF run(2)] create_permissionE [OF run(3)] by (metis permission_object.select_convs(7))+
  have pre: "validate_authority_precondition env s1 (na_owner d) = Inr ()" "validate_authority_precondition env s1 (na_active d) = Inr ()"
    using run(1) unfolding for_each_unit by simp_all
  have same: "ns_auth s1 = ns_auth s" "ns_resources s1 = ns_resources s" by (simp_all add: s1_def)
  show ?thesis
  proof (rule that)
    show "unpack_newaccount lib (act_data act) = Inr d" using d(1) by (simp add: data_as_def rbind_eq_Inr_iff)
    show "acc_abi acc = []" by (simp add: acc_def)
    show "add_ram_usage (na_name d) (initial_size lib d) (s1\<lparr>ns_auth := a2, ns_resources := r\<rparr>) = Inr s'"
      using run(5) by (simp add: initial_size_def sizes)
  qed (use d(3-5) pre run(2-4) same \<open>ns_accounts s (na_name d) = None\<close> \<open>ns_metadata s (na_name d) = None\<close> s1_def in simp_all)
qed

lemma setabiE:
  assumes "apply_eosio_setabi lib act s = Inr s'"
  obtains d acc m s1 where "unpack_setabi lib (act_data act) = Inr d" "ns_accounts s (sa_account d) = Some acc"
    "ns_metadata s (sa_account d) = Some m"
    "s1 = s\<lparr>ns_accounts := (ns_accounts s)(sa_account d \<mapsto> acc\<lparr>acc_abi := sa_abi d\<rparr>),
       ns_metadata := (ns_metadata s)(sa_account d \<mapsto> m\<lparr>abi_sequence := abi_sequence m + 1\<rparr>)\<rparr>"
    "if (of_nat (length (sa_abi d)) :: i64) \<noteq> of_nat (length (acc_abi acc))
     then add_ram_usage (sa_account d) (of_nat (length (sa_abi d)) - of_nat (length (acc_abi acc))) s1 = Inr s' else s' = s1"
  using assms unfolding apply_eosio_setabi_def Let_def data_as_def
  by (auto simp: rbind_eq_Inr_iff eos_assert_eq_Inr_iff dest!: i64_InrD split: option.splits if_splits)

lemma updateauthE:
  fixes s :: "('a :: linorder) native_state"
  assumes "apply_eosio_updateauth lib env act s = Inr s'"
  obtains d par where "unpack_updateauth lib (act_data act) = Inr d" "check_updateauth env d s = Inr ()"
    "ua_account d \<noteq> 0" "ua_permission d \<noteq> 0"
    "if ua_permission d = owner_name then par = 0
     else \<exists>q. get_permission (ns_auth s) \<lparr>actor = ua_account d, permission = ua_parent d\<rparr> = Inr q \<and> par = po_id q"
    "case find_by_owner (ns_auth s) (ua_account d) (ua_permission d) of
       Some p \<Rightarrow> par = parent p \<and> (\<exists>a. modify_permission (auth_env.truncate env) p (ua_auth d) (ns_auth s) = Inr a \<and>
         add_ram_usage (po_owner p) ((billable_size_v permission_object_size + get_billable_size lib (ua_auth d)) -
           (billable_size_v permission_object_size + get_billable_size lib (po_auth p))) (s\<lparr>ns_auth := a\<rparr>) = Inr s')
     | None \<Rightarrow> (\<exists>p a. create_permission (auth_env.truncate env) (ua_account d) (ua_permission d) par (ua_auth d) 0 (ns_auth s) = Inr (p, a) \<and>
         add_ram_usage (ua_account d) (billable_size_v permission_object_size + get_billable_size lib (po_auth p)) (s\<lparr>ns_auth := a\<rparr>) = Inr s')"
proof -
  obtain d perm par u where d: "data_as updateauth_name (unpack_updateauth lib) act = Inr d" "check_updateauth env d s = Inr u"
    "find_permission (ns_auth s) \<lparr>actor = ua_account d, permission = ua_permission d\<rparr> = Inr perm"
    "(if ua_permission d \<noteq> owner_name
            then rbind (get_permission (ns_auth s) \<lparr>actor = ua_account d, permission = ua_parent d\<rparr>) (\<lambda>p. Inr (po_id p))
            else Inr 0) = Inr par"
    and rest: "(case perm of
       Some p \<Rightarrow>
         rbind (eos_assert (par = parent p) Action_validate_exception) (\<lambda>_.
         rbind (modify_permission (auth_env.truncate env) p (ua_auth d) (ns_auth s)) (\<lambda>a.
         rbind (sub_i64 (billable_size_v permission_object_size + get_billable_size lib (ua_auth d))
           (billable_size_v permission_object_size + get_billable_size lib (po_auth p))) (\<lambda>ram_delta.
         add_ram_usage (po_owner p) ram_delta (s\<lparr>ns_auth := a\<rparr>))))
     | None \<Rightarrow>
         rbind (create_permission (auth_env.truncate env) (ua_account d) (ua_permission d) par (ua_auth d) 0 (ns_auth s)) (\<lambda>(p, a).
         add_ram_usage (ua_account d) (billable_size_v permission_object_size + get_billable_size lib (po_auth p)) (s\<lparr>ns_auth := a\<rparr>))) = Inr s'"
    using assms unfolding apply_eosio_updateauth_def Let_def
    unfolding rbind_eq_Inr_iff [where 'b = "'a native_state"] by (elim exE conjE) (rule that, assumption+)
  from d(3) have nz: "ua_account d \<noteq> 0" "ua_permission d \<noteq> 0" and perm: "perm = find_by_owner (ns_auth s) (ua_account d) (ua_permission d)"
    by (simp_all add: find_permission_Inr named_levels_def)
  show ?thesis
  proof (rule that [OF _ _ nz])
    show "unpack_updateauth lib (act_data act) = Inr d" using d(1) by (simp add: data_as_def rbind_eq_Inr_iff)
    show "check_updateauth env d s = Inr ()" using d(2) by simp
    show "if ua_permission d = owner_name then par = 0
     else \<exists>q. get_permission (ns_auth s) \<lparr>actor = ua_account d, permission = ua_parent d\<rparr> = Inr q \<and> par = po_id q"
      using d(4) by (auto simp: rbind_eq_Inr_iff split: if_splits)
  qed (use rest perm in \<open>auto simp: rbind_eq_Inr_iff eos_assert_eq_Inr_iff dest!: i64_InrD split: option.splits\<close>)
qed

lemma deleteauthE:
  assumes "apply_eosio_deleteauth lib act s = Inr s'"
  obtains d p a where "unpack_deleteauth lib (act_data act) = Inr d" "da_permission d \<noteq> active_name" "da_permission d \<noteq> owner_name"
    "\<forall>r \<in> set (links (ns_auth s)). \<not> (link_account (snd r) = da_account d \<and> required_permission (snd r) = da_permission d)"
    "get_permission (ns_auth s) \<lparr>actor = da_account d, permission = da_permission d\<rparr> = Inr p"
    "remove_permission p (ns_auth s) = Inr a"
    "add_ram_usage (da_account d) (- (billable_size_v permission_object_size + get_billable_size lib (po_auth p))) (s\<lparr>ns_auth := a\<rparr>) = Inr s'"
  using assms unfolding apply_eosio_deleteauth_def Let_def data_as_def list_ex_iff
  by (auto simp: rbind_eq_Inr_iff eos_assert_eq_Inr_iff dest!: i64_InrD)

lemma linkauthE:
  assumes "apply_eosio_linkauth lib env act s = Inr s'"
  obtains d where "unpack_linkauth lib (act_data act) = Inr d" "la_requirement d \<noteq> 0" "ns_accounts s (la_account d) \<noteq> None"
    "only_link_to_existing_permission env \<longrightarrow> la_requirement d = eosio_any_name \<or>
       find_by_owner (ns_auth s) (la_account d) (la_requirement d) \<noteq> None"
    "case find_link (ns_auth s) (la_account d) (la_code d) (la_type d) of
       Some (i, l) \<Rightarrow> s' = s\<lparr>ns_auth := set_link i (l\<lparr>required_permission := la_requirement d\<rparr>) (ns_auth s)\<rparr>
     | None \<Rightarrow> add_ram_usage (la_account d) (billable_size_v permission_link_object_size)
         (s\<lparr>ns_auth := create_link \<lparr>link_account = la_account d, link_code = la_code d, message_type = la_type d,
            required_permission = la_requirement d\<rparr> (ns_auth s)\<rparr>) = Inr s'"
proof -
  obtain d u where d: "data_as linkauth_name (unpack_linkauth lib) act = Inr d" "la_requirement d \<noteq> 0" "ns_accounts s (la_account d) \<noteq> None"
    "(if la_requirement d \<noteq> eosio_any_name then
              eos_assert (if only_link_to_existing_permission env
                then find_by_owner (ns_auth s) (la_account d) (la_requirement d) \<noteq> None
                else list_ex (\<lambda>p. po_name (snd p) = la_requirement d) (permissions (ns_auth s))) Permission_query_exception
            else Inr ()) = Inr u"
    and rest: "(case find_link (ns_auth s) (la_account d) (la_code d) (la_type d) of
       Some (i, l) \<Rightarrow>
         rbind (eos_assert (required_permission l \<noteq> la_requirement d) Action_validate_exception) (\<lambda>_.
         Inr (s\<lparr>ns_auth := set_link i (l\<lparr>required_permission := la_requirement d\<rparr>) (ns_auth s)\<rparr>))
     | None \<Rightarrow>
         add_ram_usage (la_account d) (billable_size_v permission_link_object_size)
           (s\<lparr>ns_auth := create_link \<lparr>link_account = la_account d, link_code = la_code d, message_type = la_type d,
              required_permission = la_requirement d\<rparr> (ns_auth s)\<rparr>)) = Inr s'"
    using assms unfolding apply_eosio_linkauth_def rbind_eq_Inr_iff [where 'b = "'a native_state"] eos_assert_eq_Inr_iff
    by (elim exE conjE) (rule that, assumption+)
  show ?thesis
  proof (rule that [OF _ d(2,3)])
    show "unpack_linkauth lib (act_data act) = Inr d" using d(1) by (simp add: data_as_def rbind_eq_Inr_iff)
    show "only_link_to_existing_permission env \<longrightarrow> la_requirement d = eosio_any_name \<or>
       find_by_owner (ns_auth s) (la_account d) (la_requirement d) \<noteq> None"
      using d(4) by (auto simp: eos_assert_eq_Inr_iff split: if_splits)
  qed (use rest in \<open>auto simp: rbind_eq_Inr_iff eos_assert_eq_Inr_iff split: option.splits prod.splits\<close>)
qed

lemma unlinkauthE:
  assumes "apply_eosio_unlinkauth lib act s = Inr s'"
  obtains d i l s1 where "unpack_unlinkauth lib (act_data act) = Inr d"
    "find_link (ns_auth s) (ul_account d) (ul_code d) (ul_type d) = Some (i, l)"
    "add_ram_usage (link_account l) (- billable_size_v permission_link_object_size) s = Inr s1"
    "s' = s1\<lparr>ns_auth := remove_link i (ns_auth s1)\<rparr>"
  using assms unfolding apply_eosio_unlinkauth_def data_as_def
  by (auto simp: rbind_eq_Inr_iff eos_assert_eq_Inr_iff split: option.splits prod.splits)

definition new_code_hash :: "('k, 'x) native_lib_scheme \<Rightarrow> setcode \<Rightarrow> digest_type" where
  "new_code_hash lib d = (if 0 < sint (of_nat (length (sc_code d)) :: i64) then code_sha256 lib (sc_code d) else empty_digest)"

definition code_removed :: "account_metadata_object \<Rightarrow> (digest_type \<times> u8 \<times> u8 \<rightharpoonup> code_object) \<Rightarrow> (digest_type \<times> u8 \<times> u8 \<rightharpoonup> code_object)" where
  "code_removed m codes =
     (if code_hash m \<noteq> empty_digest then remove_code_reference (code_key m) (the (codes (code_key m))) codes else codes)"

definition code_added :: "('k, 'x) native_lib_scheme \<Rightarrow> 'k native_env \<Rightarrow> setcode \<Rightarrow> (digest_type \<times> u8 \<times> u8 \<rightharpoonup> code_object) \<Rightarrow>
    (digest_type \<times> u8 \<times> u8 \<rightharpoonup> code_object)" where
  "code_added lib env d codes =
     (if 0 < sint (of_nat (length (sc_code d)) :: i64)
      then add_code_reference (new_code_hash lib d, 0, 0) (sc_code d) (head_block_num env + 1) codes else codes)"

definition old_code_size :: "account_metadata_object \<Rightarrow> (digest_type \<times> u8 \<times> u8 \<rightharpoonup> code_object) \<Rightarrow> u64" where
  "old_code_size m codes =
     (if code_hash m \<noteq> empty_digest then of_nat (length (co_code (the (codes (code_key m))))) * setcode_ram_bytes_multiplier else 0)"

lemma setcodeE:
  fixes s :: "'a native_state"
  assumes "apply_eosio_setcode lib env act s = Inr s'"
  obtains d m m' s1 where "unpack_setcode lib (act_data act) = Inr d" "ns_metadata s (sc_account d) = Some m"
    "0 < sint (of_nat (length (sc_code d)) :: i64) \<or> code_hash m \<noteq> empty_digest"
    "code_hash m \<noteq> empty_digest \<Longrightarrow> ns_codes s (code_key m) \<noteq> None \<and> code_hash m \<noteq> new_code_hash lib d"
    "code_hash m' = new_code_hash lib d" "vm_type m' = 0" "vm_version m' = 0"
    "s1 = s\<lparr>ns_codes := code_added lib env d (code_removed m (ns_codes s)), ns_metadata := (ns_metadata s)(sc_account d \<mapsto> m')\<rparr>"
    "if (of_nat (length (sc_code d)) :: i64) * setcode_ram_bytes_multiplier \<noteq> old_code_size m (ns_codes s)
     then add_ram_usage (sc_account d) (of_nat (length (sc_code d)) * setcode_ram_bytes_multiplier - old_code_size m (ns_codes s)) s1 = Inr s'
     else s' = s1"
proof -
  obtain d m where d: "unpack_setcode lib (act_data act) = Inr d" "sc_vmtype d = 0" "sc_vmversion d = 0"
    "ns_metadata s (sc_account d) = Some m" "0 < sint (of_nat (length (sc_code d)) :: i64) \<or> code_hash m \<noteq> empty_digest"
    using assms unfolding apply_eosio_setcode_def Let_def data_as_def
    by (auto simp: rbind_eq_Inr_iff eos_assert_eq_Inr_iff split: option.splits)
  define m' where "m' = m\<lparr>code_sequence := code_sequence m + 1, code_hash := new_code_hash lib d, vm_type := 0, vm_version := 0,
    last_code_update := pending_block_time env\<rparr>"
  define s1 where "s1 = s\<lparr>ns_codes := code_added lib env d (code_removed m (ns_codes s)), ns_metadata := (ns_metadata s)(sc_account d \<mapsto> m')\<rparr>"
  show ?thesis
  proof (rule that [OF d(1,4,5) _ _ _ _ s1_def])
    show "code_hash m \<noteq> empty_digest \<Longrightarrow> ns_codes s (code_key m) \<noteq> None \<and> code_hash m \<noteq> new_code_hash lib d"
      using assms d unfolding apply_eosio_setcode_def Let_def data_as_def new_code_hash_def
      by (auto simp: rbind_eq_Inr_iff eos_assert_eq_Inr_iff split: option.splits)
    show "if (of_nat (length (sc_code d)) :: i64) * setcode_ram_bytes_multiplier \<noteq> old_code_size m (ns_codes s)
     then add_ram_usage (sc_account d) (of_nat (length (sc_code d)) * setcode_ram_bytes_multiplier - old_code_size m (ns_codes s)) s1 = Inr s'
     else s' = s1"
      using assms d unfolding apply_eosio_setcode_def Let_def data_as_def new_code_hash_def [symmetric] old_code_size_def
        s1_def code_added_def code_removed_def m'_def
      by (cases "code_hash m = empty_digest")
        (auto simp: rbind_eq_Inr_iff eos_assert_eq_Inr_iff dest!: i64_InrD split: option.splits if_splits)
  qed (simp_all add: m'_def)
qed

section \<open>Accounts and their permissions\<close>

text \<open>
  Every account has an owner permission without parent and an active permission below it; the only permissions without
  parent are owner permissions, and every permission belongs to an account.
\<close>

definition has_basic_permissions :: "'k auth_db \<Rightarrow> account_name \<Rightarrow> bool" where
  "has_basic_permissions db a \<longleftrightarrow>
     (\<exists>p q. find_by_owner db a owner_name = Some p \<and> find_by_owner db a active_name = Some q \<and> parent q = po_id p)"

definition accounts_ok :: "'k native_state \<Rightarrow> bool" where
  "accounts_ok s \<longleftrightarrow>
     dom (ns_metadata s) = dom (ns_accounts s) \<and> ns_accounts s 0 = None \<and>
     (\<forall>a. ns_accounts s a \<noteq> None \<longrightarrow> has_basic_permissions (ns_auth s) a) \<and>
     (\<forall>i p. map_of (permissions (ns_auth s)) i = Some p \<longrightarrow> i \<noteq> 0 \<longrightarrow>
        (parent p = 0 \<longleftrightarrow> po_name p = owner_name) \<and> ns_accounts s (po_owner p) \<noteq> None)"

definition native_ok :: "'k native_state \<Rightarrow> bool" where
  "native_ok s \<longleftrightarrow> auth_ok (ns_auth s) \<and> accounts_ok s"

lemma native_okI:
  assumes "auth_ok (ns_auth s)" "dom (ns_metadata s) = dom (ns_accounts s)" "ns_accounts s 0 = None"
    "\<And>a. ns_accounts s a \<noteq> None \<Longrightarrow> has_basic_permissions (ns_auth s) a"
    "\<And>i p. map_of (permissions (ns_auth s)) i = Some p \<Longrightarrow> i \<noteq> 0 \<Longrightarrow>
       (parent p = 0 \<longleftrightarrow> po_name p = owner_name) \<and> ns_accounts s (po_owner p) \<noteq> None"
  shows "native_ok s"
  unfolding native_ok_def accounts_ok_def using assms by blast

lemma native_okD:
  assumes "native_ok s"
  shows "auth_ok (ns_auth s)" "dom (ns_metadata s) = dom (ns_accounts s)" "ns_accounts s 0 = None"
    "ns_accounts s a \<noteq> None \<Longrightarrow> has_basic_permissions (ns_auth s) a"
    "map_of (permissions (ns_auth s)) i = Some p \<Longrightarrow> i \<noteq> 0 \<Longrightarrow> parent p = 0 \<longleftrightarrow> po_name p = owner_name"
    "map_of (permissions (ns_auth s)) i = Some p \<Longrightarrow> i \<noteq> 0 \<Longrightarrow> ns_accounts s (po_owner p) \<noteq> None"
  using assms unfolding native_ok_def accounts_ok_def by blast+

lemma names_nonzero:
  "owner_name \<noteq> 0" "active_name \<noteq> 0" "eosio_code_name \<noteq> 0" "owner_name \<noteq> active_name"
  by (simp_all add: name_values)

lemma get_permission_named: "get_permission db l = Inr p \<Longrightarrow> l \<in> named_levels"
  by (auto simp: get_permission_def check_level_def named_levels_def result_simps)

lemma check_authority_account_named:
  "check_authority_account s p = Inr () \<Longrightarrow> ns_accounts s 0 = None \<Longrightarrow> p \<in> named_levels"
  using names_nonzero get_permission_named [of "ns_auth s" "\<lparr>actor = actor p, permission = permission p\<rparr>"]
  by (auto simp: check_authority_account_def named_levels_def rbind_eq_Inr_iff eos_assert_eq_Inr_iff split: if_splits sum.splits)

lemma precondition_levels:
  "validate_authority_precondition env s auth = Inr () \<Longrightarrow> ns_accounts s 0 = None \<Longrightarrow> levels_named auth"
  unfolding validate_authority_precondition_def rbind_eq_Inr_iff levels_named_def
  using check_authority_account_named [of s] by (auto simp: for_each_unit)

lemma native_ok_same:
  assumes "native_ok s" "ns_auth s' = ns_auth s" "dom (ns_accounts s') = dom (ns_accounts s)" "dom (ns_metadata s') = dom (ns_metadata s)"
  shows "native_ok s'"
proof -
  note d = native_okD [OF assms(1)]
  have dom: "ns_accounts s' a = None \<longleftrightarrow> ns_accounts s a = None" for a using assms(3) by (metis domIff)
  show ?thesis
    using d dom assms(2-4) by (intro native_okI) simp_all
qed

lemma native_ok_links:
  assumes "native_ok s" "ns_auth s' = f (ns_auth s)" "auth_ok (f (ns_auth s))" "permissions (f (ns_auth s)) = permissions (ns_auth s)"
    "ns_accounts s' = ns_accounts s" "ns_metadata s' = ns_metadata s"
  shows "native_ok s'"
proof -
  note d = native_okD [OF assms(1)]
  have "has_basic_permissions (f (ns_auth s)) a \<longleftrightarrow> has_basic_permissions (ns_auth s) a" for a
    by (simp add: has_basic_permissions_def find_by_owner_def assms(4))
  with d assms(2-6) show ?thesis by (intro native_okI) simp_all
qed

lemma has_basic_permissions_mono:
  assumes "has_basic_permissions db a"
    and "\<And>n p. n \<in> {owner_name, active_name} \<Longrightarrow> find_by_owner db a n = Some p \<Longrightarrow>
      \<exists>p'. find_by_owner db' a n = Some p' \<and> po_id p' = po_id p \<and> parent p' = parent p"
  shows "has_basic_permissions db' a"
  using assms unfolding has_basic_permissions_def by (metis insert_iff)

lemma native_ok_created:
  assumes ok: "native_ok s" and acc: "ns_accounts s a \<noteq> None" "n \<noteq> 0" and lev: "levels_named auth"
    and par: "if n = owner_name then par = 0 else par \<noteq> 0 \<and> parent_fits (ns_auth s) a par"
    and new: "create_permission env a n par auth t (ns_auth s) = Inr (p, db')"
  shows "native_ok (s\<lparr>ns_auth := db'\<rparr>)"
proof -
  note d = native_okD [OF ok]
  have "a \<noteq> 0" using acc d(3) by metis
  moreover have "parent_fits (ns_auth s) a par" using par by (cases "n = owner_name") (simp_all add: parent_fits_def)
  ultimately have ok': "auth_ok db'" using auth_ok_create [OF d(1) new _ acc(2) lev] by blast
  note f = find_by_owner_create [OF d(1) new ok']
  have none: "find_by_owner (ns_auth s) a n = None" using create_permissionE [OF new] by blast
  show ?thesis
  proof (rule native_okI)
    show "has_basic_permissions (ns_auth (s\<lparr>ns_auth := db'\<rparr>)) b" if "ns_accounts (s\<lparr>ns_auth := db'\<rparr>) b \<noteq> None" for b
      using d(4) [of b] that none by (auto simp: f(1) elim!: has_basic_permissions_mono)
    show "(parent q = 0 \<longleftrightarrow> po_name q = owner_name) \<and> ns_accounts (s\<lparr>ns_auth := db'\<rparr>) (po_owner q) \<noteq> None"
      if q: "map_of (permissions (ns_auth (s\<lparr>ns_auth := db'\<rparr>))) i = Some q" "i \<noteq> 0" for i q
    proof (cases "i = po_id p")
      case True
      then have "q = p" using q by (simp add: f(2))
      with par acc f(6-8) show ?thesis by (auto split: if_splits)
    next
      case False
      then have "map_of (permissions (ns_auth s)) i = Some q" using q by (simp add: f(2))
      with d(5,6) q(2) show ?thesis by simp
    qed
  qed (use ok' d(2,3) in simp_all)
qed

lemma native_ok_modified:
  assumes ok: "native_ok s" and p: "find_by_owner (ns_auth s) a n = Some p" "a \<noteq> 0" and lev: "levels_named auth"
    and new: "modify_permission env p auth (ns_auth s) = Inr db'"
  shows "native_ok (s\<lparr>ns_auth := db'\<rparr>)"
proof -
  note d = native_okD [OF ok]
  have row: "map_of (permissions (ns_auth s)) (po_id p) = Some p" "po_owner p = a" using p(1) find_by_owner_Some [OF d(1)] by auto
  have nz: "po_id p \<noteq> 0" using reserved_row [OF d(1)] row p(2) by (metis option.inject)
  have ok': "auth_ok db'" using auth_ok_modify [OF d(1) row(1) nz new lev] .
  obtain p' where p': "po_id p' = po_id p" "po_owner p' = po_owner p" "po_name p' = po_name p" "parent p' = parent p"
    "map_of (permissions db') = (map_of (permissions (ns_auth s)))(po_id p \<mapsto> p')"
    "\<forall>a n. find_by_owner db' a n = (if a = po_owner p \<and> n = po_name p then Some p' else find_by_owner (ns_auth s) a n)"
    using find_by_owner_modify(1) [OF d(1) row(1) new ok'] by blast
  have self: "find_by_owner (ns_auth s) (po_owner p) (po_name p) = Some p" using row find_by_owner_Some [OF d(1)] by simp
  show ?thesis
  proof (rule native_okI)
    show "has_basic_permissions (ns_auth (s\<lparr>ns_auth := db'\<rparr>)) b" if "ns_accounts (s\<lparr>ns_auth := db'\<rparr>) b \<noteq> None" for b
      using d(4) [of b] that p'(1,4) self by (auto simp: p'(6) elim!: has_basic_permissions_mono)
    show "(parent q = 0 \<longleftrightarrow> po_name q = owner_name) \<and> ns_accounts (s\<lparr>ns_auth := db'\<rparr>) (po_owner q) \<noteq> None"
      if q: "map_of (permissions (ns_auth (s\<lparr>ns_auth := db'\<rparr>))) i = Some q" "i \<noteq> 0" for i q
      using q d(5,6) [of i q] d(5,6) [OF row(1) nz] p'(2-4) by (auto simp: p'(5) split: if_splits)
  qed (use ok' d(2,3) in simp_all)
qed

lemma native_ok_removed:
  assumes ok: "native_ok s" and p: "get_permission (ns_auth s) \<lparr>actor = a, permission = n\<rparr> = Inr p" "n \<noteq> owner_name" "n \<noteq> active_name"
    and rem: "remove_permission p (ns_auth s) = Inr db'"
  shows "native_ok (s\<lparr>ns_auth := db'\<rparr>)"
proof -
  note d = native_okD [OF ok]
  have row: "map_of (permissions (ns_auth s)) (po_id p) = Some p" "po_owner p = a" "po_name p = n"
    using p(1) by (simp_all add: get_permission_Inr [OF d(1)])
  have nz: "po_id p \<noteq> 0" using get_permission_nonzero [OF d(1) p(1)] .
  have ok': "auth_ok db'" using auth_ok_remove [OF d(1) row(1) nz rem] .
  note f = find_by_owner_remove [OF d(1) row(1) rem ok']
  show ?thesis
  proof (rule native_okI)
    show "has_basic_permissions (ns_auth (s\<lparr>ns_auth := db'\<rparr>)) b" if "ns_accounts (s\<lparr>ns_auth := db'\<rparr>) b \<noteq> None" for b
      using d(4) [of b] that p(2,3) row(3) by (auto simp: f(1) elim!: has_basic_permissions_mono)
    show "(parent q = 0 \<longleftrightarrow> po_name q = owner_name) \<and> ns_accounts (s\<lparr>ns_auth := db'\<rparr>) (po_owner q) \<noteq> None"
      if q: "map_of (permissions (ns_auth (s\<lparr>ns_auth := db'\<rparr>))) i = Some q" "i \<noteq> 0" for i q
      using q d(5,6) [of i q] by (auto simp: f(2) split: if_splits)
  qed (use ok' d(2,3) in simp_all)
qed

lemma native_ok_newaccount:
  assumes ok: "native_ok s" and run: "apply_eosio_newaccount lib env act s = Inr s'"
  shows "native_ok s'"
  using run
proof (cases rule: newaccountE)
  case (1 d acc s1 p1 a1 p2 a2 r)
  note d = native_okD [OF ok]
  note keep = add_ram_usage_keeps [OF 1(14)]
  have s1: "ns_accounts s1 0 = None" using 1(4,7) d(3) by simp
  note lev = precondition_levels [OF 1(9) s1] precondition_levels [OF 1(10) s1]
  have ok1: "auth_ok a1"
    by (rule auth_ok_create [OF d(1) 1(11) 1(4) names_nonzero(1) lev(1)]) (simp add: parent_fits_def)
  note f1 = find_by_owner_create [OF d(1) 1(11) ok1]
  have ok2: "auth_ok a2"
    by (rule auth_ok_create [OF ok1 1(12) 1(4) names_nonzero(2) lev(2)]) (simp add: parent_fits_def f1)
  note f2 = find_by_owner_create [OF ok1 1(12) ok2]
  have nz: "po_id p1 \<noteq> 0" using f1(5) auth_okD(2) [OF d(1)] reserved_row [OF d(1)] by (metis less_numeral_extra(3))
  show ?thesis
  proof (rule native_okI)
    show "has_basic_permissions (ns_auth s') b" if "ns_accounts s' b \<noteq> None" for b
    proof (cases "b = na_name d")
      case True
      then show ?thesis using f2(8) names_nonzero(4) by (simp add: keep has_basic_permissions_def f1(1) f2(1))
    next
      case False
      then have "has_basic_permissions (ns_auth s) b" using that 1(7) d(4) by (simp add: keep)
      then show ?thesis using False by (simp add: keep has_basic_permissions_def f1(1) f2(1))
    qed
    show "(parent q = 0 \<longleftrightarrow> po_name q = owner_name) \<and> ns_accounts s' (po_owner q) \<noteq> None"
      if q: "map_of (permissions (ns_auth s')) i = Some q" "i \<noteq> 0" for i q
    proof -
      have "q = p2 \<or> q = p1 \<or> map_of (permissions (ns_auth s)) i = Some q" using q(1) by (auto simp: keep f1(2) f2(2) split: if_splits)
      then show ?thesis
      proof (elim disjE)
        assume "q = p2"
        then show ?thesis using f2(6-8) nz names_nonzero(4) 1(7) by (simp add: keep)
      next
        assume "q = p1"
        then show ?thesis using f1(6-8) 1(7) by (simp add: keep)
      next
        assume "map_of (permissions (ns_auth s)) i = Some q"
        then show ?thesis using d(5,6) [of i q] q(2) 1(7) by (auto simp: keep)
      qed
    qed
    show "dom (ns_metadata s') = dom (ns_accounts s')" using d(2) 1(7) by (simp add: keep)
    show "ns_accounts s' 0 = None" using s1 by (simp add: keep)
  qed (use ok2 keep(1) in simp)
qed

lemma native_ok_after_ram:
  assumes "native_ok s" "add_ram_usage a d s = Inr s'"
  shows "native_ok s'"
  using native_ok_same [OF assms(1), of s'] add_ram_usage_keeps [OF assms(2)] by simp

lemma native_ok_setcode:
  assumes ok: "native_ok s" and run: "apply_eosio_setcode lib env act s = Inr s'"
  shows "native_ok s'"
  using run
proof (cases rule: setcodeE)
  case (1 d m m' s1)
  have "native_ok s1" using native_ok_same [OF ok, of s1] 1(2,8) by auto
  then show ?thesis using 1(9) native_ok_after_ram by (auto split: if_splits)
qed

lemma native_ok_setabi:
  assumes ok: "native_ok s" and run: "apply_eosio_setabi lib act s = Inr s'"
  shows "native_ok s'"
  using run
proof (cases rule: setabiE)
  case (1 d acc m s1)
  have "native_ok s1" using native_ok_same [OF ok, of s1] 1(2-4) by auto
  then show ?thesis using 1(5) native_ok_after_ram by (auto split: if_splits)
qed

lemma native_ok_updateauth:
  assumes ok: "native_ok s" and run: "apply_eosio_updateauth lib env act s = Inr s'"
  shows "native_ok s'"
  using run
proof (cases rule: updateauthE)
  case (1 d par)
  note o = native_okD [OF ok]
  have acc: "ns_accounts s (ua_account d) \<noteq> None" and pre: "validate_authority_precondition env s (ua_auth d) = Inr ()"
    using 1(2) by (auto simp: check_updateauth_def rbind_eq_Inr_iff split: if_splits)
  note lev = precondition_levels [OF pre o(3)]
  show ?thesis
  proof (cases "find_by_owner (ns_auth s) (ua_account d) (ua_permission d)")
    case (Some p)
    then obtain a where "modify_permission (auth_env.truncate env) p (ua_auth d) (ns_auth s) = Inr a"
      and ram: "add_ram_usage (po_owner p) ((billable_size_v permission_object_size + get_billable_size lib (ua_auth d)) -
           (billable_size_v permission_object_size + get_billable_size lib (po_auth p))) (s\<lparr>ns_auth := a\<rparr>) = Inr s'"
      using 1(6) by auto
    from native_ok_modified [OF ok Some 1(3) lev this(1)] native_ok_after_ram [OF _ ram] show ?thesis by blast
  next
    case None
    then obtain p a where new: "create_permission (auth_env.truncate env) (ua_account d) (ua_permission d) par (ua_auth d) 0 (ns_auth s) = Inr (p, a)"
      and ram: "add_ram_usage (ua_account d) (billable_size_v permission_object_size + get_billable_size lib (po_auth p)) (s\<lparr>ns_auth := a\<rparr>) = Inr s'"
      using 1(6) by auto
    have "if ua_permission d = owner_name then par = 0 else par \<noteq> 0 \<and> parent_fits (ns_auth s) (ua_account d) par"
    proof (cases "ua_permission d = owner_name")
      case False
      with 1(5) obtain q where q: "get_permission (ns_auth s) \<lparr>actor = ua_account d, permission = ua_parent d\<rparr> = Inr q" "par = po_id q"
        by auto
      from get_permission_nonzero [OF o(1) q(1)] q(2) False show ?thesis
        using q(1) by (simp add: get_permission_Inr [OF o(1)] parent_fits_def)
    qed (use 1(5) in simp)
    from native_ok_created [OF ok acc 1(4) lev this new] native_ok_after_ram [OF _ ram] show ?thesis by blast
  qed
qed

lemma native_ok_deleteauth:
  assumes ok: "native_ok s" and run: "apply_eosio_deleteauth lib act s = Inr s'"
  shows "native_ok s'"
  using run
proof (cases rule: deleteauthE)
  case (1 d p a)
  from native_ok_removed [OF ok 1(5,3,2,6)] native_ok_after_ram [OF _ 1(7)] show ?thesis by blast
qed

lemma native_ok_linkauth:
  assumes ok: "native_ok s" and run: "apply_eosio_linkauth lib env act s = Inr s'"
  shows "native_ok s'"
  using run
proof (cases rule: linkauthE)
  case (1 d)
  note a = native_okD(1) [OF ok]
  show ?thesis
  proof (cases "find_link (ns_auth s) (la_account d) (la_code d) (la_type d)")
    case None
    let ?l = "\<lparr>link_account = la_account d, link_code = la_code d, message_type = la_type d, required_permission = la_requirement d\<rparr>"
    have "auth_ok (create_link ?l (ns_auth s))" using auth_ok_link_ops(2) [OF a, of ?l] None by simp
    then have "native_ok (s\<lparr>ns_auth := create_link ?l (ns_auth s)\<rparr>)" by (intro native_ok_links [OF ok, where f = "create_link ?l"]) simp_all
    with None 1(5) native_ok_after_ram show ?thesis by simp blast
  next
    case (Some r)
    obtain i l where r: "r = (i, l)" by (cases r)
    have "auth_ok (set_link i (l\<lparr>required_permission := la_requirement d\<rparr>) (ns_auth s))"
      using auth_ok_link_ops(1) [OF a] Some r by blast
    with Some r 1(5) show ?thesis
      by (intro native_ok_links [OF ok, where f = "set_link i (l\<lparr>required_permission := la_requirement d\<rparr>)"]) simp_all
  qed
qed

lemma native_ok_unlinkauth:
  assumes ok: "native_ok s" and run: "apply_eosio_unlinkauth lib act s = Inr s'"
  shows "native_ok s'"
  using run
proof (cases rule: unlinkauthE)
  case (1 d i l s1)
  have ok1: "native_ok s1" using native_ok_after_ram [OF ok 1(3)] .
  show ?thesis
    using auth_ok_link_ops(3) [OF native_okD(1) [OF ok1]] 1(4)
    by (intro native_ok_links [OF ok1, where f = "remove_link i"]) simp_all
qed

text \<open>A sequence of native actions, each executed with one of the environments \<open>E\<close>.\<close>

inductive native_run :: "('k :: linorder, 'x) native_lib_scheme \<Rightarrow> 'k native_env set \<Rightarrow> 'k native_state \<Rightarrow> 'k native_state \<Rightarrow> bool"
  for lib E s0 where
  start: "native_run lib E s0 s0"
| step: "native_run lib E s0 s \<Longrightarrow> env \<in> E \<Longrightarrow> apply_native lib env receiver act s = Some (Inr s') \<Longrightarrow> native_run lib E s0 s'"

lemma apply_nativeE:
  assumes "apply_native lib env receiver act s = Some (Inr s')"
  obtains (newaccount) "apply_eosio_newaccount lib env act s = Inr s'"
  | (setcode) "apply_eosio_setcode lib env act s = Inr s'"
  | (setabi) "apply_eosio_setabi lib act s = Inr s'"
  | (updateauth) "apply_eosio_updateauth lib env act s = Inr s'"
  | (deleteauth) "apply_eosio_deleteauth lib act s = Inr s'"
  | (linkauth) "apply_eosio_linkauth lib env act s = Inr s'"
  | (unlinkauth) "apply_eosio_unlinkauth lib act s = Inr s'"
  using assms by (auto simp: apply_native_def apply_eosio_canceldelay_def split: if_splits)

lemma native_ok_step:
  assumes "native_ok s" "apply_native lib env receiver act s = Some (Inr s')"
  shows "native_ok s'"
  using assms(2)
proof (cases rule: apply_nativeE)
  case newaccount
  with assms(1) show ?thesis by (rule native_ok_newaccount)
next
  case setcode
  with assms(1) show ?thesis by (rule native_ok_setcode)
next
  case setabi
  with assms(1) show ?thesis by (rule native_ok_setabi)
next
  case updateauth
  with assms(1) show ?thesis by (rule native_ok_updateauth)
next
  case deleteauth
  with assms(1) show ?thesis by (rule native_ok_deleteauth)
next
  case linkauth
  with assms(1) show ?thesis by (rule native_ok_linkauth)
next
  case unlinkauth
  with assms(1) show ?thesis by (rule native_ok_unlinkauth)
qed

lemma native_run_ok: "native_run lib E s0 s \<Longrightarrow> native_ok s0 \<Longrightarrow> native_ok s"
  by (induction rule: native_run.induct) (auto intro: native_ok_step)

text \<open>The owner permission is above all permissions of its account.\<close>

lemma owner_above:
  assumes ok: "native_ok s" and o: "find_by_owner (ns_auth s) a owner_name = Some r" "a \<noteq> 0"
  shows "map_of (permissions (ns_auth s)) i = Some p \<Longrightarrow> po_owner p = a \<Longrightarrow> ancestor (ns_auth s) (po_id r) i"
proof (induction i arbitrary: p rule: less_induct)
  case (less i)
  note d = native_okD [OF ok]
  have row: "map_of (permissions (ns_auth s)) (po_id r) = Some r" "po_owner r = a" "po_name r = owner_name"
    using o(1) find_by_owner_Some [OF d(1)] by auto
  have nz: "i \<noteq> 0" using reserved_row [OF d(1)] less.prems o(2) by (metis option.inject)
  have p: "permission_ok (map_of (permissions (ns_auth s))) (map_of (usages (ns_auth s))) p" "po_id p = i"
    using auth_okD [OF d(1) less.prems(1)] nz by simp_all
  show ?case
  proof (cases "parent p = 0")
    case True
    then have "po_name p = owner_name" using d(5) [OF less.prems(1) nz] by simp
    then have "i = po_id r" using auth_ok_unique [OF d(1) less.prems(1) row(1)] less.prems(2) row by simp
    then show ?thesis by (simp add: ancestor.self)
  next
    case False
    then obtain q where q: "map_of (permissions (ns_auth s)) (parent p) = Some q" "po_owner q = po_owner p" "parent p < i"
      using p by (auto simp: permission_ok_def)
    from ancestor.up [OF less.prems(1) nz less.IH [OF q(3,1)]] q(2) less.prems(2) show ?thesis by simp
  qed
qed

section \<open>Reference counts of code\<close>

text \<open>The accounts that use a code, and the rows of code that agree with a given set of users for every key.\<close>

definition code_users :: "'k native_state \<Rightarrow> digest_type \<times> u8 \<times> u8 \<Rightarrow> account_name set" where
  "code_users s k = {a. \<exists>m. ns_metadata s a = Some m \<and> code_hash m \<noteq> empty_digest \<and> code_key m = k}"

definition counted :: "(digest_type \<times> u8 \<times> u8 \<rightharpoonup> code_object) \<Rightarrow> (digest_type \<times> u8 \<times> u8 \<Rightarrow> account_name set) \<Rightarrow> bool" where
  "counted codes R \<longleftrightarrow>
     (\<forall>k. case codes k of None \<Rightarrow> R k = {} | Some c \<Rightarrow> R k \<noteq> {} \<and> unat (code_ref_count c) = card (R k))"

definition codes_ok :: "('k, 'x) native_lib_scheme \<Rightarrow> 'k native_state \<Rightarrow> bool" where
  "codes_ok lib s \<longleftrightarrow> counted (ns_codes s) (code_users s) \<and>
     (\<forall>k c. ns_codes s k = Some c \<longrightarrow> fst k = code_sha256 lib (co_code c) \<and> co_code c \<noteq> [])"

lemma counted_upd:
  assumes "counted codes R" "case x of None \<Rightarrow> Q = {} | Some c \<Rightarrow> Q \<noteq> {} \<and> unat (code_ref_count c) = card Q"
  shows "counted (codes(k := x)) (R(k := Q))"
  unfolding counted_def
proof (rule allI)
  fix k'
  show "case (codes(k := x)) k' of None \<Rightarrow> (R(k := Q)) k' = {}
    | Some c \<Rightarrow> (R(k := Q)) k' \<noteq> {} \<and> unat (code_ref_count c) = card ((R(k := Q)) k')"
    using assms(2) spec [OF assms(1) [unfolded counted_def], of k'] by (cases "k' = k") (auto split: option.splits)
qed

lemma counted_remove:
  assumes ok: "counted codes R" and a: "a \<in> R k"
  shows "counted (remove_code_reference k (the (codes k)) codes) (R(k := R k - {a}))"
proof -
  have fin: "finite (R k)" by simp
  note at_k = spec [OF ok [unfolded counted_def], of k]
  obtain c where c: "codes k = Some c" "unat (code_ref_count c) = card (R k)"
    using at_k a by (cases "codes k") auto
  show ?thesis
  proof (cases "code_ref_count c = 1")
    case True
    then have "card (R k) = 1" using c(2) by simp
    then have "R k = {a}" using a by (metis card_1_singletonE singletonD)
    with True c(1) counted_upd [OF ok, where x = None and Q = "R k - {a}" and k = k] show ?thesis by (simp add: remove_code_reference_def)
  next
    case False
    have pos: "0 < card (R k)" using fin a by (auto simp: card_gt_0_iff)
    then have "code_ref_count c \<noteq> 0" using c(2) by auto
    then have "unat (code_ref_count c - 1) = card (R k) - 1" using c(2) by (simp add: unat_minus_one)
    moreover have "card (R k) \<noteq> 1" using False c(2) by (metis One_nat_def unat_1 word_unat_eq_iff)
    moreover have "card (R k - {a}) = card (R k) - 1" using fin a by simp
    moreover have "R k - {a} \<noteq> {}" using calculation(2,3) pos by (metis card.empty Suc_pred' One_nat_def)
    ultimately show ?thesis
      using False c(1) counted_upd [OF ok, where x = "Some (c\<lparr>code_ref_count := code_ref_count c - 1\<rparr>)" and Q = "R k - {a}" and k = k]
      by (simp add: remove_code_reference_def)
  qed
qed

lemma counted_add:
  assumes ok: "counted codes R" and a: "a \<notin> R k" and room: "0 \<notin> insert a (R k)"
  shows "counted (add_code_reference k code n codes) (R(k := insert a (R k)))"
proof -
  have fin: "finite (R k)" by simp
  show ?thesis
  proof (cases "codes k")
    case None
    then have "R k = {}" using spec [OF ok [unfolded counted_def], of k] by simp
    with None counted_upd [OF ok, where x = "Some \<lparr>co_code = code, code_ref_count = 1, first_block_used = n\<rparr>" and Q = "insert a (R k)" and k = k]
    show ?thesis by (simp add: add_code_reference_def)
  next
    case (Some c)
    have count: "unat (code_ref_count c) = card (R k)" using spec [OF ok [unfolded counted_def], of k] Some by simp
    have "card (insert a (R k)) < card (UNIV :: account_name set)"
      using room by (intro psubset_card_mono) auto
    then have "Suc (card (R k)) < 2 ^ 64" using a fin by (simp add: card_word)
    then have "unat (code_ref_count c + 1) = Suc (card (R k))" using count unat_plus_exact [of "code_ref_count c" 1] by simp
    with Some a fin counted_upd [OF ok, where x = "Some (c\<lparr>code_ref_count := code_ref_count c + 1\<rparr>)" and Q = "insert a (R k)" and k = k]
    show ?thesis by (simp add: add_code_reference_def)
  qed
qed

lemma codes_ok_same:
  assumes "codes_ok lib s" "ns_codes s' = ns_codes s" "\<And>k. code_users s' k = code_users s k"
  shows "codes_ok lib s'"
proof -
  have "code_users s' = code_users s" using assms(3) by (rule ext)
  with assms(1,2) show ?thesis by (simp add: codes_ok_def)
qed

lemma code_users_same: "ns_metadata s' = ns_metadata s \<Longrightarrow> code_users s' k = code_users s k"
  by (simp add: code_users_def)

lemma codes_ok_after_ram:
  assumes "codes_ok lib s" "add_ram_usage a d s = Inr s'"
  shows "codes_ok lib s'"
  using assms(1) add_ram_usage_keeps(4) [OF assms(2)] code_users_same [OF add_ram_usage_keeps(3) [OF assms(2)]]
  by (rule codes_ok_same)

lemma code_users_update:
  assumes "ns_metadata s' = (ns_metadata s)(a \<mapsto> m)"
  shows "code_users s' k = (code_users s k - {a}) \<union> (if code_hash m \<noteq> empty_digest \<and> code_key m = k then {a} else {})"
  using assms by (auto simp: code_users_def split: if_splits)

lemma codes_ok_setcode:
  assumes ok: "codes_ok lib s" "native_ok s" and run: "apply_eosio_setcode lib env act s = Inr s'"
    and hash: "\<And>c. c \<noteq> [] \<Longrightarrow> code_sha256 lib c \<noteq> empty_digest"
  shows "codes_ok lib s'"
  using run
proof (cases rule: setcodeE)
  case (1 d m m' s1)
  let ?a = "sc_account d" and ?C = "code_removed m (ns_codes s)"
  define R where "R = (\<lambda>k. code_users s k - {?a})"
  have users: "code_users s k = (if code_hash m \<noteq> empty_digest \<and> code_key m = k then insert ?a (R k) else R k)" for k
    using 1(2) by (auto simp: R_def code_users_def)
  have count: "counted (ns_codes s) (code_users s)" and stored: "\<forall>k c. ns_codes s k = Some c \<longrightarrow> fst k = code_sha256 lib (co_code c) \<and> co_code c \<noteq> []"
    using ok(1) by (simp_all add: codes_ok_def)
  have C: "counted ?C R"
  proof (cases "code_hash m = empty_digest")
    case True
    then have "code_users s = R" using users by auto
    with count True show ?thesis by (simp add: code_removed_def)
  next
    case False
    have other: "code_users s k = R k" if "k \<noteq> code_key m" for k using users [of k] that by simp
    have "(code_users s)(code_key m := code_users s (code_key m) - {?a}) = R"
    proof (rule ext)
      fix k
      show "((code_users s)(code_key m := code_users s (code_key m) - {?a})) k = R k"
        using other [of k] by (cases "k = code_key m") (simp_all add: R_def)
    qed
    moreover have "?a \<in> code_users s (code_key m)" using False users by simp
    ultimately show ?thesis using counted_remove [OF count] False by (metis code_removed_def)
  qed
  have C_stored: "fst k = code_sha256 lib (co_code c) \<and> co_code c \<noteq> []" if "?C k = Some c" for k c
  proof -
    have "\<exists>c'. ns_codes s k = Some c' \<and> co_code c' = co_code c"
      using that 1(4) by (auto simp: code_removed_def remove_code_reference_def split: if_splits)
    with stored show ?thesis by metis
  qed
  have users1: "code_users s1 k = R k \<union> (if code_hash m' \<noteq> empty_digest \<and> code_key m' = k then {?a} else {})" for k
    using code_users_update [of s1 s ?a m' k] 1(8) by (simp add: R_def)
  have "codes_ok lib s1"
  proof (cases "0 < sint (of_nat (length (sc_code d)) :: i64)")
    case True
    then have ne: "sc_code d \<noteq> []" by auto
    let ?k = "(code_sha256 lib (sc_code d), 0, 0)"
    have hash': "code_hash m' = code_sha256 lib (sc_code d)" "code_key m' = ?k"
      using 1(5-7) True by (simp_all add: new_code_hash_def code_key_def)
    have "ns_metadata s 0 = None" using native_okD(2,3) [OF ok(2)] by (metis domIff)
    then have zero: "0 \<notin> insert ?a (R k)" for k using 1(2) by (auto simp: R_def code_users_def)
    have "counted (ns_codes s1) (R(?k := insert ?a (R ?k)))"
      using counted_add [OF C, of ?a ?k] zero 1(8) True by (simp add: code_added_def new_code_hash_def R_def)
    moreover have "code_users s1 = R(?k := insert ?a (R ?k))"
    proof (rule ext)
      fix k
      show "code_users s1 k = (R(?k := insert ?a (R ?k))) k" using users1 [of k] hash' hash [OF ne] by (cases "k = ?k") auto
    qed
    moreover have "fst k = code_sha256 lib (co_code c) \<and> co_code c \<noteq> []" if k: "ns_codes s1 k = Some c" for k c
    proof -
      have s1: "ns_codes s1 = add_code_reference ?k (sc_code d) (head_block_num env + 1) ?C"
        using 1(8) True by (simp add: code_added_def new_code_hash_def)
      have "?C k = Some c \<or> k = ?k \<and> co_code c = sc_code d \<or> (\<exists>c'. ?C k = Some c' \<and> co_code c = co_code c')"
        using k unfolding s1 by (auto simp: add_code_reference_def split: option.splits if_splits)
      then show ?thesis using C_stored [of k] ne by (elim disjE exE conjE) simp_all
    qed
    ultimately show ?thesis by (simp add: codes_ok_def)
  next
    case False
    then have "code_users s1 = R" using users1 1(5) by (auto simp: new_code_hash_def)
    with C 1(8) False have "counted (ns_codes s1) (code_users s1)" "ns_codes s1 = ?C" by (simp_all add: code_added_def)
    with C_stored show ?thesis unfolding codes_ok_def by metis
  qed
  with 1(9) codes_ok_after_ram show ?thesis by (metis (full_types))
qed

lemma permission_actions_keep:
  assumes "apply_eosio_updateauth lib env act s = Inr s' \<or> apply_eosio_deleteauth lib act s = Inr s' \<or>
    apply_eosio_linkauth lib env act s = Inr s' \<or> apply_eosio_unlinkauth lib act s = Inr s'"
  shows "ns_codes s' = ns_codes s" "ns_metadata s' = ns_metadata s" "ns_accounts s' = ns_accounts s"
proof -
  have "\<exists>s1 x d a. (add_ram_usage x d s1 = Inr s' \<and> s1 = s\<lparr>ns_auth := a\<rparr>) \<or> s' = s\<lparr>ns_auth := a\<rparr> \<or>
      (add_ram_usage x d s = Inr s1 \<and> s' = s1\<lparr>ns_auth := a\<rparr>)"
    using assms
  proof (elim disjE)
    assume "apply_eosio_updateauth lib env act s = Inr s'"
    then show ?thesis
    proof (cases rule: updateauthE)
      case (1 d par)
      then show ?thesis by (cases "find_by_owner (ns_auth s) (ua_account d) (ua_permission d)") (simp_all, blast+)
    qed
  next
    assume "apply_eosio_deleteauth lib act s = Inr s'"
    then show ?thesis by (cases rule: deleteauthE) blast
  next
    assume "apply_eosio_linkauth lib env act s = Inr s'"
    then show ?thesis
    proof (cases rule: linkauthE)
      case (1 d)
      then show ?thesis
        by (cases "find_link (ns_auth s) (la_account d) (la_code d) (la_type d)") (simp, blast, simp add: split_def, blast)
    qed
  next
    assume "apply_eosio_unlinkauth lib act s = Inr s'"
    then show ?thesis by (cases rule: unlinkauthE) blast
  qed
  then obtain s1 x d a where c: "(add_ram_usage x d s1 = Inr s' \<and> s1 = s\<lparr>ns_auth := a\<rparr>) \<or> s' = s\<lparr>ns_auth := a\<rparr> \<or>
      (add_ram_usage x d s = Inr s1 \<and> s' = s1\<lparr>ns_auth := a\<rparr>)" by blast
  show "ns_codes s' = ns_codes s" "ns_metadata s' = ns_metadata s" "ns_accounts s' = ns_accounts s"
    using c add_ram_usage_keeps(2-4) [of x d s1 s'] add_ram_usage_keeps(2-4) [of x d s s1] by auto
qed

lemma codes_ok_step:
  assumes ok: "codes_ok lib s" "native_ok s" and run: "apply_native lib env receiver act s = Some (Inr s')"
    and hash: "\<And>c. c \<noteq> [] \<Longrightarrow> code_sha256 lib c \<noteq> empty_digest"
  shows "codes_ok lib s'"
  using run
proof (cases rule: apply_nativeE)
  case newaccount
  then show ?thesis
  proof (cases rule: newaccountE)
    case (1 d acc s1 p1 a1 p2 a2 r)
    note keep = add_ram_usage_keeps [OF 1(14)]
    have "code_users s' k = code_users s k" for k
      using code_users_update [of s' s "na_name d" new_metadata k] 1(6,7) keep(3)
      by (auto simp: new_metadata_def code_users_def)
    with ok(1) keep(4) 1(7) show ?thesis by (intro codes_ok_same [OF ok(1)]) simp_all
  qed
next
  case setcode
  with ok show ?thesis using hash by (rule codes_ok_setcode)
next
  case setabi
  then show ?thesis
  proof (cases rule: setabiE)
    case (1 d acc m s1)
    have "code_users s1 k = code_users s k" for k
      using code_users_update [of s1 s "sa_account d" "m\<lparr>abi_sequence := abi_sequence m + 1\<rparr>" k] 1(3,4)
      by (auto simp: code_users_def code_key_def)
    then have "codes_ok lib s1" using 1(4) by (intro codes_ok_same [OF ok(1)]) simp_all
    with 1(5) codes_ok_after_ram show ?thesis by (metis (full_types))
  qed
next
  case updateauth
  then have "ns_codes s' = ns_codes s" "ns_metadata s' = ns_metadata s"
    using permission_actions_keep(1,2) [of lib env act s s'] by simp_all
  then show ?thesis by (intro codes_ok_same [OF ok(1)] code_users_same)
next
  case deleteauth
  then have "ns_codes s' = ns_codes s" "ns_metadata s' = ns_metadata s"
    using permission_actions_keep(1,2) [of lib env act s s'] by simp_all
  then show ?thesis by (intro codes_ok_same [OF ok(1)] code_users_same)
next
  case linkauth
  then have "ns_codes s' = ns_codes s" "ns_metadata s' = ns_metadata s"
    using permission_actions_keep(1,2) [of lib env act s s'] by simp_all
  then show ?thesis by (intro codes_ok_same [OF ok(1)] code_users_same)
next
  case unlinkauth
  then have "ns_codes s' = ns_codes s" "ns_metadata s' = ns_metadata s"
    using permission_actions_keep(1,2) [of lib env act s s'] by simp_all
  then show ?thesis by (intro codes_ok_same [OF ok(1)] code_users_same)
qed

section \<open>Billed RAM\<close>

text \<open>
  The RAM an account has to be billed for, computed from the database with the 64-bit arithmetic of the code: the
  account itself, its ABI, its code, its permissions and its links.
\<close>

definition permission_bill :: "('k, 'x) native_lib_scheme \<Rightarrow> 'k auth_db \<Rightarrow> account_name \<Rightarrow> u64" where
  "permission_bill lib db a =
     (\<Sum>r\<leftarrow>permissions db. if po_owner (snd r) = a
        then billable_size_v permission_object_size + get_billable_size lib (po_auth (snd r)) else 0)"

definition link_bill :: "'k auth_db \<Rightarrow> account_name \<Rightarrow> u64" where
  "link_bill db a = (\<Sum>r\<leftarrow>links db. if link_account (snd r) = a then billable_size_v permission_link_object_size else 0)"

definition account_bill :: "(account_name \<rightharpoonup> account_object) \<Rightarrow> account_name \<Rightarrow> u64" where
  "account_bill accs a = (case accs a of None \<Rightarrow> 0 | Some x \<Rightarrow> overhead_per_account_ram_bytes + of_nat (length (acc_abi x)))"

definition code_bill :: "(account_name \<rightharpoonup> account_metadata_object) \<Rightarrow> (digest_type \<times> u8 \<times> u8 \<rightharpoonup> code_object) \<Rightarrow> account_name \<Rightarrow> u64" where
  "code_bill md codes a = (case md a of None \<Rightarrow> 0 | Some m \<Rightarrow> old_code_size m codes)"

definition ram_bill :: "('k, 'x) native_lib_scheme \<Rightarrow> 'k native_state \<Rightarrow> account_name \<Rightarrow> u64" where
  "ram_bill lib s a = account_bill (ns_accounts s) a + code_bill (ns_metadata s) (ns_codes s) a +
     permission_bill lib (ns_auth s) a + link_bill (ns_auth s) a"

definition ram_used :: "'k native_state \<Rightarrow> account_name \<Rightarrow> u64" where
  "ram_used s a = (case map_of (usage_index (ns_resources s)) a of None \<Rightarrow> 0 | Some u \<Rightarrow> ram_usage u)"

lemma rows_sum_put_new:
  "idx_ok m \<Longrightarrow> map_of m k = None \<Longrightarrow> (\<Sum>r\<leftarrow>idx_put k v m. f r :: u64) = f (k, v) + (\<Sum>r\<leftarrow>m. f r)"
  by (simp add: mset_idx_put_new flip: sum_mset_sum_list)

lemma rows_sum_put_replace:
  assumes "idx_ok m" "map_of m k = Some u"
  shows "(\<Sum>r\<leftarrow>idx_put k v m. f r :: u64) = (\<Sum>r\<leftarrow>m. f r) + (f (k, v) - f (k, u))"
proof -
  have "f (k, u) + (\<Sum>r\<in>#mset (idx_put k v m). f r) = f (k, v) + (\<Sum>r\<in>#mset m. f r)"
    using arg_cong [OF mset_idx_put_replace [OF assms, of v], of "\<lambda>M. \<Sum>r\<in>#M. f r"] by simp
  then show ?thesis unfolding sum_mset_sum_list [symmetric] mset_map by (simp add: algebra_simps)
qed

lemma rows_sum_remove:
  assumes "idx_ok m" "map_of m k = Some u"
  shows "(\<Sum>r\<leftarrow>idx_remove k m. f r :: u64) = (\<Sum>r\<leftarrow>m. f r) - f (k, u)"
proof -
  have "(\<Sum>r\<in>#mset m. f r) = f (k, u) + (\<Sum>r\<in>#mset (idx_remove k m). f r)"
    using arg_cong [OF mset_idx_remove [OF assms], of "\<lambda>M. \<Sum>r\<in>#M. f r"] by simp
  then show ?thesis unfolding sum_mset_sum_list [symmetric] mset_map by simp
qed

lemma permission_bill_create:
  assumes ok: "auth_ok db" and new: "create_permission env a n par auth t db = Inr (p, db')"
  shows "permission_bill lib db' b = permission_bill lib db b +
      (if b = a then billable_size_v permission_object_size + get_billable_size lib auth else 0)" "link_bill db' b = link_bill db b"
proof -
  obtain c where 1: "check_key_types env auth = Inr ()" "find_by_owner db a n = None"
    "p = \<lparr>po_id = next_permission db, usage_id = next_usage db, parent = par, po_owner = a, po_name = n,
       last_updated = c, po_auth = auth\<rparr>"
    "db' = db\<lparr>usages := idx_put (next_usage db) c (usages db), next_usage := next_usage db + 1,
       permissions := idx_put (next_permission db) p (permissions db), next_permission := next_permission db + 1\<rparr>"
    using create_permissionE [OF new] by blast
  have "map_of (permissions db) (next_permission db) = None"
    using auth_okD(2) [OF ok] by (cases "map_of (permissions db) (next_permission db)") auto
  from rows_sum_put_new [OF auth_ok_parts(1) [OF ok] this, where v = p] 1(3,4)
  show "permission_bill lib db' b = permission_bill lib db b +
      (if b = a then billable_size_v permission_object_size + get_billable_size lib auth else 0)"
    by (simp add: permission_bill_def)
  show "link_bill db' b = link_bill db b" using 1(4) by (simp add: link_bill_def)
qed

lemma permission_bill_modify:
  assumes ok: "auth_ok db" and p: "map_of (permissions db) (po_id p) = Some p" and new: "modify_permission env p auth db = Inr db'"
  shows "permission_bill lib db' b = permission_bill lib db b +
      (if b = po_owner p then get_billable_size lib auth - get_billable_size lib (po_auth p) else 0)" "link_bill db' b = link_bill db b"
proof -
  let ?p = "p\<lparr>po_auth := auth, last_updated := pending_block_time env\<rparr>"
  have db': "db' = db\<lparr>permissions := idx_put (po_id p) ?p (permissions db)\<rparr>"
    using new by (auto simp: modify_permission_def result_simps)
  then show "link_bill db' b = link_bill db b" by (simp add: link_bill_def)
  show "permission_bill lib db' b = permission_bill lib db b +
      (if b = po_owner p then get_billable_size lib auth - get_billable_size lib (po_auth p) else 0)"
    unfolding permission_bill_def db' using rows_sum_put_replace [OF auth_ok_parts(1) [OF ok] p, where v = ?p] by simp
qed

lemma permission_bill_remove:
  assumes ok: "auth_ok db" and p: "map_of (permissions db) (po_id p) = Some p" and rem: "remove_permission p db = Inr db'"
  shows "permission_bill lib db' b = permission_bill lib db b +
      (if b = po_owner p then - (billable_size_v permission_object_size + get_billable_size lib (po_auth p)) else 0)"
    "link_bill db' b = link_bill db b"
proof -
  have 1: "db' = db\<lparr>usages := idx_remove (usage_id p) (usages db), permissions := idx_remove (po_id p) (permissions db)\<rparr>"
    using remove_permissionE [OF rem] by blast
  then show "permission_bill lib db' b = permission_bill lib db b +
      (if b = po_owner p then - (billable_size_v permission_object_size + get_billable_size lib (po_auth p)) else 0)"
    using rows_sum_remove [OF auth_ok_parts(1) [OF ok] p] by (simp add: permission_bill_def)
  show "link_bill db' b = link_bill db b" using 1 by (simp add: link_bill_def)
qed

lemma permission_bill_links [simp]:
  "permission_bill lib (set_link i l db) a = permission_bill lib db a" "permission_bill lib (create_link l db) a = permission_bill lib db a"
  "permission_bill lib (remove_link i db) a = permission_bill lib db a"
  by (simp_all add: permission_bill_def)

lemma link_bill_set:
  "auth_ok db \<Longrightarrow> map_of (links db) i = Some l \<Longrightarrow> link_account l' = link_account l \<Longrightarrow> link_bill (set_link i l' db) a = link_bill db a"
  using rows_sum_put_replace [OF auth_ok_parts(3), of db i l] by (simp add: link_bill_def set_link_def)

lemma link_bill_create:
  assumes ok: "auth_ok db"
  shows "link_bill (create_link l db) a = link_bill db a + (if a = link_account l then billable_size_v permission_link_object_size else 0)"
proof -
  have "map_of (links db) (next_link db) = None"
    using auth_ok_parts(6) [OF ok] by (cases "map_of (links db) (next_link db)") (auto simp: links_ok_def)
  from rows_sum_put_new [OF auth_ok_parts(3) [OF ok] this, where v = l] show ?thesis
    by (simp add: link_bill_def create_link_def set_link_def)
qed

lemma link_bill_remove:
  "auth_ok db \<Longrightarrow> map_of (links db) i = Some l \<Longrightarrow> link_bill (remove_link i db) a =
     link_bill db a + (if a = link_account l then - billable_size_v permission_link_object_size else 0)"
  using rows_sum_remove [OF auth_ok_parts(3), of db i l] by (simp add: link_bill_def remove_link_def)

lemma ram_used_add:
  assumes run: "add_ram_usage x d s = Inr s'" and idx: "idx_ok (usage_index (ns_resources s))"
  shows "ram_used s' a = ram_used s a + (if a = x then d else 0)" "idx_ok (usage_index (ns_resources s'))"
proof -
  have r: "add_pending_ram_usage x d (ns_resources s) = Inr (ns_resources s')" by (rule add_ram_usage_keeps(5) [OF run])
  have "ram_used s' a = ram_used s a + (if a = x then d else 0) \<and> idx_ok (usage_index (ns_resources s'))"
  proof (cases "d = 0")
    case True
    with r idx show ?thesis by (simp add: add_pending_ram_usage_def ram_used_def)
  next
    case False
    obtain u where u: "map_of (usage_index (ns_resources s)) x = Some u"
      "ns_resources s' = (ns_resources s)\<lparr>usage_index := idx_put x (u\<lparr>ram_usage := ram_usage u + d\<rparr>) (usage_index (ns_resources s))\<rparr>"
      using r False by (auto simp: add_pending_ram_usage_def result_simps split: if_splits)
    with idx show ?thesis by (simp add: ram_used_def map_of_put idx_ok_put)
  qed
  then show "ram_used s' a = ram_used s a + (if a = x then d else 0)" "idx_ok (usage_index (ns_resources s'))" by simp_all
qed

definition balanced :: "('k, 'x) native_lib_scheme \<Rightarrow> 'k native_state \<Rightarrow> 'k native_state \<Rightarrow> bool" where
  "balanced lib s s' \<longleftrightarrow> (\<forall>a. ram_used s' a - ram_used s a = ram_bill lib s' a - ram_bill lib s a)"

text \<open>An action that changes the database and then bills the change.\<close>

lemma balancedI:
  assumes run: "add_ram_usage x d s1 = Inr s'" and idx: "idx_ok (usage_index (ns_resources s1))"
    and used: "\<And>a. ram_used s1 a = ram_used s a"
    and bill: "\<And>a. ram_bill lib s1 a = ram_bill lib s a + (if a = x then d else 0)"
  shows "balanced lib s s'"
proof -
  note keep = add_ram_usage_keeps [OF run]
  have "ram_bill lib s' a = ram_bill lib s1 a" for a
    by (simp add: ram_bill_def keep)
  then show ?thesis using ram_used_add(1) [OF run idx] used bill by (simp add: balanced_def)
qed

lemma balanced_updateauth:
  assumes ok: "native_ok s" and idx: "idx_ok (usage_index (ns_resources s))" and run: "apply_eosio_updateauth lib env act s = Inr s'"
  shows "balanced lib s s'"
  using run
proof (cases rule: updateauthE)
  case (1 d par)
  note a = native_okD(1) [OF ok]
  show ?thesis
  proof (cases "find_by_owner (ns_auth s) (ua_account d) (ua_permission d)")
    case None
    then obtain p db where new: "create_permission (auth_env.truncate env) (ua_account d) (ua_permission d) par (ua_auth d) 0 (ns_auth s) = Inr (p, db)"
      and ram: "add_ram_usage (ua_account d) (billable_size_v permission_object_size + get_billable_size lib (po_auth p)) (s\<lparr>ns_auth := db\<rparr>) = Inr s'"
      using 1(6) by auto
    have "po_auth p = ua_auth d" using create_permissionE [OF new] by (metis permission_object.select_convs(7))
    with permission_bill_create(1) [OF a new, where lib = lib] permission_bill_create(2) [OF a new] idx show ?thesis
      by (intro balancedI [OF ram]) (simp_all add: ram_used_def ram_bill_def)
  next
    case (Some p)
    then obtain db where new: "modify_permission (auth_env.truncate env) p (ua_auth d) (ns_auth s) = Inr db"
      and ram: "add_ram_usage (po_owner p) ((billable_size_v permission_object_size + get_billable_size lib (ua_auth d)) -
           (billable_size_v permission_object_size + get_billable_size lib (po_auth p))) (s\<lparr>ns_auth := db\<rparr>) = Inr s'"
      using 1(6) by auto
    have "map_of (permissions (ns_auth s)) (po_id p) = Some p" using Some find_by_owner_Some [OF a] by blast
    from permission_bill_modify(1) [OF a this new, where lib = lib] permission_bill_modify(2) [OF a this new] idx show ?thesis
      by (intro balancedI [OF ram]) (simp_all add: ram_used_def ram_bill_def)
  qed
qed

lemma balanced_deleteauth:
  assumes ok: "native_ok s" and idx: "idx_ok (usage_index (ns_resources s))" and run: "apply_eosio_deleteauth lib act s = Inr s'"
  shows "balanced lib s s'"
  using run
proof (cases rule: deleteauthE)
  case (1 d p db)
  note a = native_okD(1) [OF ok]
  have "map_of (permissions (ns_auth s)) (po_id p) = Some p" "po_owner p = da_account d" using 1(5) by (simp_all add: get_permission_Inr [OF a])
  with permission_bill_remove(1) [OF a this(1) 1(6), where lib = lib] permission_bill_remove(2) [OF a this(1) 1(6)] idx show ?thesis
    by (intro balancedI [OF 1(7)]) (simp_all add: ram_used_def ram_bill_def)
qed

lemma balanced_linkauth:
  assumes ok: "native_ok s" and idx: "idx_ok (usage_index (ns_resources s))" and run: "apply_eosio_linkauth lib env act s = Inr s'"
  shows "balanced lib s s'"
  using run
proof (cases rule: linkauthE)
  case (1 d)
  note a = native_okD(1) [OF ok]
  show ?thesis
  proof (cases "find_link (ns_auth s) (la_account d) (la_code d) (la_type d)")
    case None
    let ?l = "\<lparr>link_account = la_account d, link_code = la_code d, message_type = la_type d, required_permission = la_requirement d\<rparr>"
    have ram: "add_ram_usage (la_account d) (billable_size_v permission_link_object_size) (s\<lparr>ns_auth := create_link ?l (ns_auth s)\<rparr>) = Inr s'"
      using None 1(5) by simp
    from link_bill_create [OF a, of ?l] idx show ?thesis
      by (intro balancedI [OF ram]) (simp_all add: ram_used_def ram_bill_def)
  next
    case (Some r)
    obtain i l where r: "r = (i, l)" by (cases r)
    have l: "map_of (links (ns_auth s)) i = Some l" using find_linkD(1) [OF auth_ok_parts(3) [OF a]] Some r by blast
    have "s' = s\<lparr>ns_auth := set_link i (l\<lparr>required_permission := la_requirement d\<rparr>) (ns_auth s)\<rparr>" using 1(5) Some r by simp
    then show ?thesis
      using link_bill_set [OF a l] by (simp add: balanced_def ram_used_def ram_bill_def)
  qed
qed

lemma balanced_unlinkauth:
  assumes ok: "native_ok s" and idx: "idx_ok (usage_index (ns_resources s))" and run: "apply_eosio_unlinkauth lib act s = Inr s'"
  shows "balanced lib s s'"
  using run
proof (cases rule: unlinkauthE)
  case (1 d i l s1)
  note a = native_okD(1) [OF ok] and keep = add_ram_usage_keeps [OF 1(3)]
  have l: "map_of (links (ns_auth s)) i = Some l" using find_linkD(1) [OF auth_ok_parts(3) [OF a] 1(2)] .
  show ?thesis
    using link_bill_remove [OF a l] ram_used_add(1) [OF 1(3) idx] 1(4)
    by (simp add: balanced_def ram_bill_def keep) (simp add: ram_used_def)
qed

lemma balanced_setabi:
  assumes idx: "idx_ok (usage_index (ns_resources s))" and run: "apply_eosio_setabi lib act s = Inr s'"
  shows "balanced lib s s'"
  using run
proof (cases rule: setabiE)
  case (1 d acc m s1)
  have bill: "ram_bill lib s1 a = ram_bill lib s a + (if a = sa_account d then of_nat (length (sa_abi d)) - of_nat (length (acc_abi acc)) else 0)" for a
    using 1(2-4) by (simp add: ram_bill_def account_bill_def code_bill_def old_code_size_def code_key_def)
  have used: "ram_used s1 a = ram_used s a" for a using 1(4) by (simp add: ram_used_def)
  show ?thesis
  proof (cases "(of_nat (length (sa_abi d)) :: i64) = of_nat (length (acc_abi acc))")
    case True
    with 1(5) bill used show ?thesis by (simp add: balanced_def)
  next
    case False
    then have ram: "add_ram_usage (sa_account d) (of_nat (length (sa_abi d)) - of_nat (length (acc_abi acc))) s1 = Inr s'" using 1(5) by simp
    show ?thesis by (rule balancedI [OF ram _ used bill]) (use 1(4) idx in simp)
  qed
qed

lemma balanced_newaccount:
  assumes ok: "native_ok s" and idx: "idx_ok (usage_index (ns_resources s))" and run: "apply_eosio_newaccount lib env act s = Inr s'"
  shows "balanced lib s s'"
  using run
proof (cases rule: newaccountE)
  case (1 d acc s1 p1 a1 p2 a2 r)
  note o = native_okD [OF ok]
  have s1: "ns_accounts s1 0 = None" using 1(4,7) o(3) by simp
  have ok1: "auth_ok a1"
    by (rule auth_ok_create [OF o(1) 1(11) 1(4) names_nonzero(1) precondition_levels [OF 1(9) s1]]) (simp add: parent_fits_def)
  have r: "map_of (usage_index (ns_resources s)) (na_name d) = None"
    "usage_index r = idx_put (na_name d) new_usage (usage_index (ns_resources s))"
    using 1(13) by (auto simp: initialize_account_def result_simps)
  let ?s2 = "s1\<lparr>ns_auth := a2, ns_resources := r\<rparr>"
  show ?thesis
  proof (rule balancedI [OF 1(14)])
    show "idx_ok (usage_index (ns_resources ?s2))" using idx r(2) by (simp add: idx_ok_put)
    show "ram_used ?s2 a = ram_used s a" for a
      using r idx by (simp add: ram_used_def map_of_put new_usage_def)
    show "ram_bill lib ?s2 a = ram_bill lib s a + (if a = na_name d then initial_size lib d else 0)" for a
      using permission_bill_create(1) [OF o(1) 1(11), of lib a] permission_bill_create(1) [OF ok1 1(12), of lib a]
        permission_bill_create(2) [OF o(1) 1(11), of a] permission_bill_create(2) [OF ok1 1(12), of a] 1(5-8)
      by (simp add: ram_bill_def initial_size_def account_bill_def code_bill_def new_metadata_def old_code_size_def)
  qed
qed

text \<open>The code of the action is not too long for a signed number, and no other code with its hash is stored.\<close>

definition code_fits :: "('k, 'x) native_lib_scheme \<Rightarrow> action \<Rightarrow> 'k native_state \<Rightarrow> bool" where
  "code_fits lib act s \<longleftrightarrow>
     (\<forall>d. unpack_setcode lib (act_data act) = Inr d \<longrightarrow> length (sc_code d) < 2 ^ 63 \<and>
        (\<forall>c. ns_codes s (code_sha256 lib (sc_code d), 0, 0) = Some c \<longrightarrow> co_code c = sc_code d))"

lemma code_users_stored:
  assumes "codes_ok lib s" "a \<in> code_users s k"
  obtains c where "ns_codes s k = Some c"
  using assms spec [OF conjunct1 [OF assms(1) [unfolded codes_ok_def], unfolded counted_def], of k]
  by (cases "ns_codes s k") auto

lemma setcode_codes:
  assumes "code_hash m \<noteq> empty_digest \<Longrightarrow> codes (code_key m) \<noteq> None \<and> code_hash m \<noteq> new_code_hash lib d"
    and "codes k = Some c" "code_added lib env d (code_removed m codes) k = Some c'"
  shows "co_code c' = co_code c"
  using assms
  by (auto simp: code_added_def code_removed_def add_code_reference_def remove_code_reference_def code_key_def
      split: if_splits option.splits)

lemma sint_of_length: "n < 2 ^ 63 \<Longrightarrow> sint (of_nat n :: i64) = int n"
  by (simp add: signed_of_nat signed_take_bit_int_eq_self)

text \<open>What the account is billed for after its code was set.\<close>

lemma new_code_size:
  assumes old: "code_hash m \<noteq> empty_digest \<Longrightarrow> codes (code_key m) \<noteq> None \<and> code_hash m \<noteq> new_code_hash lib d"
    and m': "code_hash m' = new_code_hash lib d" "vm_type m' = 0" "vm_version m' = 0"
    and len: "length (sc_code d) < 2 ^ 63"
    and stored: "\<And>c. codes (code_sha256 lib (sc_code d), 0, 0) = Some c \<Longrightarrow> co_code c = sc_code d"
    and hash: "\<And>c. c \<noteq> [] \<Longrightarrow> code_sha256 lib c \<noteq> empty_digest"
  shows "old_code_size m' (code_added lib env d (code_removed m codes)) = of_nat (length (sc_code d)) * setcode_ram_bytes_multiplier"
proof (cases "sc_code d = []")
  case True
  then show ?thesis using m' by (simp add: old_code_size_def new_code_hash_def)
next
  case False
  then have pos: "0 < sint (of_nat (length (sc_code d)) :: i64)" by (simp add: sint_of_length [OF len])
  have key: "code_key m' = (code_sha256 lib (sc_code d), 0, 0)" "code_hash m' \<noteq> empty_digest"
    using m' pos hash [OF False] by (simp_all add: new_code_hash_def code_key_def)
  define c0 where "c0 = code_removed m codes (code_key m')"
  have "co_code c = sc_code d" if "c0 = Some c" for c
  proof -
    have "\<exists>c''. codes (code_key m') = Some c'' \<and> co_code c'' = co_code c"
      using that old by (auto simp: c0_def code_removed_def remove_code_reference_def split: if_splits)
    with stored show ?thesis unfolding key(1) by metis
  qed
  moreover have "code_added lib env d (code_removed m codes) (code_key m') =
      Some (case c0 of Some c \<Rightarrow> c\<lparr>code_ref_count := code_ref_count c + 1\<rparr>
        | None \<Rightarrow> \<lparr>co_code = sc_code d, code_ref_count = 1, first_block_used = head_block_num env + 1\<rparr>)"
    using pos key(1) unfolding c0_def by (auto simp: code_added_def add_code_reference_def new_code_hash_def split: option.splits)
  ultimately show ?thesis using key(2) by (cases c0) (simp_all add: old_code_size_def)
qed

lemma balanced_setcode:
  fixes s :: "('a :: linorder) native_state"
  assumes ok: "native_ok s" "codes_ok lib s" and idx: "idx_ok (usage_index (ns_resources s))"
    and run: "apply_eosio_setcode lib env act s = Inr s'" and fits: "code_fits lib act s"
    and hash: "\<And>c. c \<noteq> [] \<Longrightarrow> code_sha256 lib c \<noteq> empty_digest"
  shows "balanced lib s s'"
  using run
proof (cases rule: setcodeE)
  case (1 d m m' s1)
  let ?a = "sc_account d" and ?new = "of_nat (length (sc_code d)) * setcode_ram_bytes_multiplier :: u64"
  have ok': "codes_ok lib s'" by (rule codes_ok_setcode [OF ok(2,1) run hash])
  have same: "ns_codes s' = ns_codes s1" "ns_metadata s' = ns_metadata s1" using 1(9) add_ram_usage_keeps by (auto split: if_splits)
  have len: "length (sc_code d) < 2 ^ 63" and stored: "\<And>c. ns_codes s (code_sha256 lib (sc_code d), 0, 0) = Some c \<Longrightarrow> co_code c = sc_code d"
    using fits 1(1) by (auto simp: code_fits_def)
  have new: "old_code_size m' (ns_codes s1) = ?new"
  proof -
    have "old_code_size m' (code_added lib env d (code_removed m (ns_codes s))) = ?new"
      by (rule new_code_size [OF _ 1(5-7) len]) (use 1(4) stored hash in auto)
    then show ?thesis using 1(8) by simp
  qed
  have other: "code_bill (ns_metadata s1) (ns_codes s1) a = code_bill (ns_metadata s) (ns_codes s) a" if "a \<noteq> ?a" for a
  proof (cases "ns_metadata s a")
    case None
    then show ?thesis using that 1(8) by (simp add: code_bill_def)
  next
    case (Some ma)
    then have md: "ns_metadata s1 a = Some ma" using that 1(8) by simp
    show ?thesis
    proof (cases "code_hash ma = empty_digest")
      case True
      then show ?thesis using Some md by (simp add: code_bill_def old_code_size_def)
    next
      case False
      then have "a \<in> code_users s (code_key ma)" "a \<in> code_users s' (code_key ma)" using Some md same(2) by (auto simp: code_users_def)
      then obtain c c' where c: "ns_codes s (code_key ma) = Some c" "ns_codes s1 (code_key ma) = Some c'"
        using code_users_stored [OF ok(2)] code_users_stored [OF ok'] same(1) by metis
      have "co_code c' = co_code c" using setcode_codes [OF 1(4) c(1)] c(2) 1(8) by simp
      with c Some md show ?thesis by (simp add: code_bill_def old_code_size_def)
    qed
  qed
  have bill: "ram_bill lib s1 a = ram_bill lib s a + (if a = ?a then ?new - old_code_size m (ns_codes s) else 0)" for a
    using other [of a] new 1(2,8) by (cases "a = ?a") (simp_all add: ram_bill_def, simp add: code_bill_def)
  have used: "ram_used s1 a = ram_used s a" for a using 1(8) by (simp add: ram_used_def)
  show ?thesis
  proof (cases "?new = old_code_size m (ns_codes s)")
    case True
    with 1(9) bill used show ?thesis by (simp add: balanced_def)
  next
    case False
    then have ram: "add_ram_usage ?a (?new - old_code_size m (ns_codes s)) s1 = Inr s'" using 1(9) by simp
    show ?thesis by (rule balancedI [OF ram _ used bill]) (use 1(8) idx in simp)
  qed
qed

lemma balanced_step:
  assumes ok: "native_ok s" "codes_ok lib s" and idx: "idx_ok (usage_index (ns_resources s))"
    and run: "apply_native lib env receiver act s = Some (Inr s')" and fits: "code_fits lib act s"
    and hash: "\<And>c. c \<noteq> [] \<Longrightarrow> code_sha256 lib c \<noteq> empty_digest"
  shows "balanced lib s s'"
  using run
proof (cases rule: apply_nativeE)
  case newaccount
  with ok(1) idx show ?thesis by (rule balanced_newaccount)
next
  case setcode
  then show ?thesis by (rule balanced_setcode [OF ok idx _ fits hash])
next
  case setabi
  with idx show ?thesis by (rule balanced_setabi)
next
  case updateauth
  with ok(1) idx show ?thesis by (rule balanced_updateauth)
next
  case deleteauth
  with ok(1) idx show ?thesis by (rule balanced_deleteauth)
next
  case linkauth
  with ok(1) idx show ?thesis by (rule balanced_linkauth)
next
  case unlinkauth
  with ok(1) idx show ?thesis by (rule balanced_unlinkauth)
qed

section \<open>Links to permissions that exist\<close>

definition links_live :: "'k auth_db \<Rightarrow> bool" where
  "links_live db \<longleftrightarrow>
     (\<forall>i l. map_of (links db) i = Some l \<longrightarrow> required_permission l = eosio_any_name \<or>
        find_by_owner db (link_account l) (required_permission l) \<noteq> None)"

lemma links_live_mono:
  assumes "links_live db" "links db' = links db"
    and "\<And>a n. find_by_owner db a n \<noteq> None \<Longrightarrow> find_by_owner db' a n \<noteq> None"
  shows "links_live db'"
  using assms unfolding links_live_def by metis

lemma links_live_newaccount:
  assumes ok: "native_ok s" and live: "links_live (ns_auth s)" and run: "apply_eosio_newaccount lib env act s = Inr s'"
  shows "links_live (ns_auth s')"
  using run
proof (cases rule: newaccountE)
  case (1 d acc s1 p1 a1 p2 a2 r)
  have s1: "ns_accounts s1 0 = None" using 1(4,7) native_okD(3) [OF ok] by simp
  have ok1: "auth_ok a1"
    by (rule auth_ok_create [OF native_okD(1) [OF ok] 1(11) 1(4) names_nonzero(1) precondition_levels [OF 1(9) s1]]) (simp add: parent_fits_def)
  note f1 = find_by_owner_create [OF native_okD(1) [OF ok] 1(11) ok1]
  have ok2: "auth_ok a2"
    by (rule auth_ok_create [OF ok1 1(12) 1(4) names_nonzero(2) precondition_levels [OF 1(10) s1]]) (simp add: parent_fits_def f1)
  note f2 = find_by_owner_create [OF ok1 1(12) ok2]
  have "links_live a2" using f1(3) f2(3) by (intro links_live_mono [OF live]) (simp_all add: f1(1) f2(1))
  then show ?thesis using add_ram_usage_keeps(1) [OF 1(14)] by simp
qed

lemma links_live_updateauth:
  assumes ok: "native_ok s" and live: "links_live (ns_auth s)" and run: "apply_eosio_updateauth lib env act s = Inr s'"
  shows "links_live (ns_auth s')"
  using run
proof (cases rule: updateauthE)
  case (1 d par)
  note o = native_okD(1) [OF ok] and o' = native_okD(1) [OF native_ok_updateauth [OF ok run]]
  show ?thesis
  proof (cases "find_by_owner (ns_auth s) (ua_account d) (ua_permission d)")
    case (Some p)
    then obtain db x where new: "modify_permission (auth_env.truncate env) p (ua_auth d) (ns_auth s) = Inr db"
      and ram: "add_ram_usage (po_owner p) x (s\<lparr>ns_auth := db\<rparr>) = Inr s'" using 1(6) by auto
    have db: "ns_auth s' = db" using add_ram_usage_keeps(1) [OF ram] by simp
    have p: "map_of (permissions (ns_auth s)) (po_id p) = Some p" using Some find_by_owner_Some [OF o] by blast
    have ok': "auth_ok db" using o' db by simp
    from find_by_owner_modify [OF o p new ok'] have "links_live db" by (intro links_live_mono [OF live]) auto
    with db show ?thesis by simp
  next
    case None
    then obtain p db x where new: "create_permission (auth_env.truncate env) (ua_account d) (ua_permission d) par (ua_auth d) 0 (ns_auth s) = Inr (p, db)"
      and ram: "add_ram_usage (ua_account d) x (s\<lparr>ns_auth := db\<rparr>) = Inr s'" using 1(6) by auto
    have db: "ns_auth s' = db" using add_ram_usage_keeps(1) [OF ram] by simp
    have ok': "auth_ok db" using o' db by simp
    from find_by_owner_create [OF o new ok'] have "links_live db" by (intro links_live_mono [OF live]) simp_all
    with db show ?thesis by simp
  qed
qed

lemma links_live_deleteauth:
  assumes ok: "native_ok s" and live: "links_live (ns_auth s)" and run: "apply_eosio_deleteauth lib act s = Inr s'"
  shows "links_live (ns_auth s')"
  using run
proof (cases rule: deleteauthE)
  case (1 d p db)
  note o = native_okD(1) [OF ok]
  have db: "ns_auth s' = db" using add_ram_usage_keeps(1) [OF 1(7)] by simp
  then have ok': "auth_ok db" using native_okD(1) [OF native_ok_deleteauth [OF ok run]] by simp
  have p: "map_of (permissions (ns_auth s)) (po_id p) = Some p" "po_owner p = da_account d" "po_name p = da_permission d"
    using 1(5) by (simp_all add: get_permission_Inr [OF o])
  note f = find_by_owner_remove [OF o p(1) 1(6) ok']
  have "links_live db"
    unfolding links_live_def f(3)
  proof (intro allI impI)
    fix i l assume l: "map_of (links (ns_auth s)) i = Some l"
    have "\<not> (link_account l = da_account d \<and> required_permission l = da_permission d)"
      using 1(4) map_of_SomeD [OF l] by auto
    with live l p(2,3) show "required_permission l = eosio_any_name \<or> find_by_owner db (link_account l) (required_permission l) \<noteq> None"
      unfolding f(1) links_live_def by auto
  qed
  with db show ?thesis by simp
qed

lemma links_live_linkauth:
  assumes ok: "native_ok s" and live: "links_live (ns_auth s)" and run: "apply_eosio_linkauth lib env act s = Inr s'"
    and feature: "only_link_to_existing_permission env"
  shows "links_live (ns_auth s')"
  using run
proof (cases rule: linkauthE)
  case (1 d)
  note parts = auth_ok_parts [OF native_okD(1) [OF ok]]
  have req: "la_requirement d = eosio_any_name \<or> find_by_owner (ns_auth s) (la_account d) (la_requirement d) \<noteq> None"
    using 1(4) feature by simp
  show ?thesis
  proof (cases "find_link (ns_auth s) (la_account d) (la_code d) (la_type d)")
    case None
    let ?l = "\<lparr>link_account = la_account d, link_code = la_code d, message_type = la_type d, required_permission = la_requirement d\<rparr>"
    have "ns_auth s' = create_link ?l (ns_auth s)" using None 1(5) add_ram_usage_keeps(1) by fastforce
    moreover have "map_of (links (create_link ?l (ns_auth s))) = (map_of (links (ns_auth s)))(next_link (ns_auth s) \<mapsto> ?l)"
      using parts(3) by (simp add: create_link_def set_link_def map_of_put)
    ultimately show ?thesis using live req by (auto simp: links_live_def)
  next
    case (Some r)
    obtain i l where r: "r = (i, l)" by (cases r)
    have l: "link_account l = la_account d" using find_linkD(2) [OF parts(3)] Some r by blast
    let ?l = "l\<lparr>required_permission := la_requirement d\<rparr>"
    have "ns_auth s' = set_link i ?l (ns_auth s)" using 1(5) Some r by simp
    moreover have "map_of (links (set_link i ?l (ns_auth s))) = (map_of (links (ns_auth s)))(i \<mapsto> ?l)"
      using parts(3) by (simp add: set_link_def map_of_put)
    ultimately show ?thesis using live req l by (auto simp: links_live_def)
  qed
qed

lemma links_live_step:
  assumes ok: "native_ok s" "links_live (ns_auth s)" and feature: "only_link_to_existing_permission env"
    and run: "apply_native lib env receiver act s = Some (Inr s')"
  shows "links_live (ns_auth s')"
  using run
proof (cases rule: apply_nativeE)
  case newaccount
  with ok show ?thesis by (rule links_live_newaccount)
next
  case setcode
  then show ?thesis
  proof (cases rule: setcodeE)
    case (1 d m m' s1)
    have "ns_auth s' = ns_auth s" using 1(8,9) add_ram_usage_keeps(1) [of "sc_account d" _ s1 s'] by (auto split: if_splits)
    with ok(2) show ?thesis by simp
  qed
next
  case setabi
  then show ?thesis
  proof (cases rule: setabiE)
    case (1 d acc m s1)
    have "ns_auth s' = ns_auth s" using 1(4,5) add_ram_usage_keeps(1) [of "sa_account d" _ s1 s'] by (auto split: if_splits)
    with ok(2) show ?thesis by simp
  qed
next
  case updateauth
  with ok show ?thesis by (rule links_live_updateauth)
next
  case deleteauth
  with ok show ?thesis by (rule links_live_deleteauth)
next
  case linkauth
  from links_live_linkauth [OF ok this feature] show ?thesis .
next
  case unlinkauth
  then show ?thesis
  proof (cases rule: unlinkauthE)
    case (1 d i l s1)
    have "ns_auth s' = remove_link i (ns_auth s)" using 1(4) add_ram_usage_keeps(1) [OF 1(3)] by simp
    moreover have "map_of (links (remove_link i (ns_auth s))) = (map_of (links (ns_auth s)))(i := None)"
      by (simp add: remove_link_def map_of_remove)
    ultimately show ?thesis using ok(2) by (auto simp: links_live_def)
  qed
qed

lemma required_level_exists:
  assumes ok: "native_ok s" "links_live (ns_auth s)" and acc: "ns_accounts s a \<noteq> None"
    and req: "required_level (ns_auth s) a scope act = Some l"
  shows "\<exists>p. get_permission (ns_auth s) l = Inr p"
proof -
  note o = native_okD [OF ok(1)]
  have a: "a \<noteq> 0" using acc o(3) by metis
  obtain n p where l: "l = \<lparr>actor = a, permission = n\<rparr>" and p: "find_by_owner (ns_auth s) a n = Some p"
  proof (cases "lookup_linked_permission (ns_auth s) a scope act")
    case None
    then show ?thesis using that req o(4) [OF acc] by (auto simp: required_level_def has_basic_permissions_def)
  next
    case (Some n)
    then have n: "n \<noteq> eosio_any_name" "l = \<lparr>actor = a, permission = n\<rparr>" using req by (auto simp: required_level_def split: if_splits)
    obtain i k t where k: "find_link (ns_auth s) a scope t = Some (i, k)" "required_permission k = n"
      using Some by (auto simp: lookup_linked_permission_def split: option.splits)
    note f = find_linkD [OF auth_ok_parts(3) [OF o(1)] k(1)]
    have "find_by_owner (ns_auth s) a n \<noteq> None" using ok(2) f(1,2) k(2) n(1) unfolding links_live_def by blast
    with n(2) that show ?thesis by blast
  qed
  have row: "map_of (permissions (ns_auth s)) (po_id p) = Some p" "po_owner p = a" "po_name p = n"
    using p find_by_owner_Some [OF o(1)] by blast+
  have nz: "po_id p \<noteq> 0" using reserved_row [OF o(1)] row a by (metis option.inject)
  have "n \<noteq> 0" using auth_okD(3) [OF o(1) row(1) nz] row(3) by (simp add: permission_ok_def)
  with a row l show ?thesis by (intro exI [of _ p]) (simp add: get_permission_Inr [OF o(1)] named_levels_def)
qed

lemma native_run_codes:
  assumes hash: "\<And>c. c \<noteq> [] \<Longrightarrow> code_sha256 lib c \<noteq> empty_digest"
  shows "native_run lib E s0 s \<Longrightarrow> native_ok s0 \<Longrightarrow> codes_ok lib s0 \<Longrightarrow> codes_ok lib s"
proof (induction rule: native_run.induct)
  case (step s env receiver act s')
  from codes_ok_step [OF step.IH [OF step.prems] native_run_ok [OF step.hyps(1) step.prems(1)] step.hyps(3)] hash
  show ?case by blast
qed

lemma native_run_links:
  "native_run lib {env. only_link_to_existing_permission env} s0 s \<Longrightarrow> native_ok s0 \<Longrightarrow> links_live (ns_auth s0) \<Longrightarrow> links_live (ns_auth s)"
  by (induction rule: native_run.induct) (auto intro: links_live_step native_run_ok)

section \<open>A database with the system account\<close>

lemma native_name_values [code]:
  "newaccount_name = 11148770977341390848"
  "setcode_name = 14029427681804681216"
  "setabi_name = 14029385431137648640"
  "canceldelay_name = 4730614990712192000"
  by code_simp+

lemma validate_code [code]:
  "validate auth =
     (if (65536 :: int) < int (length (keys auth) + length (accounts auth) + length (waits auth)) then False
      else if threshold auth = 0 then False
      else (case validate_entries kw_key kw_weight None (keys auth) 0 of
              None \<Rightarrow> False
            | Some w1 \<Rightarrow>
          (case validate_entries (\<lambda>a. level_key (plw_permission a)) plw_weight None (accounts auth) w1 of
              None \<Rightarrow> False
            | Some w2 \<Rightarrow>
          (if waits auth \<noteq> [] \<and> ww_wait_sec (hd (waits auth)) = 0 then False
           else (case validate_entries ww_wait_sec ww_weight None (waits auth) w2 of
              None \<Rightarrow> False
            | Some w3 \<Rightarrow> w3 \<ge> threshold auth)))))"
proof -
  have "65536 < int n \<longleftrightarrow> 65536 < n" for n by linarith
  then show ?thesis unfolding validate_def by presburger
qed

definition sample_native_env :: "nat native_env" where
  "sample_native_env = \<lparr>key_which = (\<lambda>_. 0), num_supported_key_types = 2, pending_block_time = 946684900000000, max_authority_depth = 6,
     fix_linkauth_restriction = True, head_block_num = 10, max_transaction_delay = 3600, only_link_to_existing_permission = True,
     enforce_whiteblacklist = False, is_producing_block = False, key_blacklist = []\<rparr>"

definition sample_newaccount :: "nat newaccount" where
  "sample_newaccount = \<lparr>na_creator = system_account_name, na_name = 3773036822876127232,
     na_owner = authority_of_key 20 0, na_active = authority_of_key 21 0\<rparr>"

definition sample_setcode :: setcode where
  "sample_setcode = \<lparr>sc_account = system_account_name, sc_vmtype = 0, sc_vmversion = 0, sc_code = [1, 2, 3]\<rparr>"

definition sample_native_lib :: "nat native_lib" where
  "sample_native_lib = \<lparr>unpack_updateauth = (\<lambda>_. Inl Fc_exception), unpack_deleteauth = (\<lambda>_. Inl Fc_exception),
     unpack_linkauth = (\<lambda>_. Inl Fc_exception), unpack_unlinkauth = (\<lambda>_. Inl Fc_exception),
     unpack_newaccount = (\<lambda>_. Inr sample_newaccount), unpack_setcode = (\<lambda>_. Inr sample_setcode), unpack_setabi = (\<lambda>_. Inl Fc_exception),
     code_sha256 = (\<lambda>_. digest_of 1), key_pack_size = (\<lambda>_. 34), wasm_validate = (\<lambda>_. Inr ())\<rparr>"

definition sample_native :: "nat native_state" where
  "sample_native = \<lparr>
     ns_auth = sample_create system_account_name active_name 1 (authority_of_key 11 0)
       (sample_create system_account_name owner_name 0 (authority_of_key 10 0) (projr (auth_initialize_database empty_auth_db))),
     ns_accounts = [system_account_name \<mapsto> \<lparr>creation_date = 0, acc_abi = []\<rparr>],
     ns_metadata = [system_account_name \<mapsto> new_metadata], ns_codes = (\<lambda>_. None),
     ns_resources = projr (initialize_account system_account_name initialize_database),
     validate_ram_usage = {}, account_ram_deltas = []\<rparr>"

definition sample_native_action :: "action_name \<Rightarrow> action" where
  "sample_native_action n = \<lparr>act_account = system_account_name, act_name = n,
     act_authorization = [\<lparr>actor = system_account_name, permission = active_name\<rparr>], act_data = []\<rparr>"

definition sample_step :: "action_name \<Rightarrow> nat native_state \<Rightarrow> nat native_state" where
  "sample_step n s = projr (the (apply_native sample_native_lib sample_native_env system_account_name (sample_native_action n) s))"

definition sample_succeeds :: "action_name \<Rightarrow> nat native_state \<Rightarrow> bool" where
  "sample_succeeds n s \<longleftrightarrow>
     (case apply_native sample_native_lib sample_native_env system_account_name (sample_native_action n) s of Some (Inr _) \<Rightarrow> True | _ \<Rightarrow> False)"

lemma sample_step_apply:
  "sample_succeeds n s \<Longrightarrow>
     apply_native sample_native_lib sample_native_env system_account_name (sample_native_action n) s = Some (Inr (sample_step n s))"
  by (auto simp: sample_succeeds_def sample_step_def split: option.splits sum.splits)

lemma sample_native_auth: "auth_ok (ns_auth sample_native)"
proof -
  have "auth_ok (sample_create system_account_name active_name 1 (authority_of_key 11 0)
      (sample_create system_account_name owner_name 0 (authority_of_key 10 0) (projr (auth_initialize_database empty_auth_db))))"
  proof (intro sample_create_ok)
    show "auth_ok (projr (auth_initialize_database empty_auth_db))"
      by (rule auth_ok_initialize) (simp add: auth_initialize_database_def empty_auth_db_def create_permission_object_def find_by_owner_def Let_def)
  qed code_simp+
  then show ?thesis by (simp add: sample_native_def)
qed

lemma sample_native_ok: "native_ok sample_native"
proof (rule native_okI [OF sample_native_auth])
  let ?db = "ns_auth sample_native"
  have rows: "list_all (\<lambda>r. fst r = 0 \<or> (parent (snd r) = 0 \<longleftrightarrow> po_name (snd r) = owner_name) \<and> po_owner (snd r) = system_account_name) (permissions ?db)"
    by code_simp
  have basic: "case (find_by_owner ?db system_account_name owner_name, find_by_owner ?db system_account_name active_name) of
      (Some p, Some q) \<Rightarrow> parent q = po_id p | _ \<Rightarrow> False"
    by code_simp
  have accs: "ns_accounts sample_native = [system_account_name \<mapsto> \<lparr>creation_date = 0, acc_abi = []\<rparr>]"
    "ns_metadata sample_native = [system_account_name \<mapsto> new_metadata]"
    by (simp_all add: sample_native_def)
  show "dom (ns_metadata sample_native) = dom (ns_accounts sample_native)" by (simp add: accs)
  show "ns_accounts sample_native 0 = None" by (simp add: accs name_values)
  show "has_basic_permissions ?db a" if "ns_accounts sample_native a \<noteq> None" for a
    using basic that by (auto simp: accs has_basic_permissions_def split: if_splits option.splits)
  show "(parent p = 0 \<longleftrightarrow> po_name p = owner_name) \<and> ns_accounts sample_native (po_owner p) \<noteq> None"
    if "map_of (permissions ?db) i = Some p" "i \<noteq> 0" for i p
    using rows map_of_SomeD [OF that(1)] that(2) by (force simp: accs list_all_iff)
qed

lemma sample_native_codes: "codes_ok sample_native_lib sample_native"
  by (auto simp: codes_ok_def counted_def code_users_def sample_native_def new_metadata_def split: if_splits)

lemma sample_hash: "code_sha256 sample_native_lib c \<noteq> empty_digest"
  by (simp add: sample_native_lib_def digest_of_def empty_digest_def)

lemma sample_native_run:
  assumes "sample_succeeds newaccount_name sample_native" "sample_succeeds setcode_name (sample_step newaccount_name sample_native)"
  shows "native_run sample_native_lib {env. only_link_to_existing_permission env} sample_native
     (sample_step setcode_name (sample_step newaccount_name sample_native))"
proof -
  have "sample_native_env \<in> {env. only_link_to_existing_permission env}" by (simp add: sample_native_env_def)
  then show ?thesis using sample_step_apply [OF assms(1)] sample_step_apply [OF assms(2)] by (blast intro: native_run.intros)
qed

lemma sample_succeeds_newaccount: "sample_succeeds newaccount_name sample_native"
  by code_simp

lemma sample_succeeds_setcode: "sample_succeeds setcode_name (sample_step newaccount_name sample_native)"
  by code_simp

section \<open>Properties of the native actions\<close>

text \<open>
  C13: typing of the permission database. After any sequence of native actions from a well-formed state, every id stored in a permission refers to
  a row of the right kind: its parent is the reserved permission or an older permission of the same account, its usage
  object exists and is its own, owner and name are not empty and identify it, and its authority refers to levels that
  are not empty. Every account has its owner and active permissions, and the owner permission is an ancestor of all
  permissions of the account.
\<close>

theorem native_actions_keep_permissions:
  assumes "native_run lib E s0 s" "native_ok s0"
  shows "auth_ok (ns_auth s) \<and>
    (\<forall>a. ns_accounts s a \<noteq> None \<longrightarrow>
       (\<exists>r v. find_by_owner (ns_auth s) a owner_name = Some r \<and> find_by_owner (ns_auth s) a active_name = Some v \<and>
          (\<forall>i p. map_of (permissions (ns_auth s)) i = Some p \<longrightarrow> po_owner p = a \<longrightarrow> ancestor (ns_auth s) (po_id r) i)))"
proof -
  have ok: "native_ok s" using assms by (rule native_run_ok)
  show ?thesis
  proof (intro conjI allI impI)
    show "auth_ok (ns_auth s)" by (rule native_okD(1) [OF ok])
    fix a assume a: "ns_accounts s a \<noteq> None"
    then have "a \<noteq> 0" using native_okD(3) [OF ok] by metis
    obtain r v where r: "find_by_owner (ns_auth s) a owner_name = Some r" "find_by_owner (ns_auth s) a active_name = Some v"
      using native_okD(4) [OF ok a] by (auto simp: has_basic_permissions_def)
    with owner_above [OF ok r(1) \<open>a \<noteq> 0\<close>]
    show "\<exists>r v. find_by_owner (ns_auth s) a owner_name = Some r \<and> find_by_owner (ns_auth s) a active_name = Some v \<and>
          (\<forall>i p. map_of (permissions (ns_auth s)) i = Some p \<longrightarrow> po_owner p = a \<longrightarrow> ancestor (ns_auth s) (po_id r) i)"
      by blast
  qed
qed

definition sample_native_end :: "nat native_state" where
  "sample_native_end = sample_step setcode_name (sample_step newaccount_name sample_native)"

lemma sample_end_run: "native_run sample_native_lib {env. only_link_to_existing_permission env} sample_native sample_native_end"
  unfolding sample_native_end_def by (rule sample_native_run [OF sample_succeeds_newaccount sample_succeeds_setcode])

theorem native_actions_keep_permissions_witness:
  "auth_ok (ns_auth sample_native_end) \<and> ns_accounts sample_native_end 3773036822876127232 \<noteq> None \<and>
   find_by_owner (ns_auth sample_native_end) 3773036822876127232 owner_name \<noteq> None"
proof -
  have "ns_accounts sample_native_end 3773036822876127232 \<noteq> None" by code_simp
  with native_actions_keep_permissions [OF sample_end_run sample_native_ok] show ?thesis by blast
qed

text \<open>
  C14: reference counts of code. After any sequence of native actions from a well-formed state with exact counts, and for a
  hash function that gives the empty hash to no code but the empty one, a row of code is stored exactly for the keys that
  some account uses, and its counter is the number of these accounts; in particular the 64-bit counter never wraps
  around and code that is used is never removed.
\<close>

theorem code_references_counted:
  assumes "native_run lib E s0 s" "native_ok s0" "codes_ok lib s0"
    and "\<And>c. c \<noteq> [] \<Longrightarrow> code_sha256 lib c \<noteq> empty_digest"
  shows "case ns_codes s k of
      None \<Rightarrow> code_users s k = {}
    | Some c \<Rightarrow> code_users s k \<noteq> {} \<and> unat (code_ref_count c) = card (code_users s k) \<and> fst k = code_sha256 lib (co_code c)"
proof -
  have ok: "codes_ok lib s" using native_run_codes [OF assms(4,1,2,3)] .
  then have "case ns_codes s k of None \<Rightarrow> code_users s k = {} | Some c \<Rightarrow> code_users s k \<noteq> {} \<and> unat (code_ref_count c) = card (code_users s k)"
    and "\<forall>c. ns_codes s k = Some c \<longrightarrow> fst k = code_sha256 lib (co_code c)"
    unfolding codes_ok_def counted_def by blast+
  then show ?thesis by (cases "ns_codes s k") simp_all
qed

theorem code_references_counted_witness:
  "\<exists>c. ns_codes sample_native_end (digest_of 1, 0, 0) = Some c \<and> card (code_users sample_native_end (digest_of 1, 0, 0)) = 1"
proof -
  have "map_option code_ref_count (ns_codes sample_native_end (digest_of 1, 0, 0)) = Some 1" by code_simp
  then obtain c where c: "ns_codes sample_native_end (digest_of 1, 0, 0) = Some c" "code_ref_count c = 1" by auto
  with code_references_counted [OF sample_end_run sample_native_ok sample_native_codes sample_hash, of "(digest_of 1, 0, 0)"]
  show ?thesis by simp
qed

text \<open>
  C7: the RAM an account is charged changes with every native action by exactly what the change of the database is worth:
  its account row and ABI, ten times the size of its code, its permissions with their authorities and its links. Both
  sides are 64-bit values as in the code. The state is well-formed with exact reference counts of code, new code has
  fewer than \<open>2\<^sup>6\<^sup>3\<close> bytes and no stored code shares its hash without being equal, and no code but the empty one has the
  empty hash.
\<close>

theorem ram_follows_database:
  assumes "native_ok s" "codes_ok lib s" "idx_ok (usage_index (ns_resources s))"
    and "apply_native lib env receiver act s = Some (Inr s')" "code_fits lib act s"
    and "\<And>c. c \<noteq> [] \<Longrightarrow> code_sha256 lib c \<noteq> empty_digest"
  shows "ram_used s' a - ram_used s a = ram_bill lib s' a - ram_bill lib s a"
  using balanced_step [OF assms] by (simp add: balanced_def)

theorem ram_follows_database_witness:
  "ram_used (sample_step setcode_name sample_native) system_account_name - ram_used sample_native system_account_name =
   ram_bill sample_native_lib (sample_step setcode_name sample_native) system_account_name -
     ram_bill sample_native_lib sample_native system_account_name \<and>
   ram_used (sample_step setcode_name sample_native) system_account_name = 30"
proof -
  have ok: "sample_succeeds setcode_name sample_native" "idx_ok (usage_index (ns_resources sample_native))"
    "ram_used (sample_step setcode_name sample_native) system_account_name = 30" by code_simp+
  have "code_fits sample_native_lib (sample_native_action setcode_name) sample_native"
    by (simp add: code_fits_def sample_native_lib_def sample_setcode_def sample_native_def)
  from ram_follows_database [OF sample_native_ok sample_native_codes ok(2) sample_step_apply [OF ok(1)] this sample_hash] ok(3)
  show ?thesis by blast
qed

text \<open>
  C27: when links may only name existing permissions, no link is ever left dangling: after any sequence of native actions
  the permission that an account requires for an action exists, so that looking it up during an authorization check
  cannot fail.
\<close>

theorem required_permission_exists:
  assumes "native_run lib {env. only_link_to_existing_permission env} s0 s" "native_ok s0" "links_live (ns_auth s0)"
    and "ns_accounts s a \<noteq> None" "required_level (ns_auth s) a scope act = Some l"
  shows "\<exists>p. get_permission (ns_auth s) l = Inr p"
  using required_level_exists [OF native_run_ok [OF assms(1,2)] native_run_links [OF assms(1-3)] assms(4,5)] .

theorem required_permission_exists_witness:
  "\<exists>p. get_permission (ns_auth sample_native_end) \<lparr>actor = 3773036822876127232, permission = active_name\<rparr> = Inr p"
proof -
  have "links_live (ns_auth sample_native)"
  proof -
    have "links (ns_auth sample_native) = []" by code_simp
    then show ?thesis by (simp add: links_live_def)
  qed
  moreover have "ns_accounts sample_native_end 3773036822876127232 \<noteq> None"
    "required_level (ns_auth sample_native_end) 3773036822876127232 7 8 = Some \<lparr>actor = 3773036822876127232, permission = active_name\<rparr>"
    by code_simp+
  ultimately show ?thesis using required_permission_exists [OF sample_end_run sample_native_ok] by blast
qed

end
