(* ===== verification/Transaction_Checks.thy ===== *)
theory Transaction_Checks
  imports Eosio_Contract
begin

text \<open>
  The checks an input transaction has to pass before it is executed: the lists of allowed and forbidden accounts,
  contracts and actions and the validation of expiration and reference block (\<^verbatim>\<open>controller.cpp\<close>), the accounts it refers
  to and its entry in the table of recent transactions (\<^verbatim>\<open>transaction_context.cpp\<close>), and the summaries of recent blocks.
  A \<^verbatim>\<open>flat_set\<close> is the strictly sorted list of its elements. What the code reads from the configuration, the global state
  and the controller are fields of \<open>trx_env\<close>, which extends the environment of the native actions.
\<close>

section \<open>Signed arithmetic\<close>

text \<open>The result of a sum or difference of type \<^verbatim>\<open>int64_t\<close>, which is undefined outside the range of the type.\<close>

definition to_int64 :: "int \<Rightarrow> (chain_exception, int) result" where
  "to_int64 x = (if - (2 ^ 63) \<le> x \<and> x < 2 ^ 63 then Inr x else Inl Undefined_behaviour)"

lemma to_int64_eq_Inr_iff [result_simps]: "to_int64 x = Inr y \<longleftrightarrow> y = x \<and> - (2 ^ 63) \<le> x \<and> x < 2 ^ 63"
  by (auto simp: to_int64_def)

section \<open>Transactions\<close>

record transaction =
  expiration :: u32
  ref_block_num :: u16
  ref_block_prefix :: u32
  max_net_usage_words :: u32
  max_cpu_usage_ms :: u8
  context_free_actions :: "action list"
  actions :: "action list"
  transaction_extensions :: "(u16 \<times> bytes) list"

record 'k trx_env = "'k native_env" +
  actor_whitelist :: "account_name list"
  actor_blacklist :: "account_name list"
  contract_whitelist :: "account_name list"
  contract_blacklist :: "account_name list"
  action_blacklist :: "(account_name \<times> action_name) list"
  resource_greylist :: "account_name list"
  greylist_limit :: u32
  skip_trx_checks :: bool
  override_chain_cpu_limits :: bool
  only_bill_first_authorizer :: bool
  cfg_max_transaction_net_usage :: u32
  cfg_base_per_transaction_net_usage :: u32
  cfg_net_usage_leeway :: u32
  cfg_context_free_discount_net_usage_num :: u32
  cfg_context_free_discount_net_usage_den :: u32
  cfg_max_transaction_cpu_usage :: u32
  cfg_min_transaction_cpu_usage :: u32
  cfg_max_transaction_lifetime :: u32

text \<open>The conversion of \<^verbatim>\<open>time_point_sec\<close> to \<^verbatim>\<open>time_point\<close>.\<close>

definition time_of_sec :: "u32 \<Rightarrow> time_point" where
  "time_of_sec s = uint s * 1000000"

definition transaction_header_validate :: "transaction \<Rightarrow> (chain_exception, unit) result" where
  "transaction_header_validate trx = eos_assert (ucast (max_net_usage_words trx) < (4294967295 div 8 :: u64)) Transaction_exception"

fun first_authorizer_of :: "action list \<Rightarrow> account_name" where
  "first_authorizer_of [] = 0"
| "first_authorizer_of (a # as) = (case act_authorization a of [] \<Rightarrow> first_authorizer_of as | u # _ \<Rightarrow> actor u)"

definition first_authorizer :: "transaction \<Rightarrow> account_name" where
  "first_authorizer trx = first_authorizer_of (actions trx)"

section \<open>Lists of accounts\<close>

definition set_insert :: "'o :: linorder \<Rightarrow> 'o list \<Rightarrow> 'o list" where
  "set_insert x xs = (if x \<in> set xs then xs else insort x xs)"

text \<open>\<^verbatim>\<open>std::lower_bound\<close>: the part of a sorted range from the first element that is not less.\<close>

definition lower_bound :: "account_name list \<Rightarrow> account_name \<Rightarrow> account_name list" where
  "lower_bound rest a = dropWhile (\<lambda>w. w < a) rest"

fun is_subset_loop :: "account_name list \<Rightarrow> account_name list \<Rightarrow> bool" where
  "is_subset_loop [] rest = True"
| "is_subset_loop (a # as) rest =
     (case lower_bound rest a of
        [] \<Rightarrow> False
      | w # ws \<Rightarrow> if w \<noteq> a then False else is_subset_loop as ws)"

fun intersects_loop :: "account_name list \<Rightarrow> account_name list \<Rightarrow> bool" where
  "intersects_loop [] rest = False"
| "intersects_loop (a # as) rest =
     (case lower_bound rest a of
        [] \<Rightarrow> False
      | w # ws \<Rightarrow> if w = a then True else intersects_loop as (w # ws))"

definition check_actor_list :: "('k, 'x) trx_env_scheme \<Rightarrow> account_name list \<Rightarrow> (chain_exception, unit) result" where
  "check_actor_list env actors =
     (if actors = [] then Inr ()
      else if actor_whitelist env \<noteq> [] then
        let whitelist = actor_whitelist env;
            is_subset = (if hd actors \<ge> hd whitelist \<and> last actors \<le> last whitelist
                         then is_subset_loop actors whitelist else False)
        in eos_assert is_subset (List_error Actor_whitelist_exception)
      else if actor_blacklist env \<noteq> [] then
        let blacklist = actor_blacklist env;
            intersects = (if hd actors \<le> last blacklist \<and> last actors \<ge> hd blacklist
                          then intersects_loop actors blacklist else False)
        in eos_assert (\<not> intersects) (List_error Actor_blacklist_exception)
      else Inr ())"

definition check_contract_list :: "('k, 'x) trx_env_scheme \<Rightarrow> account_name \<Rightarrow> (chain_exception, unit) result" where
  "check_contract_list env code =
     (if contract_whitelist env \<noteq> []
      then eos_assert (code \<in> set (contract_whitelist env)) (List_error Contract_whitelist_exception)
      else if contract_blacklist env \<noteq> []
      then eos_assert (code \<notin> set (contract_blacklist env)) (List_error Contract_blacklist_exception)
      else Inr ())"

definition check_action_list :: "('k, 'x) trx_env_scheme \<Rightarrow> account_name \<Rightarrow> action_name \<Rightarrow> (chain_exception, unit) result" where
  "check_action_list env code act =
     (if action_blacklist env \<noteq> []
      then eos_assert ((code, act) \<notin> set (action_blacklist env)) (List_error Action_blacklist_exception)
      else Inr ())"

section \<open>Expiration and reference block\<close>

definition validate_expiration :: "('k, 'x) trx_env_scheme \<Rightarrow> transaction \<Rightarrow> (chain_exception, unit) result" where
  "validate_expiration env trx =
     rbind (eos_assert (time_of_sec (expiration trx) \<ge> pending_block_time env) (Trx_error Expired_tx_exception)) (\<lambda>_.
     rbind (to_int64 (pending_block_time env + time_of_sec (cfg_max_transaction_lifetime env))) (\<lambda>latest.
     eos_assert (time_of_sec (expiration trx) \<le> latest) (Trx_error Tx_exp_too_far_exception)))"

definition set_reference_block :: "('k, 's) fc_lib \<Rightarrow> digest_type \<Rightarrow> transaction \<Rightarrow> transaction" where
  "set_reference_block fc reference_block trx =
     trx\<lparr>ref_block_num := ucast (fc_endian_reverse_u32 fc (ucast (hash0 reference_block))),
       ref_block_prefix := ucast (hash1 reference_block)\<rparr>"

definition verify_reference_block :: "('k, 's) fc_lib \<Rightarrow> digest_type \<Rightarrow> transaction \<Rightarrow> bool" where
  "verify_reference_block fc reference_block trx \<longleftrightarrow>
     ref_block_num trx = ucast (fc_endian_reverse_u32 fc (ucast (hash0 reference_block))) \<and>
     ref_block_prefix trx = ucast (hash1 reference_block)"

definition create_block_summary :: "('k, 's) fc_lib \<Rightarrow> digest_type \<Rightarrow> (u16 \<rightharpoonup> digest_type) \<Rightarrow> (chain_exception, u16 \<rightharpoonup> digest_type) result" where
  "create_block_summary fc i summaries =
     (let sid = ucast (num_from_id fc i AND 0xffff) in
      case summaries sid of None \<Rightarrow> Inl Unknown_key | Some _ \<Rightarrow> Inr (summaries(sid \<mapsto> i)))"

definition validate_tapos :: "('k, 's) fc_lib \<Rightarrow> (u16 \<rightharpoonup> digest_type) \<Rightarrow> transaction \<Rightarrow> (chain_exception, unit) result" where
  "validate_tapos fc summaries trx =
     (case summaries (ref_block_num trx) of
        None \<Rightarrow> Inl Unknown_key
      | Some i \<Rightarrow> eos_assert (verify_reference_block fc i trx) (Trx_error Invalid_ref_block_exception))"

section \<open>Accounts and duplicates\<close>

definition validate_context_free :: "'k native_state \<Rightarrow> action \<Rightarrow> (chain_exception, unit) result" where
  "validate_context_free s a =
     rbind (eos_assert (ns_accounts s (act_account a) \<noteq> None) Transaction_exception) (\<lambda>_.
     eos_assert (act_authorization a = []) Transaction_exception)"

definition validate_authorizer :: "bool \<Rightarrow> 'k native_state \<Rightarrow> permission_level \<Rightarrow> bool \<times> account_name list \<Rightarrow>
    (chain_exception, bool \<times> account_name list) result" where
  "validate_authorizer enforce s auth st =
     rbind (eos_assert (ns_accounts s (actor auth) \<noteq> None) Transaction_exception) (\<lambda>_.
     rbind (find_permission (ns_auth s) auth) (\<lambda>p.
     rbind (eos_assert (p \<noteq> None) Transaction_exception) (\<lambda>_.
     Inr (True, if enforce then set_insert (actor auth) (snd st) else snd st))))"

definition validate_action_accounts :: "bool \<Rightarrow> 'k native_state \<Rightarrow> action \<Rightarrow> bool \<times> account_name list \<Rightarrow>
    (chain_exception, bool \<times> account_name list) result" where
  "validate_action_accounts enforce s a st =
     rbind (eos_assert (ns_accounts s (act_account a) \<noteq> None) Transaction_exception) (\<lambda>_.
     for_each (validate_authorizer enforce s) (act_authorization a) st)"

definition validate_referenced_accounts :: "('k, 'x) trx_env_scheme \<Rightarrow> 'k native_state \<Rightarrow> transaction \<Rightarrow> bool \<Rightarrow> (chain_exception, unit) result" where
  "validate_referenced_accounts env s trx enforce_actor_whitelist_blacklist =
     rbind (if context_free_actions trx \<noteq> [] \<and> \<not> skip_trx_checks env
            then for_each (\<lambda>a _. validate_context_free s a) (context_free_actions trx) () else Inr ()) (\<lambda>_.
     rbind (for_each (validate_action_accounts enforce_actor_whitelist_blacklist s) (actions trx) (False, [])) (\<lambda>(one_auth, actors).
     rbind (eos_assert one_auth (Trx_error Tx_no_auths)) (\<lambda>_.
     if enforce_actor_whitelist_blacklist then check_actor_list env actors else Inr ())))"

text \<open>The rows of the table of recent transactions in the order of expiration and creation.\<close>

record transaction_object =
  to_expiration :: u32
  to_trx_id :: digest_type

definition record_transaction :: "digest_type \<Rightarrow> u32 \<Rightarrow> transaction_object list \<Rightarrow> (chain_exception, transaction_object list) result" where
  "record_transaction i expire rows =
     (if \<exists>r \<in> set rows. to_trx_id r = i then Inl (Trx_error Tx_duplicate)
      else Inr (insert_upper to_expiration \<lparr>to_expiration = expire, to_trx_id = i\<rparr> rows))"

fun clear_expired_input_transactions :: "time_point \<Rightarrow> transaction_object list \<Rightarrow> transaction_object list" where
  "clear_expired_input_transactions now [] = []"
| "clear_expired_input_transactions now (r # rows) =
     (if now > time_of_sec (to_expiration r) then clear_expired_input_transactions now rows else r # rows)"

section \<open>Properties of the lists\<close>

lemma lower_bound_append:
  assumes "sorted_wrt (<) ws0"
  shows "sorted_wrt (<) (lower_bound ws0 a)" "set (lower_bound ws0 a) = {w \<in> set ws0. a \<le> w}"
proof -
  have s: "sorted_wrt (<) (takeWhile (\<lambda>w. w < a) ws0 @ lower_bound ws0 a)"
    using assms by (simp add: lower_bound_def)
  then show "sorted_wrt (<) (lower_bound ws0 a)" by (simp add: sorted_wrt_append)
  have "a \<le> w" if "w \<in> set (lower_bound ws0 a)" for w
  proof (cases "lower_bound ws0 a")
    case (Cons v vs)
    then have "a \<le> v" by (metis dropWhile_eq_Cons_conv lower_bound_def not_le)
    with that Cons s show ?thesis by (auto simp: sorted_wrt_append)
  qed (use that in simp)
  moreover have "set ws0 = set (takeWhile (\<lambda>w. w < a) ws0) \<union> set (lower_bound ws0 a)"
    by (metis lower_bound_def set_append takeWhile_dropWhile_id)
  ultimately show "set (lower_bound ws0 a) = {w \<in> set ws0. a \<le> w}"
    using set_takeWhileD by fastforce
qed

lemma is_subset_loop_iff:
  assumes "sorted_wrt (<) as" "sorted_wrt (<) ws0"
  shows "is_subset_loop as ws0 \<longleftrightarrow> set as \<subseteq> set ws0"
  using assms
proof (induction as arbitrary: ws0)
  case (Cons a as)
  note lb = lower_bound_append [OF Cons.prems(2), of a]
  have above: "\<forall>b \<in> set as. a < b" using Cons.prems(1) by simp
  show ?case
  proof (cases "lower_bound ws0 a")
    case Nil
    then have "a \<notin> set ws0" using lb(2) by auto
    with Nil show ?thesis by simp
  next
    case (Cons w ws)
    have ws: "sorted_wrt (<) ws" "\<forall>v \<in> set ws. w < v" using lb(1) Cons by simp_all
    show ?thesis
    proof (cases "w = a")
      case True
      have "set as \<subseteq> set ws \<longleftrightarrow> set as \<subseteq> set ws0" using lb(2) above Cons True by fastforce
      moreover have "a \<in> set ws0" using lb(2) Cons True by auto
      ultimately show ?thesis using Cons True Cons.IH [OF _ ws(1)] Cons.prems(1) by simp
    next
      case False
      have "a \<notin> set ws0"
      proof
        assume "a \<in> set ws0"
        then have "a \<in> set (w # ws)" using lb(2) Cons by auto
        moreover have "a \<le> w" using lb(2) Cons by auto
        ultimately show False using ws(2) False by auto
      qed
      with False Cons show ?thesis by simp
    qed
  qed
qed simp

lemma intersects_loop_iff:
  assumes "sorted_wrt (<) as" "sorted_wrt (<) ws0"
  shows "intersects_loop as ws0 \<longleftrightarrow> set as \<inter> set ws0 \<noteq> {}"
  using assms
proof (induction as arbitrary: ws0)
  case (Cons a as)
  note lb = lower_bound_append [OF Cons.prems(2), of a]
  have above: "\<forall>b \<in> set as. a < b" using Cons.prems(1) by simp
  show ?case
  proof (cases "lower_bound ws0 a")
    case Nil
    then have "set (a # as) \<inter> set ws0 = {}" using lb(2) above by force
    with Nil show ?thesis by simp
  next
    case (Cons w ws)
    have "a \<in> set ws0 \<longleftrightarrow> w = a"
    proof
      assume "a \<in> set ws0"
      then have "a \<in> set (w # ws)" using lb(2) Cons by auto
      moreover have "a \<le> w" using lb(2) Cons by auto
      ultimately show "w = a" using lb(1) Cons by force
    qed (use lb(2) Cons in auto)
    moreover have "set as \<inter> set (w # ws) = set as \<inter> set ws0" using lb(2) above Cons by force
    ultimately show ?thesis using Cons Cons.IH [of "w # ws"] lb(1) Cons.prems(1) by auto
  qed
qed simp

lemma sorted_hd_le: "sorted_wrt (<) (xs :: 'o :: linorder list) \<Longrightarrow> x \<in> set xs \<Longrightarrow> hd xs \<le> x"
  by (cases xs) auto

lemma sorted_le_last: "sorted_wrt (<) (xs :: 'o :: linorder list) \<Longrightarrow> x \<in> set xs \<Longrightarrow> x \<le> last xs"
  by (induction xs) (auto simp: less_imp_le)

text \<open>
  C24: the check of the authorizing accounts, with its comparison of the extents and its search from the last position
  found, accepts exactly when all accounts are on the white list or, without a white list, none is on the black list.
\<close>

theorem check_actor_list_exact:
  assumes "sorted_wrt (<) actors" "sorted_wrt (<) (actor_whitelist env)" "sorted_wrt (<) (actor_blacklist env)"
  shows "check_actor_list env actors =
    (if actors = [] then Inr ()
     else if actor_whitelist env \<noteq> []
     then (if set actors \<subseteq> set (actor_whitelist env) then Inr () else Inl (List_error Actor_whitelist_exception))
     else (if set actors \<inter> set (actor_blacklist env) = {} then Inr () else Inl (List_error Actor_blacklist_exception)))"
proof (cases "actors = []")
  case False
  then have ends: "hd actors \<in> set actors" "last actors \<in> set actors" by simp_all
  show ?thesis
  proof (cases "actor_whitelist env = []")
    case True
    let ?bl = "actor_blacklist env"
    have "hd actors \<le> last ?bl \<and> last actors \<ge> hd ?bl" if "x \<in> set actors" "x \<in> set ?bl" for x
      using sorted_hd_le [OF assms(1) that(1)] sorted_le_last [OF assms(1) that(1)]
        sorted_hd_le [OF assms(3) that(2)] sorted_le_last [OF assms(3) that(2)] by (meson order_trans)
    then have "(if hd actors \<le> last ?bl \<and> last actors \<ge> hd ?bl then intersects_loop actors ?bl else False) \<longleftrightarrow>
        set actors \<inter> set ?bl \<noteq> {}"
      using intersects_loop_iff [OF assms(1,3)] by auto
    with True False show ?thesis by (auto simp: check_actor_list_def Let_def eos_assert_def)
  next
    case wl: False
    let ?wl = "actor_whitelist env"
    have "hd actors \<ge> hd ?wl \<and> last actors \<le> last ?wl" if "set actors \<subseteq> set ?wl"
      using that ends sorted_hd_le [OF assms(2)] sorted_le_last [OF assms(2)] by blast
    then have "(if hd actors \<ge> hd ?wl \<and> last actors \<le> last ?wl then is_subset_loop actors ?wl else False) \<longleftrightarrow> set actors \<subseteq> set ?wl"
      using is_subset_loop_iff [OF assms(1,2)] by auto
    with wl False show ?thesis by (auto simp: check_actor_list_def Let_def eos_assert_def)
  qed
qed (simp add: check_actor_list_def)

section \<open>Reference blocks\<close>

text \<open>
  The summaries after \<open>n\<close> blocks, whose ids are \<open>ids 1\<close> to \<open>ids n\<close>. At first all summaries have the empty id
  \<open>ids 0\<close>.
\<close>

inductive summary_run :: "('k, 's) fc_lib \<Rightarrow> nat \<Rightarrow> (nat \<Rightarrow> digest_type) \<Rightarrow> (u16 \<rightharpoonup> digest_type) \<Rightarrow> bool" for fc where
  start: "summary_run fc 0 (\<lambda>_. empty_digest) (\<lambda>_. Some empty_digest)"
| block: "summary_run fc n ids s \<Longrightarrow> num_from_id fc i = of_nat (Suc n) \<Longrightarrow> create_block_summary fc i s = Inr s' \<Longrightarrow>
    summary_run fc (Suc n) (ids(Suc n := i)) s'"

lemma ucast_and_ffff: "(ucast (w AND 0xffff :: u32) :: u16) = ucast w"
proof -
  have m: "(0xffff :: u32) = mask 16" by (simp add: mask_eq_exp_minus_1)
  show ?thesis unfolding m by (intro bit_word_eqI) (auto simp: bit_simps)
qed

lemma ucast_of_nat_32_16: "(ucast (of_nat n :: u32) :: u16) = of_nat n"
  by (simp add: unsigned_of_nat word_of_nat_eq_iff)

lemma of_nat_65536: "(of_nat 65536 :: u16) = 0"
proof -
  have "(of_nat (2 ^ 16) :: u16) = 0" unfolding of_nat_power by simp
  then show ?thesis by simp
qed

lemma summary_run_latest:
  assumes "summary_run fc n ids s"
  shows "\<exists>k \<le> n. s c = Some (ids k) \<and> (\<forall>j. 0 < j \<longrightarrow> j \<le> n \<longrightarrow> of_nat j = c \<longrightarrow> j \<le> k) \<and> (0 < k \<longrightarrow> of_nat k = c) \<and> ids 0 = empty_digest"
  using assms
proof induction
  case start
  then show ?case by simp
next
  case (block n ids s i s')
  define sid where "sid = (ucast (num_from_id fc i AND 0xffff) :: u16)"
  have sid: "sid = of_nat (Suc n)"
    unfolding sid_def ucast_and_ffff block.hyps(2) by (rule ucast_of_nat_32_16)
  have s': "s' = s(sid \<mapsto> i)"
    using block.hyps(3) by (auto simp: create_block_summary_def Let_def sid_def split: option.splits)
  obtain k where k: "k \<le> n" "s c = Some (ids k)" "\<forall>j. 0 < j \<longrightarrow> j \<le> n \<longrightarrow> of_nat j = c \<longrightarrow> j \<le> k" "0 < k \<longrightarrow> of_nat k = c"
    "ids 0 = empty_digest"
    using block.IH by auto
  show ?case
  proof (cases "c = sid")
    case True
    then show ?thesis using s' sid k(5) by (intro exI [of _ "Suc n"]) auto
  next
    case False
    then have "of_nat (Suc n) \<noteq> c" using sid by metis
    then show ?thesis using s' False k by (intro exI [of _ k]) (auto simp: le_Suc_eq)
  qed
qed

text \<open>
  C25: a transaction that passes the check of its reference block refers to the latest block whose number has the lower 16
  bits it names, which is one of the last 65536 blocks of the chain, by the second word of the id of that block. The only
  exception is a reference to the empty id before block 65536.
\<close>

theorem tapos_refers_to_recent_block:
  assumes "summary_run fc n ids s" "validate_tapos fc s trx = Inr ()"
  shows "\<exists>k \<le> n. verify_reference_block fc (ids k) trx \<and>
    (if k = 0 then ids k = empty_digest \<and> n < 65536 else of_nat k = ref_block_num trx \<and> n < k + 65536)"
proof -
  from summary_run_latest [OF assms(1), of "ref_block_num trx"]
  obtain k where k: "k \<le> n" "s (ref_block_num trx) = Some (ids k)" "0 < k \<longrightarrow> of_nat k = ref_block_num trx" "ids 0 = empty_digest"
    and latest: "\<forall>j. 0 < j \<longrightarrow> j \<le> n \<longrightarrow> of_nat j = ref_block_num trx \<longrightarrow> j \<le> k"
    by (elim exE conjE) (rule that)
  have "verify_reference_block fc (ids k) trx"
    using assms(2) k(2) by (simp add: validate_tapos_def result_simps)
  moreover have "n < k + 65536" if "0 < k"
  proof (rule ccontr)
    assume "\<not> n < k + 65536"
    moreover have "of_nat (k + 65536) = (of_nat k :: u16)" unfolding of_nat_add of_nat_65536 by (rule add_0_right)
    moreover have "of_nat k = ref_block_num trx" using k(3) that by blast
    ultimately have "k + 65536 \<le> k" by (intro latest [rule_format]) auto
    then show False by arith
  qed
  moreover have "n < 65536" if "k = 0"
  proof (rule ccontr)
    assume n: "\<not> n < 65536"
    define j where "j = (if ref_block_num trx = 0 then 65536 else unat (ref_block_num trx))"
    have "unat (ref_block_num trx) < 65536" using unsigned_less [of "ref_block_num trx"] by simp
    then have "0 < j" "j \<le> n" using n by (simp_all add: j_def unat_gt_0)
    moreover have "of_nat j = ref_block_num trx" unfolding j_def using of_nat_65536 by simp
    ultimately have "j \<le> k" using latest by blast
    then show False using that \<open>0 < j\<close> by arith
  qed
  ultimately show ?thesis using k(1,3,4) by (intro exI [of _ k]) simp
qed

section \<open>Samples\<close>

definition sample_trx_env :: "nat trx_env" where
  "sample_trx_env = native_env.extend sample_native_env (trx_env.fields [3, 5, 9] [] [] [] [] [] 1000 False False True
     524288 12 500 20 100 150000 100 3600)"

theorem check_actor_list_exact_witness:
  "check_actor_list sample_trx_env [3, 9] = Inr () \<and> check_actor_list sample_trx_env [3, 6] = Inl (List_error Actor_whitelist_exception)"
  using check_actor_list_exact [of "[3, 9]" sample_trx_env] check_actor_list_exact [of "[3, 6]" sample_trx_env]
  by (simp add: sample_trx_env_def native_env.defs trx_env.defs)

definition sample_reference :: digest_type where
  "sample_reference = \<lparr>hash0 = 1, hash1 = 77, hash2 = 0, hash3 = 0\<rparr>"

definition sample_transaction :: transaction where
  "sample_transaction = \<lparr>expiration = 20, ref_block_num = 1, ref_block_prefix = 77, max_net_usage_words = 0, max_cpu_usage_ms = 0,
     context_free_actions = [], actions = [], transaction_extensions = []\<rparr>"

theorem tapos_refers_to_recent_block_witness:
  "\<exists>n ids s. summary_run sample_fc n ids s \<and> validate_tapos sample_fc s sample_transaction = Inr () \<and>
     (\<exists>k \<le> n. verify_reference_block sample_fc (ids k) sample_transaction)"
proof -
  define s where "s = (\<lambda>_. Some empty_digest)(1 :: u16 \<mapsto> sample_reference)"
  have "num_from_id sample_fc sample_reference = of_nat (Suc 0)"
    "create_block_summary sample_fc sample_reference (\<lambda>_. Some empty_digest) = Inr s"
    by (simp_all add: num_from_id_def sample_fc_def sample_reference_def create_block_summary_def Let_def s_def)
  from summary_run.block [OF summary_run.start this]
  have run: "summary_run sample_fc (Suc 0) ((\<lambda>_. empty_digest)(Suc 0 := sample_reference)) s" .
  have "validate_tapos sample_fc s sample_transaction = Inr ()"
    by (simp add: validate_tapos_def s_def sample_transaction_def verify_reference_block_def sample_fc_def sample_reference_def
        eos_assert_def)
  with run tapos_refers_to_recent_block [OF run this] show ?thesis by blast
qed

end
