(* ===== verification/Transaction_Context.thy ===== *)
theory Transaction_Context
  imports Transaction_Checks
begin

text \<open>
  The context in which a transaction is executed (\<^verbatim>\<open>transaction_context.cpp\<close>): the limits it starts with, the network and
  CPU usage it accumulates, the billing timer, and the billing at the end. Readings of the clock and of the flag of the
  timer are arguments. Times and durations are \<^verbatim>\<open>int64_t\<close> numbers of microseconds: they are integers here, and every sum and
  difference of the code is checked to be in the range of the type; one that is not is undefined, the value
  \<open>Undefined_behaviour\<close>. Executing the actions of the transaction is not part of this theory.
\<close>

section \<open>State\<close>

datatype exception_code = Block_cpu_code | Tx_cpu_code | Leeway_code | Deadline_code

record transaction_context =
  tc_start :: time_point
  tc_is_input :: bool
  tc_enforce_whiteblacklist :: bool
  tc_block_deadline :: time_point
  tc_leeway :: int
  tc_billed_cpu_time_us :: int
  tc_subjective_cpu_bill_us :: u32
  tc_explicit_billed_cpu_time :: bool
  tc_bill_to_accounts :: "account_name list"
  tc_is_initialized :: bool
  tc_net_limit :: u64
  tc_net_limit_due_to_block :: bool
  tc_net_limit_due_to_greylist :: bool
  tc_eager_net_limit :: u64
  tc_net_usage :: u64
  tc_explicit_net_usage :: bool
  tc_cpu_limit_due_to_greylist :: bool
  tc_max_transaction_time_subjective :: int
  tc_paused_time :: time_point
  tc_objective_duration_limit :: int
  tc_deadline :: time_point
  tc_deadline_exception_code :: exception_code
  tc_billing_timer_exception_code :: exception_code
  tc_pseudo_start :: time_point
  tc_billed_time :: int
  tc_timer :: "time_point option"
  tc_published :: time_point
  tc_elapsed :: int

text \<open>The parts of the database a transaction reads and changes.\<close>

record 'k trx_db =
  db_native :: "'k native_state"
  db_transactions :: "transaction_object list"
  db_summaries :: "u16 \<rightharpoonup> digest_type"

definition maximum_time :: int where
  "maximum_time = 2 ^ 63 - 1"

definition hours_of_a_year :: int where
  "hours_of_a_year = 24 * 7 * 52 * 3600 * 1000000"

definition new_transaction_context :: "time_point \<Rightarrow> transaction_context" where
  "new_transaction_context s =
     \<lparr>tc_start = s, tc_is_input = False, tc_enforce_whiteblacklist = True, tc_block_deadline = maximum_time, tc_leeway = 31000,
      tc_billed_cpu_time_us = 0, tc_subjective_cpu_bill_us = 0, tc_explicit_billed_cpu_time = False, tc_bill_to_accounts = [],
      tc_is_initialized = False, tc_net_limit = 0, tc_net_limit_due_to_block = True, tc_net_limit_due_to_greylist = False,
      tc_eager_net_limit = 0, tc_net_usage = 0, tc_explicit_net_usage = False, tc_cpu_limit_due_to_greylist = False,
      tc_max_transaction_time_subjective = 0, tc_paused_time = 0, tc_objective_duration_limit = 0, tc_deadline = maximum_time,
      tc_deadline_exception_code = Block_cpu_code, tc_billing_timer_exception_code = Block_cpu_code, tc_pseudo_start = s,
      tc_billed_time = 0, tc_timer = None, tc_published = 0, tc_elapsed = 0\<rparr>"

section \<open>Usage\<close>

definition trx_check_net_usage :: "transaction_context \<Rightarrow> (chain_exception, unit) result" where
  "trx_check_net_usage tc =
     (if tc_net_usage tc > tc_eager_net_limit tc then
        if tc_net_limit_due_to_block tc then Inl (Trx_error Block_net_usage_exceeded)
        else if tc_net_limit_due_to_greylist tc then Inl (Trx_error Greylist_net_usage_exceeded)
        else Inl Tx_net_usage_exceeded
      else Inr ())"

definition add_net_usage :: "u64 \<Rightarrow> transaction_context \<Rightarrow> (chain_exception, transaction_context) result" where
  "add_net_usage u tc =
     (if tc_explicit_net_usage tc then Inr tc
      else let tc = tc\<lparr>tc_net_usage := tc_net_usage tc + u\<rparr> in rbind (trx_check_net_usage tc) (\<lambda>_. Inr tc))"

definition round_up_net_usage :: "transaction_context \<Rightarrow> (chain_exception, transaction_context) result" where
  "round_up_net_usage tc =
     (if tc_explicit_net_usage tc then Inr tc
      else let tc = tc\<lparr>tc_net_usage := ((tc_net_usage tc + 7) div 8) * 8\<rparr> in rbind (trx_check_net_usage tc) (\<lambda>_. Inr tc))"

definition checktime :: "bool \<Rightarrow> transaction_context \<Rightarrow> (chain_exception, unit) result" where
  "checktime expired tc =
     (if \<not> expired then Inr ()
      else if tc_explicit_billed_cpu_time tc \<or> tc_deadline_exception_code tc = Deadline_code then Inl (Trx_error Deadline_exception)
      else case tc_deadline_exception_code tc of
        Block_cpu_code \<Rightarrow> Inl (Trx_error Block_cpu_usage_exceeded)
      | Tx_cpu_code \<Rightarrow> if tc_cpu_limit_due_to_greylist tc then Inl (Trx_error Greylist_cpu_usage_exceeded) else Inl Tx_cpu_usage_exceeded
      | Leeway_code \<Rightarrow> Inl (Trx_error Leeway_deadline_exception)
      | Deadline_code \<Rightarrow> Inl Transaction_exception)"

definition pause_billing_timer :: "time_point \<Rightarrow> transaction_context \<Rightarrow> (chain_exception, transaction_context) result" where
  "pause_billing_timer now tc =
     (if tc_explicit_billed_cpu_time tc \<or> tc_pseudo_start tc = 0 then Inr tc
      else
        rbind (to_int64 (now - tc_pseudo_start tc)) (\<lambda>billed_time.
        Inr (tc\<lparr>tc_paused_time := now, tc_billed_time := billed_time, tc_pseudo_start := 0, tc_timer := None\<rparr>)))"

definition resume_billing_timer :: "('k, 'x) trx_env_scheme \<Rightarrow> time_point \<Rightarrow> transaction_context \<Rightarrow>
    (chain_exception, transaction_context) result" where
  "resume_billing_timer env now tc =
     (if tc_explicit_billed_cpu_time tc \<or> tc_pseudo_start tc \<noteq> 0 then Inr tc
      else
        rbind (to_int64 (now - tc_paused_time tc)) (\<lambda>paused.
        rbind (to_int64 (now - tc_billed_time tc)) (\<lambda>pseudo_start.
        rbind (to_int64 (tc_deadline tc + paused)) (\<lambda>deadline.
        let tc = tc\<lparr>tc_pseudo_start := pseudo_start, tc_deadline := deadline\<rparr>;
            tc = (if tc_block_deadline tc < tc_deadline tc \<and> \<not> override_chain_cpu_limits env
                  then tc\<lparr>tc_deadline_exception_code := Deadline_code, tc_deadline := tc_block_deadline tc\<rparr> else tc)
        in Inr (tc\<lparr>tc_timer := Some (tc_deadline tc)\<rparr>)))))"

definition update_billed_cpu_time :: "('k, 'x) trx_env_scheme \<Rightarrow> time_point \<Rightarrow> transaction_context \<Rightarrow>
    (chain_exception, transaction_context) result" where
  "update_billed_cpu_time env now tc =
     (if tc_explicit_billed_cpu_time tc then Inr tc
      else
        rbind (to_int64 (now - tc_pseudo_start tc)) (\<lambda>us.
        Inr (tc\<lparr>tc_billed_cpu_time_us := max us (uint (cfg_min_transaction_cpu_usage env))\<rparr>)))"

section \<open>Limits\<close>

definition validate_account_cpu_usage :: "('k, 'x) trx_env_scheme \<Rightarrow> int \<Rightarrow> int \<Rightarrow> transaction_context \<Rightarrow> (chain_exception, unit) result" where
  "validate_account_cpu_usage env billed_us account_cpu_limit tc =
     (if billed_us > 0 \<and> \<not> skip_trx_checks env \<and> \<not> override_chain_cpu_limits env then
        let cpu_limited_by_account = (account_cpu_limit \<le> tc_objective_duration_limit tc) in
        if \<not> cpu_limited_by_account \<and> tc_billing_timer_exception_code tc = Block_cpu_code
        then eos_assert (billed_us \<le> tc_objective_duration_limit tc) (Trx_error Block_cpu_usage_exceeded)
        else if tc_cpu_limit_due_to_greylist tc \<and> cpu_limited_by_account
        then eos_assert (billed_us \<le> account_cpu_limit) (Trx_error Greylist_cpu_usage_exceeded)
        else
          let cpu_limit = (if cpu_limited_by_account then account_cpu_limit else tc_objective_duration_limit tc) in
          eos_assert (billed_us \<le> cpu_limit) Tx_cpu_usage_exceeded
      else Inr ())"

definition validate_account_cpu_usage_estimate :: "('k, 'x) trx_env_scheme \<Rightarrow> int \<Rightarrow> int \<Rightarrow> transaction_context \<Rightarrow> (chain_exception, unit) result" where
  "validate_account_cpu_usage_estimate env prev_billed_us account_cpu_limit tc =
     (if prev_billed_us \<ge> 0 \<and> \<not> skip_trx_checks env then
        let cpu_limited_by_account = (account_cpu_limit \<le> tc_objective_duration_limit tc) in
        if \<not> cpu_limited_by_account \<and> tc_billing_timer_exception_code tc = Block_cpu_code
        then eos_assert (prev_billed_us < tc_objective_duration_limit tc) (Trx_error Block_cpu_usage_exceeded)
        else if tc_cpu_limit_due_to_greylist tc \<and> cpu_limited_by_account
        then eos_assert (prev_billed_us < account_cpu_limit) (Trx_error Greylist_cpu_usage_exceeded)
        else
          let cpu_limit = (if cpu_limited_by_account then account_cpu_limit else tc_objective_duration_limit tc) in
          eos_assert (prev_billed_us < cpu_limit) Tx_cpu_usage_exceeded
      else Inr ())"

definition validate_cpu_usage_to_bill :: "('k, 'x) trx_env_scheme \<Rightarrow> int \<Rightarrow> int \<Rightarrow> bool \<Rightarrow> transaction_context \<Rightarrow> (chain_exception, unit) result" where
  "validate_cpu_usage_to_bill env billed_us account_cpu_limit check_minimum tc =
     (if \<not> skip_trx_checks env then
        rbind (if check_minimum then eos_assert (billed_us \<ge> uint (cfg_min_transaction_cpu_usage env)) Transaction_exception
               else Inr ()) (\<lambda>_.
        validate_account_cpu_usage env billed_us account_cpu_limit tc)
      else Inr ())"

text \<open>What all billed accounts can pay, and whether a grey list lowered it.\<close>

record bandwidth =
  account_net_limit :: int
  account_cpu_limit :: int
  greylisted_net :: bool
  greylisted_cpu :: bool

definition account_greylist_limit :: "('k, 'x) trx_env_scheme \<Rightarrow> bool \<Rightarrow> account_name \<Rightarrow> u32" where
  "account_greylist_limit env force_elastic_limits a =
     (if \<not> force_elastic_limits \<and> is_producing_block env
      then (if a \<in> set (resource_greylist env) then 1 else greylist_limit env)
      else maximum_elastic_resource_multiplier)"

definition account_bandwidth :: "('k, 'x) trx_env_scheme \<Rightarrow> bool \<Rightarrow> resource_db \<Rightarrow> account_name \<Rightarrow> bandwidth \<Rightarrow> (chain_exception, bandwidth) result" where
  "account_bandwidth env force_elastic_limits rl a b =
     rbind (get_account_net_limit a (account_greylist_limit env force_elastic_limits a) rl) (\<lambda>(net_limit, net_was_greylisted).
     let b = (if sint net_limit \<ge> 0
              then b\<lparr>account_net_limit := min (account_net_limit b) (sint net_limit),
                     greylisted_net := greylisted_net b \<or> net_was_greylisted\<rparr> else b) in
     rbind (get_account_cpu_limit a (account_greylist_limit env force_elastic_limits a) rl) (\<lambda>(cpu_limit, cpu_was_greylisted).
     Inr (if sint cpu_limit \<ge> 0
          then b\<lparr>account_cpu_limit := min (account_cpu_limit b) (sint cpu_limit),
                 greylisted_cpu := greylisted_cpu b \<or> cpu_was_greylisted\<rparr> else b)))"

definition large_number_no_overflow :: int where
  "large_number_no_overflow = (2 ^ 63 - 1) div 2"

definition max_bandwidth_billed_accounts_can_pay :: "('k, 'x) trx_env_scheme \<Rightarrow> bool \<Rightarrow> resource_db \<Rightarrow> account_name list \<Rightarrow> (chain_exception, bandwidth) result" where
  "max_bandwidth_billed_accounts_can_pay env force_elastic_limits rl bill_to_accounts =
     rbind (for_each (account_bandwidth env force_elastic_limits rl) bill_to_accounts
              \<lparr>account_net_limit = large_number_no_overflow, account_cpu_limit = large_number_no_overflow,
               greylisted_net = False, greylisted_cpu = False\<rparr>) (\<lambda>b.
     rbind (eos_assert ((\<not> force_elastic_limits \<and> is_producing_block env) \<or> (\<not> greylisted_cpu b \<and> \<not> greylisted_net b))
              Transaction_exception) (\<lambda>_.
     Inr b))"

section \<open>Initialization\<close>

text \<open>Lowering the limits of network usage and of CPU time to a given one.\<close>

definition limit_net :: "u64 \<Rightarrow> transaction_context \<Rightarrow> transaction_context" where
  "limit_net l tc = (if l \<le> tc_net_limit tc then tc\<lparr>tc_net_limit := l, tc_net_limit_due_to_block := False\<rparr> else tc)"

definition limit_cpu :: "int \<Rightarrow> transaction_context \<Rightarrow> (chain_exception, transaction_context) result" where
  "limit_cpu l tc =
     (if l \<le> tc_objective_duration_limit tc
      then
        rbind (to_int64 (tc_start tc + l)) (\<lambda>deadline.
        Inr (tc\<lparr>tc_objective_duration_limit := l, tc_billing_timer_exception_code := Tx_cpu_code, tc_deadline := deadline\<rparr>))
      else Inr tc)"

text \<open>The limits that do not depend on the billed accounts.\<close>

definition init_block_limits :: "resource_db \<Rightarrow> transaction_context \<Rightarrow> (chain_exception, transaction_context) result" where
  "init_block_limits rl tc =
     rbind (if tc_block_deadline tc = maximum_time then to_int64 (tc_start tc + hours_of_a_year)
            else Inr (tc_block_deadline tc)) (\<lambda>block_deadline.
     let objective = sint (get_block_cpu_limit rl) in
     rbind (to_int64 (tc_start tc + objective)) (\<lambda>deadline.
     Inr (tc\<lparr>tc_block_deadline := block_deadline, tc_net_limit := get_block_net_limit rl,
       tc_objective_duration_limit := objective, tc_deadline := deadline\<rparr>)))"

definition init_objective_limits :: "('k, 'x) trx_env_scheme \<Rightarrow> resource_db \<Rightarrow> transaction \<Rightarrow> transaction_context \<Rightarrow>
    (chain_exception, transaction_context) result" where
  "init_objective_limits env rl trx tc =
     rbind (init_block_limits rl tc) (\<lambda>tc.
     rbind (limit_cpu (uint (cfg_max_transaction_cpu_usage env)) (limit_net (ucast (cfg_max_transaction_net_usage env)) tc)) (\<lambda>tc.
     let trx_specified_net_usage_limit = ucast (max_net_usage_words trx) * 8;
         tc = (if trx_specified_net_usage_limit > 0 then limit_net trx_specified_net_usage_limit tc else tc)
     in if max_cpu_usage_ms trx > 0 then limit_cpu (uint (max_cpu_usage_ms trx) * 1000) tc else Inr tc))"

definition billed_accounts :: "('k, 'x) trx_env_scheme \<Rightarrow> transaction \<Rightarrow> account_name list \<Rightarrow> account_name list" where
  "billed_accounts env trx as =
     (if only_bill_first_authorizer env then set_insert (first_authorizer trx) as
      else fold set_insert (concat (map (\<lambda>a. map actor (act_authorization a)) (actions trx))) as)"

definition note_greylist :: "bandwidth \<Rightarrow> transaction_context \<Rightarrow> transaction_context" where
  "note_greylist b tc =
     tc\<lparr>tc_net_limit_due_to_greylist := tc_net_limit_due_to_greylist tc \<or> greylisted_net b,
       tc_cpu_limit_due_to_greylist := tc_cpu_limit_due_to_greylist tc \<or> greylisted_cpu b\<rparr>"

text \<open>The network limit that is checked on the way.\<close>

definition init_eager_net_limit :: "('k, 'x) trx_env_scheme \<Rightarrow> bandwidth \<Rightarrow> transaction_context \<Rightarrow>
    (chain_exception, transaction_context) result" where
  "init_eager_net_limit env b tc =
     rbind (to_int64 (account_net_limit b + uint (cfg_net_usage_leeway env))) (\<lambda>l.
     let new_eager_net_limit = min (tc_net_limit tc) (of_int l) in
     Inr (if new_eager_net_limit < tc_net_limit tc
          then tc\<lparr>tc_eager_net_limit := new_eager_net_limit, tc_net_limit_due_to_block := False\<rparr>
          else tc\<lparr>tc_eager_net_limit := tc_net_limit tc\<rparr>))"

text \<open>The deadline that the limits of the accounts, the configured time of a transaction and the block impose.\<close>

definition deadline_of_accounts :: "bandwidth \<Rightarrow> transaction_context \<Rightarrow> (chain_exception, transaction_context) result" where
  "deadline_of_accounts b tc =
     rbind (to_int64 (account_cpu_limit b + tc_leeway tc)) (\<lambda>duration.
     rbind (to_int64 (tc_deadline tc - tc_start tc)) (\<lambda>delta.
     if duration \<le> delta
     then
       rbind (to_int64 (tc_start tc + account_cpu_limit b)) (\<lambda>t.
       rbind (to_int64 (t + tc_leeway tc)) (\<lambda>deadline.
       Inr (tc\<lparr>tc_deadline := deadline, tc_billing_timer_exception_code := Leeway_code\<rparr>)))
     else Inr tc))"

definition deadline_of_subjective :: "('k, 'x) trx_env_scheme \<Rightarrow> transaction_context \<Rightarrow> (chain_exception, transaction_context) result" where
  "deadline_of_subjective env tc =
     rbind (if override_chain_cpu_limits env then Inr True
            else if tc_max_transaction_time_subjective tc = maximum_time then Inr False
            else rbind (to_int64 (tc_start tc + tc_max_transaction_time_subjective tc)) (\<lambda>t. Inr (t \<le> tc_deadline tc))) (\<lambda>limited.
     if limited
     then
       let t = (if tc_max_transaction_time_subjective tc = maximum_time then hours_of_a_year
                else tc_max_transaction_time_subjective tc) in
       rbind (to_int64 (tc_start tc + t)) (\<lambda>deadline.
       Inr (tc\<lparr>tc_max_transaction_time_subjective := t, tc_deadline := deadline, tc_billing_timer_exception_code := Tx_cpu_code\<rparr>))
     else Inr tc)"

definition deadline_of_block :: "('k, 'x) trx_env_scheme \<Rightarrow> transaction_context \<Rightarrow> transaction_context" where
  "deadline_of_block env tc =
     (if tc_block_deadline tc < tc_deadline tc \<and> \<not> override_chain_cpu_limits env
      then tc\<lparr>tc_deadline := tc_block_deadline tc, tc_billing_timer_exception_code := Deadline_code\<rparr> else tc)"

definition choose_exception_code :: "transaction_context \<Rightarrow> transaction_context" where
  "choose_exception_code tc =
     (if tc_explicit_billed_cpu_time tc
      then tc\<lparr>tc_deadline := tc_block_deadline tc, tc_deadline_exception_code := Deadline_code\<rparr>
      else tc\<lparr>tc_deadline_exception_code := tc_billing_timer_exception_code tc\<rparr>)"

definition init_deadline :: "('k, 'x) trx_env_scheme \<Rightarrow> bandwidth \<Rightarrow> transaction_context \<Rightarrow> (chain_exception, transaction_context) result" where
  "init_deadline env b tc =
     rbind (init_eager_net_limit env b (note_greylist b tc)) (\<lambda>tc.
     rbind (deadline_of_accounts b tc) (\<lambda>tc.
     rbind (deadline_of_subjective env tc) (\<lambda>tc.
     Inr (choose_exception_code (deadline_of_block env tc)))))"

text \<open>The limit the estimate is compared with is computed with the unsigned arithmetic of \<^verbatim>\<open>EOS_PERCENT\<close>.\<close>

definition estimate_limit :: "bandwidth \<Rightarrow> transaction_context \<Rightarrow> (chain_exception, int) result" where
  "estimate_limit b tc =
     rbind (to_int64 (account_cpu_limit b - uint (tc_subjective_cpu_bill_us tc))) (\<lambda>x.
     rbind (to_int64 (x + tc_leeway tc)) (\<lambda>l.
     let v = of_int l :: i64;
         v = (if 0 < sint v then v - (v * 1000) div 10000 else v)
     in Inr (if sint v < 0 then 0 else sint v)))"

text \<open>
  The limit is rounded down to a multiple of the word size, the usage known at the start is added and the timer started.
\<close>

definition init_net_usage :: "u64 \<Rightarrow> transaction_context \<Rightarrow> (chain_exception, transaction_context) result" where
  "init_net_usage initial_net_usage tc =
     (let tc = tc\<lparr>tc_eager_net_limit := (tc_eager_net_limit tc div 8) * 8\<rparr> in
      if initial_net_usage > 0 then add_net_usage initial_net_usage tc else Inr tc)"

definition init_timer :: "('k, 'x) trx_env_scheme \<Rightarrow> bool \<Rightarrow> transaction_context \<Rightarrow> (chain_exception, transaction_context) result" where
  "init_timer env expired tc =
     (if skip_trx_checks env then Inr (tc\<lparr>tc_timer := Some maximum_time\<rparr>)
      else let tc = tc\<lparr>tc_timer := Some (tc_deadline tc)\<rparr> in rbind (checktime expired tc) (\<lambda>_. Inr tc))"

definition trx_init :: "('k, 'x) trx_env_scheme \<Rightarrow> transaction \<Rightarrow> u64 \<Rightarrow> bool \<Rightarrow> transaction_context \<Rightarrow> resource_db \<Rightarrow>
    (chain_exception, transaction_context \<times> resource_db) result" where
  "trx_init env trx initial_net_usage expired tc rl =
     rbind (eos_assert (\<not> tc_is_initialized tc) Transaction_exception) (\<lambda>_.
     rbind (init_objective_limits env rl trx tc) (\<lambda>tc.
     rbind (if tc_explicit_billed_cpu_time tc
            then validate_cpu_usage_to_bill env (tc_billed_cpu_time_us tc) (2 ^ 63 - 1) False tc else Inr ()) (\<lambda>_.
     let tc = tc\<lparr>tc_bill_to_accounts := billed_accounts env trx (tc_bill_to_accounts tc)\<rparr> in
     rbind (update_account_usage (tc_bill_to_accounts tc) (timestamp_of_time_point (pending_block_time env)) rl) (\<lambda>rl.
     rbind (max_bandwidth_billed_accounts_can_pay env False rl (tc_bill_to_accounts tc)) (\<lambda>b.
     rbind (init_deadline env b tc) (\<lambda>tc.
     rbind (if \<not> tc_explicit_billed_cpu_time tc
            then rbind (estimate_limit b tc) (\<lambda>l. validate_account_cpu_usage_estimate env (tc_billed_cpu_time_us tc) l tc)
            else Inr ()) (\<lambda>_.
     rbind (init_net_usage initial_net_usage tc) (\<lambda>tc.
     rbind (init_timer env expired tc) (\<lambda>tc.
     Inr (tc\<lparr>tc_is_initialized := True\<rparr>, rl))))))))))"

definition disallow_transaction_extensions :: "('k, 'x) trx_env_scheme \<Rightarrow> (chain_exception, unit) result" where
  "disallow_transaction_extensions env =
     (if is_producing_block env then Inl (Trx_error Subjective_block_production_exception)
      else Inl (Trx_error Disallowed_transaction_extensions_bad_block_exception))"

definition init_for_implicit_trx :: "('k, 'x) trx_env_scheme \<Rightarrow> transaction \<Rightarrow> u64 \<Rightarrow> bool \<Rightarrow> transaction_context \<Rightarrow> resource_db \<Rightarrow>
    (chain_exception, transaction_context \<times> resource_db) result" where
  "init_for_implicit_trx env trx initial_net_usage expired tc rl =
     rbind (if transaction_extensions trx \<noteq> [] then disallow_transaction_extensions env else Inr ()) (\<lambda>_.
     trx_init env trx initial_net_usage expired (tc\<lparr>tc_published := pending_block_time env\<rparr>) rl)"

definition init_for_input_trx_common :: "('k, 's) fc_lib \<Rightarrow> ('k, 'x) trx_env_scheme \<Rightarrow> digest_type \<Rightarrow> transaction \<Rightarrow> u64 \<Rightarrow> bool \<Rightarrow> bool \<Rightarrow>
    transaction_context \<Rightarrow> 'k trx_db \<Rightarrow> (chain_exception, transaction_context \<times> 'k trx_db) result" where
  "init_for_input_trx_common fc env trx_id trx initial_net_usage skip_recording expired tc db =
     (let tc = tc\<lparr>tc_published := pending_block_time env, tc_is_input := True\<rparr> in
      rbind (if skip_trx_checks env then Inr ()
             else
               rbind (validate_expiration env trx) (\<lambda>_.
               rbind (validate_tapos fc (db_summaries db) trx) (\<lambda>_.
               validate_referenced_accounts env (db_native db) trx (tc_enforce_whiteblacklist tc \<and> is_producing_block env)))) (\<lambda>_.
      rbind (trx_init env trx initial_net_usage expired tc (ns_resources (db_native db))) (\<lambda>(tc, rl).
      let db = db\<lparr>db_native := (db_native db)\<lparr>ns_resources := rl\<rparr>\<rparr> in
      rbind (if skip_recording then Inr (db_transactions db)
             else record_transaction trx_id (expiration trx) (db_transactions db)) (\<lambda>rows.
      Inr (tc, db\<lparr>db_transactions := rows\<rparr>)))))"

text \<open>The size of data that may be pruned is discounted, rounding up.\<close>

definition discounted_size :: "('k, 'x) trx_env_scheme \<Rightarrow> u64 \<Rightarrow> u64" where
  "discounted_size env n =
     (if cfg_context_free_discount_net_usage_den env > 0 \<and>
         cfg_context_free_discount_net_usage_num env < cfg_context_free_discount_net_usage_den env
      then (n * ucast (cfg_context_free_discount_net_usage_num env) + ucast (cfg_context_free_discount_net_usage_den env) - 1)
             div ucast (cfg_context_free_discount_net_usage_den env)
      else n)"

definition init_for_input_trx :: "('k, 's) fc_lib \<Rightarrow> ('k, 'x) trx_env_scheme \<Rightarrow> digest_type \<Rightarrow> transaction \<Rightarrow> u64 \<Rightarrow> u64 \<Rightarrow> bool \<Rightarrow> bool \<Rightarrow>
    transaction_context \<Rightarrow> 'k trx_db \<Rightarrow> (chain_exception, transaction_context \<times> 'k trx_db) result" where
  "init_for_input_trx fc env trx_id trx packed_trx_unprunable_size packed_trx_prunable_size skip_recording expired tc db =
     rbind (if transaction_extensions trx \<noteq> [] then disallow_transaction_extensions env else Inr ()) (\<lambda>_.
     let initial_net_usage = ucast (cfg_base_per_transaction_net_usage env) + packed_trx_unprunable_size +
           discounted_size env packed_trx_prunable_size in
     init_for_input_trx_common fc env trx_id trx initial_net_usage skip_recording expired tc db)"

definition init_for_input_trx_with_explicit_net :: "('k, 's) fc_lib \<Rightarrow> ('k, 'x) trx_env_scheme \<Rightarrow> digest_type \<Rightarrow> transaction \<Rightarrow> u32 \<Rightarrow> bool \<Rightarrow>
    bool \<Rightarrow> transaction_context \<Rightarrow> 'k trx_db \<Rightarrow> (chain_exception, transaction_context \<times> 'k trx_db) result" where
  "init_for_input_trx_with_explicit_net fc env trx_id trx explicit_net_usage_words skip_recording expired tc db =
     rbind (if transaction_extensions trx \<noteq> [] then disallow_transaction_extensions env else Inr ()) (\<lambda>_.
     let tc = tc\<lparr>tc_explicit_net_usage := True, tc_net_usage := ucast explicit_net_usage_words * 8\<rparr> in
     init_for_input_trx_common fc env trx_id trx 0 skip_recording expired tc db)"

section \<open>Finalization\<close>

definition update_usage_of_authorizers :: "('k, 'x) trx_env_scheme \<Rightarrow> transaction \<Rightarrow> 'k auth_db \<Rightarrow> (chain_exception, 'k auth_db) result" where
  "update_usage_of_authorizers env trx =
     for_each (\<lambda>act. for_each (\<lambda>auth am.
       rbind (get_permission am auth) (\<lambda>p. update_permission_usage (auth_env.truncate env) p am)) (act_authorization act)) (actions trx)"

definition lower_limits :: "bandwidth \<Rightarrow> transaction_context \<Rightarrow> transaction_context" where
  "lower_limits b tc =
     (let tc = limit_net (of_int (account_net_limit b)) (note_greylist b tc);
          tc = (if account_cpu_limit b \<le> tc_objective_duration_limit tc
                then tc\<lparr>tc_objective_duration_limit := account_cpu_limit b, tc_billing_timer_exception_code := Tx_cpu_code\<rparr> else tc)
      in tc\<lparr>tc_eager_net_limit := tc_net_limit tc\<rparr>)"

definition finalize :: "('k, 'x) trx_env_scheme \<Rightarrow> transaction \<Rightarrow> time_point \<Rightarrow> transaction_context \<Rightarrow> 'k native_state \<Rightarrow>
    (chain_exception, transaction_context \<times> 'k native_state) result" where
  "finalize env trx now tc s =
     rbind (eos_assert (tc_is_initialized tc) Transaction_exception) (\<lambda>_.
     rbind (if tc_is_input tc then update_usage_of_authorizers env trx (ns_auth s) else Inr (ns_auth s)) (\<lambda>am.
     rbind (for_each (\<lambda>a _. verify_account_ram_usage a (ns_resources s)) (sorted_list_of_set (validate_ram_usage s)) ()) (\<lambda>_.
     rbind (max_bandwidth_billed_accounts_can_pay env False (ns_resources s) (tc_bill_to_accounts tc)) (\<lambda>b.
     rbind (round_up_net_usage (lower_limits b tc)) (\<lambda>tc.
     rbind (trx_check_net_usage tc) (\<lambda>_.
     rbind (to_int64 (now - tc_start tc)) (\<lambda>elapsed.
     rbind (update_billed_cpu_time env now (tc\<lparr>tc_elapsed := elapsed\<rparr>)) (\<lambda>tc.
     rbind (validate_cpu_usage_to_bill env (tc_billed_cpu_time_us tc) (account_cpu_limit b) True tc) (\<lambda>_.
     rbind (add_transaction_usage (tc_bill_to_accounts tc) (of_int (tc_billed_cpu_time_us tc)) (tc_net_usage tc)
              (timestamp_of_time_point (pending_block_time env)) (override_chain_cpu_limits env) (ns_resources s)) (\<lambda>rl.
     Inr (tc, s\<lparr>ns_auth := am, ns_resources := rl\<rparr>)))))))))))"

section \<open>The billing timer\<close>

text \<open>Pauses of the billing timer, each with the readings of the clock at its start and at its end.\<close>

fun run_pauses :: "('k, 'x) trx_env_scheme \<Rightarrow> (time_point \<times> time_point) list \<Rightarrow> transaction_context \<Rightarrow>
    (chain_exception, transaction_context) result" where
  "run_pauses env [] tc = Inr tc"
| "run_pauses env ((p, r) # ps) tc =
     rbind (pause_billing_timer p tc) (\<lambda>tc. rbind (resume_billing_timer env r tc) (run_pauses env ps))"

definition readings :: "(time_point \<times> time_point) list \<Rightarrow> time_point list" where
  "readings ps = concat (map (\<lambda>(p, r). [p, r]) ps)"

definition paused_total :: "(time_point \<times> time_point) list \<Rightarrow> int" where
  "paused_total ps = (\<Sum>(p, r)\<leftarrow>ps. r - p)"

lemma pause_simps [simp]:
  "readings [] = []" "readings ((p, r) # ps) = p # r # readings ps"
  "paused_total [] = 0" "paused_total ((p, r) # ps) = (r - p) + paused_total ps"
  by (simp_all add: readings_def paused_total_def)

lemma paused_total_bounds: "sorted (x # readings ps @ [now]) \<Longrightarrow> 0 \<le> paused_total ps \<and> paused_total ps \<le> now - x"
proof (induction ps arbitrary: x)
  case (Cons pr ps)
  obtain p r where pr: "pr = (p, r)" by fastforce
  have "sorted (r # readings ps @ [now])" "x \<le> p" "p \<le> r" using Cons.prems by (auto simp: pr)
  with Cons.IH [of r] show ?case by (simp add: pr)
qed simp

text \<open>A pause during which the clock does not go back and the deadline stays in range.\<close>

lemma pause_resume:
  assumes "\<not> tc_explicit_billed_cpu_time tc" "0 < tc_pseudo_start tc" "tc_pseudo_start tc \<le> p" "p \<le> r" "r < 2 ^ 62"
    and "- (2 ^ 63) \<le> tc_deadline tc" "tc_deadline tc + (r - p) < 2 ^ 63"
  obtains tc1 tc' where "pause_billing_timer p tc = Inr tc1" "resume_billing_timer env r tc1 = Inr tc'"
    "tc_pseudo_start tc' = tc_pseudo_start tc + (r - p)" "\<not> tc_explicit_billed_cpu_time tc'"
    "tc_block_deadline tc' = tc_block_deadline tc"
    "tc_deadline tc' = (if override_chain_cpu_limits env then tc_deadline tc + (r - p)
       else min (tc_deadline tc + (r - p)) (tc_block_deadline tc))"
proof -
  have "pause_billing_timer p tc =
      Inr (tc\<lparr>tc_paused_time := p, tc_billed_time := p - tc_pseudo_start tc, tc_pseudo_start := 0, tc_timer := None\<rparr>)"
    using assms by (simp add: pause_billing_timer_def to_int64_def)
  moreover obtain tc' where "resume_billing_timer env r
      (tc\<lparr>tc_paused_time := p, tc_billed_time := p - tc_pseudo_start tc, tc_pseudo_start := 0, tc_timer := None\<rparr>) = Inr tc'"
    "tc_pseudo_start tc' = tc_pseudo_start tc + (r - p)" "\<not> tc_explicit_billed_cpu_time tc'"
    "tc_block_deadline tc' = tc_block_deadline tc"
    "tc_deadline tc' = (if override_chain_cpu_limits env then tc_deadline tc + (r - p)
       else min (tc_deadline tc + (r - p)) (tc_block_deadline tc))"
    using assms by (simp add: resume_billing_timer_def to_int64_def Let_def)
  ultimately show ?thesis by (rule that)
qed

lemma run_pauses_timer:
  assumes "\<not> tc_explicit_billed_cpu_time tc" "0 < tc_pseudo_start tc" "tc_pseudo_start tc \<le> x"
    and "sorted (x # readings ps @ [now])" "now < 2 ^ 62"
    and "- (2 ^ 63) \<le> tc_deadline tc" "- (2 ^ 63) \<le> tc_block_deadline tc" "tc_deadline tc + (now - x) < 2 ^ 63"
    and "override_chain_cpu_limits env \<or> tc_deadline tc \<le> tc_block_deadline tc"
  shows "\<exists>tc'. run_pauses env ps tc = Inr tc' \<and> \<not> tc_explicit_billed_cpu_time tc' \<and>
    tc_pseudo_start tc' = tc_pseudo_start tc + paused_total ps \<and>
    tc_deadline tc' = (if override_chain_cpu_limits env then tc_deadline tc + paused_total ps
       else min (tc_deadline tc + paused_total ps) (tc_block_deadline tc))"
  using assms
proof (induction ps arbitrary: tc x)
  case (Cons pr ps)
  obtain p r where pr: "pr = (p, r)" by fastforce
  have order: "x \<le> p" "p \<le> r" "r \<le> now" and rest: "sorted (r # readings ps @ [now])"
    using Cons.prems(4) by (auto simp: pr)
  have "tc_pseudo_start tc \<le> p" "r < 2 ^ 62" "tc_deadline tc + (r - p) < 2 ^ 63"
    using order Cons.prems(3,5,8) by simp_all
  then obtain tc1 tc' where step: "pause_billing_timer p tc = Inr tc1" "resume_billing_timer env r tc1 = Inr tc'"
    and tc': "tc_pseudo_start tc' = tc_pseudo_start tc + (r - p)" "\<not> tc_explicit_billed_cpu_time tc'"
    "tc_block_deadline tc' = tc_block_deadline tc"
    "tc_deadline tc' = (if override_chain_cpu_limits env then tc_deadline tc + (r - p)
       else min (tc_deadline tc + (r - p)) (tc_block_deadline tc))"
    by (rule pause_resume [OF Cons.prems(1,2) _ order(2) _ Cons.prems(6)])
  note IH = Cons.IH [of tc' r, OF tc'(2) _ _ rest Cons.prems(5)]
  have "\<exists>tc2. run_pauses env ps tc' = Inr tc2 \<and> \<not> tc_explicit_billed_cpu_time tc2 \<and>
    tc_pseudo_start tc2 = tc_pseudo_start tc' + paused_total ps \<and>
    tc_deadline tc2 = (if override_chain_cpu_limits env then tc_deadline tc' + paused_total ps
       else min (tc_deadline tc' + paused_total ps) (tc_block_deadline tc'))"
    using Cons.prems tc' order by (intro IH) (auto simp: min_def)
  then show ?case using tc' paused_total_bounds [OF rest] by (auto simp: pr step min_def)
qed auto

section \<open>Limits of the billed accounts\<close>

lemma account_bandwidthE:
  assumes "account_bandwidth env force rl a b = Inr b'"
  obtains n gn c gc where "get_account_net_limit a (account_greylist_limit env force a) rl = Inr (n, gn)"
    "get_account_cpu_limit a (account_greylist_limit env force a) rl = Inr (c, gc)"
    "account_net_limit b' = (if sint n \<ge> 0 then min (account_net_limit b) (sint n) else account_net_limit b)"
    "account_cpu_limit b' = (if sint c \<ge> 0 then min (account_cpu_limit b) (sint c) else account_cpu_limit b)"
  using assms by (auto simp: account_bandwidth_def Let_def result_simps split: prod.splits)

text \<open>An amount that an account with a limit can pay.\<close>

definition can_pay_net :: "('k, 'x) trx_env_scheme \<Rightarrow> resource_db \<Rightarrow> account_name \<Rightarrow> int \<Rightarrow> bool" where
  "can_pay_net env rl a n \<longleftrightarrow>
     (\<exists>l g. get_account_net_limit a (account_greylist_limit env False a) rl = Inr (l, g) \<and> (sint l < 0 \<or> n \<le> sint l))"

definition can_pay_cpu :: "('k, 'x) trx_env_scheme \<Rightarrow> resource_db \<Rightarrow> account_name \<Rightarrow> int \<Rightarrow> bool" where
  "can_pay_cpu env rl a n \<longleftrightarrow>
     (\<exists>l g. get_account_cpu_limit a (account_greylist_limit env False a) rl = Inr (l, g) \<and> (sint l < 0 \<or> n \<le> sint l))"

lemma bandwidth_loop:
  assumes "for_each (account_bandwidth env False rl) as b = Inr b'" "0 \<le> account_net_limit b" "0 \<le> account_cpu_limit b"
  shows "0 \<le> account_net_limit b' \<and> account_net_limit b' \<le> account_net_limit b \<and>
    0 \<le> account_cpu_limit b' \<and> account_cpu_limit b' \<le> account_cpu_limit b \<and>
    (\<forall>a \<in> set as. can_pay_net env rl a (account_net_limit b') \<and> can_pay_cpu env rl a (account_cpu_limit b'))"
  using assms
proof (induction as arbitrary: b)
  case (Cons a as)
  obtain b1 where b1: "account_bandwidth env False rl a b = Inr b1" "for_each (account_bandwidth env False rl) as b1 = Inr b'"
    using Cons.prems(1) by (auto simp: result_simps)
  from b1(1) show ?case
  proof (cases rule: account_bandwidthE)
    case (1 n gn c gc)
    have le: "0 \<le> account_net_limit b1" "account_net_limit b1 \<le> account_net_limit b" "0 \<le> account_cpu_limit b1"
      "account_cpu_limit b1 \<le> account_cpu_limit b" "sint n < 0 \<or> account_net_limit b1 \<le> sint n" "sint c < 0 \<or> account_cpu_limit b1 \<le> sint c"
      using 1(3,4) Cons.prems(2,3) by auto
    note IH = Cons.IH [OF b1(2) le(1,3)]
    have "can_pay_net env rl a (account_net_limit b') \<and> can_pay_cpu env rl a (account_cpu_limit b')"
      using 1(1,2) le IH by (auto simp: can_pay_net_def can_pay_cpu_def)
    with IH le show ?thesis by auto
  qed
qed (auto simp: result_simps)

lemma max_bandwidth_bounds:
  assumes "max_bandwidth_billed_accounts_can_pay env False rl as = Inr b"
  shows "0 \<le> account_net_limit b" "account_net_limit b < 2 ^ 62" "0 \<le> account_cpu_limit b"
    "a \<in> set as \<Longrightarrow> can_pay_net env rl a (account_net_limit b)" "a \<in> set as \<Longrightarrow> can_pay_cpu env rl a (account_cpu_limit b)"
proof -
  have l: "for_each (account_bandwidth env False rl) as
      \<lparr>account_net_limit = large_number_no_overflow, account_cpu_limit = large_number_no_overflow,
       greylisted_net = False, greylisted_cpu = False\<rparr> = Inr b"
    using assms by (auto simp: max_bandwidth_billed_accounts_can_pay_def result_simps)
  from bandwidth_loop [OF l] show "0 \<le> account_net_limit b" "account_net_limit b < 2 ^ 62" "0 \<le> account_cpu_limit b"
    "a \<in> set as \<Longrightarrow> can_pay_net env rl a (account_net_limit b)" "a \<in> set as \<Longrightarrow> can_pay_cpu env rl a (account_cpu_limit b)"
    by (auto simp: large_number_no_overflow_def)
qed

section \<open>Limits of a transaction\<close>

definition trx_net_limit :: "('k, 'x) trx_env_scheme \<Rightarrow> resource_db \<Rightarrow> transaction \<Rightarrow> u64" where
  "trx_net_limit env rl trx =
     (let l = min (ucast (cfg_max_transaction_net_usage env)) (get_block_net_limit rl); h = ucast (max_net_usage_words trx) * 8 in
      if 0 < h then min h l else l)"

definition trx_cpu_limit :: "('k, 'x) trx_env_scheme \<Rightarrow> resource_db \<Rightarrow> transaction \<Rightarrow> int" where
  "trx_cpu_limit env rl trx =
     (let l = min (uint (cfg_max_transaction_cpu_usage env)) (sint (get_block_cpu_limit rl)) in
      if max_cpu_usage_ms trx > 0 then min (uint (max_cpu_usage_ms trx) * 1000) l else l)"

text \<open>What the execution of the actions and the steps of the initialization leave alone.\<close>

definition same_limits :: "transaction_context \<Rightarrow> transaction_context \<Rightarrow> bool" where
  "same_limits tc tc' \<longleftrightarrow>
     tc_net_limit tc' = tc_net_limit tc \<and> tc_objective_duration_limit tc' = tc_objective_duration_limit tc \<and>
     tc_bill_to_accounts tc' = tc_bill_to_accounts tc \<and> tc_explicit_net_usage tc' = tc_explicit_net_usage tc"

lemma same_limits_trans: "same_limits tc tc1 \<Longrightarrow> same_limits tc1 tc2 \<Longrightarrow> same_limits tc tc2"
  by (simp add: same_limits_def)

lemma limit_simps [simp]:
  "tc_net_limit (limit_net l tc) = min l (tc_net_limit tc)" "tc_objective_duration_limit (limit_net l tc) = tc_objective_duration_limit tc"
  "tc_bill_to_accounts (limit_net l tc) = tc_bill_to_accounts tc" "tc_explicit_net_usage (limit_net l tc) = tc_explicit_net_usage tc"
  "tc_net_usage (limit_net l tc) = tc_net_usage tc"
  by (simp_all add: limit_net_def min_def)

lemma limit_cpu_Inr:
  assumes "limit_cpu c tc = Inr tc'"
  shows "tc_net_limit tc' = tc_net_limit tc" "tc_objective_duration_limit tc' = min c (tc_objective_duration_limit tc)"
    "tc_bill_to_accounts tc' = tc_bill_to_accounts tc" "tc_explicit_net_usage tc' = tc_explicit_net_usage tc"
    "tc_net_usage tc' = tc_net_usage tc"
  using assms by (auto simp: limit_cpu_def min_def result_simps split: if_splits)

lemma init_block_limits_Inr:
  assumes "init_block_limits rl tc = Inr tc'"
  shows "tc_net_limit tc' = get_block_net_limit rl" "tc_objective_duration_limit tc' = sint (get_block_cpu_limit rl)"
    "tc_bill_to_accounts tc' = tc_bill_to_accounts tc" "tc_explicit_net_usage tc' = tc_explicit_net_usage tc"
    "tc_net_usage tc' = tc_net_usage tc"
  using assms by (auto simp: init_block_limits_def Let_def result_simps)

text \<open>The stages of the objective limits.\<close>

lemma init_objective_limitsE:
  assumes "init_objective_limits env rl trx tc = Inr tc'"
  obtains t0 t1 t2 where "init_block_limits rl tc = Inr t0"
    "limit_cpu (uint (cfg_max_transaction_cpu_usage env)) (limit_net (ucast (cfg_max_transaction_net_usage env)) t0) = Inr t1"
    "t2 = (if 0 < ucast (max_net_usage_words trx) * (8 :: u64) then limit_net (ucast (max_net_usage_words trx) * 8) t1 else t1)"
    "(if max_cpu_usage_ms trx > 0 then limit_cpu (uint (max_cpu_usage_ms trx) * 1000) t2 else Inr t2) = Inr tc'"
  using assms unfolding init_objective_limits_def Let_def rbind_eq_Inr_iff by (elim exE conjE) (rule that, assumption+, rule refl)

lemma init_objective_limits_Inr:
  assumes "init_objective_limits env rl trx tc = Inr tc'"
  shows "tc_net_limit tc' = trx_net_limit env rl trx" "tc_objective_duration_limit tc' = trx_cpu_limit env rl trx"
    "tc_explicit_net_usage tc' = tc_explicit_net_usage tc" "tc_net_usage tc' = tc_net_usage tc"
    "tc_bill_to_accounts tc' = tc_bill_to_accounts tc"
proof -
  obtain t0 t1 t2 where t: "init_block_limits rl tc = Inr t0"
    "limit_cpu (uint (cfg_max_transaction_cpu_usage env)) (limit_net (ucast (cfg_max_transaction_net_usage env)) t0) = Inr t1"
    "t2 = (if 0 < ucast (max_net_usage_words trx) * (8 :: u64) then limit_net (ucast (max_net_usage_words trx) * 8) t1 else t1)"
    "(if max_cpu_usage_ms trx > 0 then limit_cpu (uint (max_cpu_usage_ms trx) * 1000) t2 else Inr t2) = Inr tc'"
    using assms by (rule init_objective_limitsE)
  note facts = init_block_limits_Inr [OF t(1)] limit_cpu_Inr [OF t(2)] limit_cpu_Inr [of _ t2 tc']
  show "tc_net_limit tc' = trx_net_limit env rl trx" "tc_objective_duration_limit tc' = trx_cpu_limit env rl trx"
    "tc_explicit_net_usage tc' = tc_explicit_net_usage tc" "tc_net_usage tc' = tc_net_usage tc"
    "tc_bill_to_accounts tc' = tc_bill_to_accounts tc"
    using t(3,4) facts by (auto simp: trx_net_limit_def trx_cpu_limit_def Let_def split: if_splits)
qed

lemma init_deadlineE:
  assumes "init_deadline env b tc = Inr tc'"
  obtains t0 t1 t2 where "init_eager_net_limit env b (note_greylist b tc) = Inr t0" "deadline_of_accounts b t0 = Inr t1"
    "deadline_of_subjective env t1 = Inr t2" "tc' = choose_exception_code (deadline_of_block env t2)"
  using assms by (auto simp: init_deadline_def result_simps)

lemma deadline_limits:
  "deadline_of_accounts b t = Inr t' \<Longrightarrow> same_limits t t' \<and> tc_net_usage t' = tc_net_usage t \<and> tc_eager_net_limit t' = tc_eager_net_limit t"
  "deadline_of_subjective env t = Inr t' \<Longrightarrow> same_limits t t' \<and> tc_net_usage t' = tc_net_usage t \<and> tc_eager_net_limit t' = tc_eager_net_limit t"
  "same_limits t (deadline_of_block env t) \<and> tc_net_usage (deadline_of_block env t) = tc_net_usage t \<and>
    tc_eager_net_limit (deadline_of_block env t) = tc_eager_net_limit t"
  "same_limits t (choose_exception_code t) \<and> tc_net_usage (choose_exception_code t) = tc_net_usage t \<and>
    tc_eager_net_limit (choose_exception_code t) = tc_eager_net_limit t"
  "init_eager_net_limit env b t = Inr t' \<Longrightarrow> same_limits t t' \<and> tc_net_usage t' = tc_net_usage t \<and> tc_eager_net_limit t' \<le> tc_net_limit t"
  "same_limits t (note_greylist b t) \<and> tc_net_usage (note_greylist b t) = tc_net_usage t"
  by (auto simp: same_limits_def note_greylist_def init_eager_net_limit_def deadline_of_accounts_def deadline_of_subjective_def
      deadline_of_block_def choose_exception_code_def Let_def result_simps split: if_splits)

lemma init_deadline_limits:
  assumes "init_deadline env b tc = Inr tc'"
  shows "same_limits tc tc'" "tc_net_usage tc' = tc_net_usage tc" "tc_eager_net_limit tc' \<le> tc_net_limit tc"
proof -
  obtain t0 t1 t2 where t: "init_eager_net_limit env b (note_greylist b tc) = Inr t0" "deadline_of_accounts b t0 = Inr t1"
    "deadline_of_subjective env t1 = Inr t2" "tc' = choose_exception_code (deadline_of_block env t2)"
    using assms by (rule init_deadlineE)
  note facts = deadline_limits(1) [OF t(2)] deadline_limits(2) [OF t(3)] deadline_limits(3) [of t2 env]
    deadline_limits(4) [of "deadline_of_block env t2"] deadline_limits(5) [OF t(1)] deadline_limits(6) [of tc b]
  show "same_limits tc tc'" "tc_net_usage tc' = tc_net_usage tc" "tc_eager_net_limit tc' \<le> tc_net_limit tc"
    using facts unfolding t(4) same_limits_def by simp_all
qed

lemma add_net_usage_limits: "add_net_usage u tc = Inr tc' \<Longrightarrow> same_limits tc tc'"
  by (auto simp: add_net_usage_def same_limits_def Let_def result_simps split: if_splits)

lemma init_net_usage_limits: "init_net_usage u tc = Inr tc' \<Longrightarrow> same_limits tc tc'"
  using add_net_usage_limits [of u "tc\<lparr>tc_eager_net_limit := (tc_eager_net_limit tc div 8) * 8\<rparr>" tc']
  by (auto simp: init_net_usage_def Let_def same_limits_def split: if_splits)

lemma init_timer_limits: "init_timer env expired tc = Inr tc' \<Longrightarrow> same_limits tc tc'"
  by (auto simp: init_timer_def Let_def same_limits_def result_simps split: if_splits)

lemma initE:
  assumes "trx_init env trx u expired tc rl = Inr (tc', rl')"
  obtains t0 tc0 tc1 tc2 tc3 b where "init_objective_limits env rl trx tc = Inr t0"
    "tc0 = t0\<lparr>tc_bill_to_accounts := billed_accounts env trx (tc_bill_to_accounts t0)\<rparr>" "init_deadline env b tc0 = Inr tc1"
    "init_net_usage u tc1 = Inr tc2" "init_timer env expired tc2 = Inr tc3" "tc' = tc3\<lparr>tc_is_initialized := True\<rparr>"
proof -
  have "\<exists>t0 b tc1 tc2 tc3. init_objective_limits env rl trx tc = Inr t0 \<and>
      init_deadline env b (t0\<lparr>tc_bill_to_accounts := billed_accounts env trx (tc_bill_to_accounts t0)\<rparr>) = Inr tc1 \<and>
      init_net_usage u tc1 = Inr tc2 \<and> init_timer env expired tc2 = Inr tc3 \<and> tc' = tc3\<lparr>tc_is_initialized := True\<rparr>"
    using assms unfolding trx_init_def Let_def rbind_eq_Inr_iff by blast
  then show ?thesis using that by auto
qed

lemma init_limits:
  assumes "trx_init env trx u expired tc rl = Inr (tc', rl')"
  shows "tc_net_limit tc' = trx_net_limit env rl trx" "tc_objective_duration_limit tc' = trx_cpu_limit env rl trx"
    "tc_bill_to_accounts tc' = billed_accounts env trx (tc_bill_to_accounts tc)" "tc_explicit_net_usage tc' = tc_explicit_net_usage tc"
    "tc_is_initialized tc'"
proof -
  obtain t0 tc0 tc1 tc2 tc3 b where s: "init_objective_limits env rl trx tc = Inr t0"
    "tc0 = t0\<lparr>tc_bill_to_accounts := billed_accounts env trx (tc_bill_to_accounts t0)\<rparr>" "init_deadline env b tc0 = Inr tc1"
    "init_net_usage u tc1 = Inr tc2" "init_timer env expired tc2 = Inr tc3" "tc' = tc3\<lparr>tc_is_initialized := True\<rparr>"
    using assms by (rule initE)
  have "same_limits tc0 tc3"
    using init_deadline_limits(1) [OF s(3)] init_net_usage_limits [OF s(4)] init_timer_limits [OF s(5)] by (meson same_limits_trans)
  with init_objective_limits_Inr [OF s(1)]
  show "tc_net_limit tc' = trx_net_limit env rl trx" "tc_objective_duration_limit tc' = trx_cpu_limit env rl trx"
    "tc_bill_to_accounts tc' = billed_accounts env trx (tc_bill_to_accounts tc)" "tc_explicit_net_usage tc' = tc_explicit_net_usage tc"
    "tc_is_initialized tc'"
    by (simp_all add: same_limits_def s(2,6))
qed

text \<open>The operations on the context while the actions are executed.\<close>

inductive trx_run :: "('k, 'x) trx_env_scheme \<Rightarrow> transaction_context \<Rightarrow> transaction_context \<Rightarrow> bool" for env where
  start: "trx_run env tc tc"
| net: "trx_run env tc tc1 \<Longrightarrow> add_net_usage u tc1 = Inr tc2 \<Longrightarrow> trx_run env tc tc2"
| pause: "trx_run env tc tc1 \<Longrightarrow> pause_billing_timer now tc1 = Inr tc2 \<Longrightarrow> trx_run env tc tc2"
| resume: "trx_run env tc tc1 \<Longrightarrow> resume_billing_timer env now tc1 = Inr tc2 \<Longrightarrow> trx_run env tc tc2"
| update: "trx_run env tc tc1 \<Longrightarrow> update_billed_cpu_time env now tc1 = Inr tc2 \<Longrightarrow> trx_run env tc tc2"

text \<open>The timer does not change limits and network usage.\<close>

lemma timer_limits:
  "pause_billing_timer now tc = Inr tc' \<Longrightarrow> same_limits tc tc' \<and> tc_net_usage tc' = tc_net_usage tc \<and> tc_eager_net_limit tc' = tc_eager_net_limit tc"
  "resume_billing_timer env now tc = Inr tc' \<Longrightarrow> same_limits tc tc' \<and> tc_net_usage tc' = tc_net_usage tc \<and> tc_eager_net_limit tc' = tc_eager_net_limit tc"
  "update_billed_cpu_time env now tc = Inr tc' \<Longrightarrow> same_limits tc tc' \<and> tc_net_usage tc' = tc_net_usage tc \<and> tc_eager_net_limit tc' = tc_eager_net_limit tc"
  by (auto simp: same_limits_def pause_billing_timer_def resume_billing_timer_def update_billed_cpu_time_def Let_def result_simps
      split: if_splits)

lemma trx_run_limits:
  assumes "trx_run env tc tc'"
  shows "same_limits tc tc'"
  using assms
proof induction
  case (net tc tc1 u tc2)
  then show ?case using add_net_usage_limits by (fastforce simp: same_limits_def)
qed (auto simp: same_limits_def dest!: timer_limits)

lemma lower_limits_simps [simp]:
  "tc_net_limit (lower_limits b tc) = min (of_int (account_net_limit b)) (tc_net_limit tc)"
  "tc_eager_net_limit (lower_limits b tc) = min (of_int (account_net_limit b)) (tc_net_limit tc)"
  "tc_objective_duration_limit (lower_limits b tc) = min (account_cpu_limit b) (tc_objective_duration_limit tc)"
  "tc_explicit_net_usage (lower_limits b tc) = tc_explicit_net_usage tc"
  "tc_net_usage (lower_limits b tc) = tc_net_usage tc"
  by (simp_all add: lower_limits_def note_greylist_def Let_def)

lemma validate_cpu_usage_to_bill_bounds:
  assumes "validate_cpu_usage_to_bill env us l True tc = Inr ()" "\<not> skip_trx_checks env" "\<not> override_chain_cpu_limits env" "0 < us"
  shows "uint (cfg_min_transaction_cpu_usage env) \<le> us" "us \<le> l" "us \<le> tc_objective_duration_limit tc"
  using assms by (auto simp: validate_cpu_usage_to_bill_def validate_account_cpu_usage_def Let_def result_simps split: if_splits)

lemma finalizeE:
  assumes "finalize env trx now tc s = Inr (tc', s')"
  obtains b rl tc1 where "max_bandwidth_billed_accounts_can_pay env False (ns_resources s) (tc_bill_to_accounts tc) = Inr b"
    "round_up_net_usage (lower_limits b tc) = Inr tc1" "trx_check_net_usage tc1 = Inr ()"
    "update_billed_cpu_time env now (tc1\<lparr>tc_elapsed := now - tc_start tc1\<rparr>) = Inr tc'"
    "validate_cpu_usage_to_bill env (tc_billed_cpu_time_us tc') (account_cpu_limit b) True tc' = Inr ()"
    "add_transaction_usage (tc_bill_to_accounts tc') (of_int (tc_billed_cpu_time_us tc')) (tc_net_usage tc')
      (timestamp_of_time_point (pending_block_time env)) (override_chain_cpu_limits env) (ns_resources s) = Inr rl"
    "ns_resources s' = rl"
  using assms by (auto simp: finalize_def Let_def result_simps split: if_splits)

text \<open>
  The usage stays below the limit that is checked, so that rounding it up does not wrap around.
\<close>

definition net_checked :: "transaction_context \<Rightarrow> bool" where
  "net_checked tc \<longleftrightarrow> tc_explicit_net_usage tc \<or> tc_net_usage tc \<le> tc_eager_net_limit tc"

lemma trx_check_net_usage_iff: "trx_check_net_usage tc = Inr () \<longleftrightarrow> tc_net_usage tc \<le> tc_eager_net_limit tc"
  by (auto simp: trx_check_net_usage_def)

lemma add_net_usage_checked:
  assumes "add_net_usage u tc = Inr tc'"
  shows "net_checked tc'" "tc_eager_net_limit tc' = tc_eager_net_limit tc"
  using assms by (auto simp: add_net_usage_def net_checked_def Let_def result_simps trx_check_net_usage_iff split: if_splits)

lemma trx_run_checked:
  assumes "trx_run env tc tc'" "net_checked tc"
  shows "net_checked tc' \<and> tc_eager_net_limit tc' = tc_eager_net_limit tc"
  using assms
proof induction
  case (net tc tc1 u tc2)
  then show ?case using add_net_usage_checked by metis
qed (auto simp: net_checked_def same_limits_def dest!: timer_limits)

lemma div_mult_le: "(w div 8) * 8 \<le> (w :: u64)"
proof -
  have "unat ((w div 8) * 8) = unat w div 8 * 8"
    by (subst unat_mult_exact) (use unat_lt_64 [of w] in \<open>simp_all add: unat_div\<close>)
  then show ?thesis by (simp add: word_le_nat_alt)
qed

lemma init_checked:
  assumes "trx_init env trx u expired tc rl = Inr (tc', rl')" "tc_explicit_net_usage tc \<or> tc_net_usage tc = 0"
  shows "net_checked tc'" "tc_eager_net_limit tc' \<le> trx_net_limit env rl trx"
proof -
  obtain t0 tc0 tc1 tc2 tc3 b where s: "init_objective_limits env rl trx tc = Inr t0"
    "tc0 = t0\<lparr>tc_bill_to_accounts := billed_accounts env trx (tc_bill_to_accounts t0)\<rparr>" "init_deadline env b tc0 = Inr tc1"
    "init_net_usage u tc1 = Inr tc2" "init_timer env expired tc2 = Inr tc3" "tc' = tc3\<lparr>tc_is_initialized := True\<rparr>"
    using assms(1) by (rule initE)
  note o = init_objective_limits_Inr [OF s(1)] init_deadline_limits [OF s(3)]
  have 0: "tc_explicit_net_usage tc1 \<or> tc_net_usage tc1 = 0" using assms(2) o by (auto simp: s(2) same_limits_def)
  have 1: "net_checked tc2 \<and> tc_eager_net_limit tc2 = (tc_eager_net_limit tc1 div 8) * 8"
  proof (cases "u > 0")
    case True
    then have a: "add_net_usage u (tc1\<lparr>tc_eager_net_limit := (tc_eager_net_limit tc1 div 8) * 8\<rparr>) = Inr tc2"
      using s(4) by (simp add: init_net_usage_def Let_def)
    from add_net_usage_checked [OF a] show ?thesis by simp
  next
    case False
    then show ?thesis using s(4) 0 by (auto simp: init_net_usage_def Let_def net_checked_def)
  qed
  have "tc_eager_net_limit tc2 \<le> trx_net_limit env rl trx"
    using 1 div_mult_le [of "tc_eager_net_limit tc1"] o by (auto simp: s(2))
  moreover have "tc_eager_net_limit tc3 = tc_eager_net_limit tc2" "net_checked tc3 = net_checked tc2"
    using s(5) by (auto simp: init_timer_def net_checked_def Let_def result_simps split: if_splits)
  ultimately show "net_checked tc'" "tc_eager_net_limit tc' \<le> trx_net_limit env rl trx"
    using 1 by (auto simp: s(6) net_checked_def)
qed

lemma round_up_8:
  assumes "unat (w :: u64) < 2 ^ 64 - 8"
  shows "unat (((w + 7) div 8) * 8) = (unat w + 7) div 8 * 8"
proof -
  have "unat (w + 7) = unat w + 7" using assms by (subst unat_plus_exact) simp_all
  moreover have "(unat w + 7) div 8 * 8 < 2 ^ 64" using assms div_mult_le by simp
  ultimately show ?thesis by (subst unat_mult_exact) (simp_all add: unat_div)
qed

lemma trx_net_limit_le: "unat (trx_net_limit env rl trx) \<le> unat (cfg_max_transaction_net_usage env)"
proof -
  have "trx_net_limit env rl trx \<le> ucast (cfg_max_transaction_net_usage env)"
    by (auto simp: trx_net_limit_def Let_def min_le_iff_disj)
  then show ?thesis by (simp add: word_le_nat_alt)
qed

lemma can_pay_mono:
  "can_pay_net env rl a m \<Longrightarrow> n \<le> m \<Longrightarrow> can_pay_net env rl a n" "can_pay_cpu env rl a m \<Longrightarrow> n \<le> m \<Longrightarrow> can_pay_cpu env rl a n"
  by (auto simp: can_pay_net_def can_pay_cpu_def)

text \<open>
  C5: what a transaction is billed in the end. The network usage is what was used, rounded up to words without
  wrapping around, unless it was given explicitly; it is at most the limit of the configuration, the space left in the
  block, the limit in the header of the transaction and what every billed account can pay. Unless checks are skipped or the
  CPU limits overridden, a CPU time that is not zero is at least the minimum, and at most the time left in the block, the limits of the
  configuration and of the header, and what every billed account can pay. With these amounts the accounts are billed.
\<close>

theorem billed_within_limits:
  assumes "trx_init env trx u expired tc rl = Inr (tc0, rl0)" "tc_explicit_net_usage tc \<or> tc_net_usage tc = 0"
    and "trx_run env tc0 tc1" "finalize env trx now tc1 s = Inr (tc2, s2)"
  shows "(tc_explicit_net_usage tc \<or> unat (tc_net_usage tc2) = ceil_div (unat (tc_net_usage tc1)) 8 * 8) \<and>
    tc_net_usage tc2 \<le> trx_net_limit env rl trx \<and>
    (\<forall>a \<in> set (tc_bill_to_accounts tc0). can_pay_net env (ns_resources s) a (uint (tc_net_usage tc2))) \<and>
    (\<not> skip_trx_checks env \<and> \<not> override_chain_cpu_limits env \<and> 0 < tc_billed_cpu_time_us tc2 \<longrightarrow>
       uint (cfg_min_transaction_cpu_usage env) \<le> tc_billed_cpu_time_us tc2 \<and>
       tc_billed_cpu_time_us tc2 \<le> trx_cpu_limit env rl trx \<and>
       (\<forall>a \<in> set (tc_bill_to_accounts tc0). can_pay_cpu env (ns_resources s) a (tc_billed_cpu_time_us tc2))) \<and>
    add_transaction_usage (tc_bill_to_accounts tc0) (of_int (tc_billed_cpu_time_us tc2)) (tc_net_usage tc2)
      (timestamp_of_time_point (pending_block_time env)) (override_chain_cpu_limits env) (ns_resources s) = Inr (ns_resources s2)"
proof -
  note i = init_limits [OF assms(1)] init_checked [OF assms(1,2)]
  note r = trx_run_limits [OF assms(3), unfolded same_limits_def] trx_run_checked [OF assms(3) i(6)]
  from assms(4) show ?thesis
  proof (cases rule: finalizeE)
    case (1 b rl2 t)
    note bw = max_bandwidth_bounds [OF 1(1)]
    have t: "tc_net_usage tc2 = tc_net_usage t" "tc_objective_duration_limit tc2 = tc_objective_duration_limit t"
      "tc_bill_to_accounts tc2 = tc_bill_to_accounts t"
      using timer_limits(3) [OF 1(4)] by (simp_all add: same_limits_def)
    have lo: "tc_eager_net_limit t = min (of_int (account_net_limit b)) (tc_net_limit tc1)"
      "tc_objective_duration_limit t = min (account_cpu_limit b) (tc_objective_duration_limit tc1)" "tc_bill_to_accounts t = tc_bill_to_accounts tc1"
      "tc_net_usage t = (if tc_explicit_net_usage tc then tc_net_usage tc1 else (tc_net_usage tc1 + 7) div 8 * 8)"
      using 1(2) r i by (auto simp: round_up_net_usage_def Let_def result_simps lower_limits_def note_greylist_def split: if_splits)
    have net: "tc_net_usage t \<le> of_int (account_net_limit b)" "tc_net_usage t \<le> trx_net_limit env rl trx"
      using 1(3) lo(1) r(1) i(1) by (simp_all add: trx_check_net_usage_iff)
    have pay: "uint (tc_net_usage t) \<le> account_net_limit b"
    proof -
      have "uint (of_int (account_net_limit b) :: u64) = account_net_limit b"
        using bw(1,2) by (simp add: uint_word_of_int_eq take_bit_int_eq_self)
      then show ?thesis using net(1) by (simp add: word_le_def)
    qed
    have up: "unat (tc_net_usage t) = ceil_div (unat (tc_net_usage tc1)) 8 * 8" if "\<not> tc_explicit_net_usage tc"
    proof -
      have "tc_net_usage tc1 \<le> trx_net_limit env rl trx" using that r i by (auto simp: net_checked_def)
      then have "unat (tc_net_usage tc1) < 2 ^ 64 - 8"
        using trx_net_limit_le [of env rl trx] unat_lt_32 [of "cfg_max_transaction_net_usage env"] by (simp add: word_le_nat_alt)
      from round_up_8 [OF this] that lo(4) show ?thesis by (simp add: ceil_div_def)
    qed
    have bill: "tc_bill_to_accounts tc1 = tc_bill_to_accounts tc0" "tc_bill_to_accounts tc2 = tc_bill_to_accounts tc0"
      using r(1) lo(3) t(3) by simp_all
    have cpu: "uint (cfg_min_transaction_cpu_usage env) \<le> tc_billed_cpu_time_us tc2 \<and> tc_billed_cpu_time_us tc2 \<le> account_cpu_limit b \<and>
        tc_billed_cpu_time_us tc2 \<le> trx_cpu_limit env rl trx"
      if "\<not> skip_trx_checks env \<and> \<not> override_chain_cpu_limits env \<and> 0 < tc_billed_cpu_time_us tc2"
      using validate_cpu_usage_to_bill_bounds [OF 1(5)] that lo(2) t(2) r(1) i(2) by simp
    have "can_pay_net env (ns_resources s) a (uint (tc_net_usage tc2))" if "a \<in> set (tc_bill_to_accounts tc0)" for a
      using that bill(1) bw(4) pay t(1) by (metis can_pay_mono(1))
    moreover have "can_pay_cpu env (ns_resources s) a (tc_billed_cpu_time_us tc2)"
      if "a \<in> set (tc_bill_to_accounts tc0)" "tc_billed_cpu_time_us tc2 \<le> account_cpu_limit b" for a
      using that bill(1) bw(5) by (metis can_pay_mono(2))
    ultimately show ?thesis using up net(2) cpu 1(6,7) unfolding bill(2) t(1) by blast
  qed
qed

section \<open>The timer after the initialization\<close>

text \<open>What the steps of the initialization keep of the timer.\<close>

definition timer_kept :: "transaction_context \<Rightarrow> transaction_context \<Rightarrow> bool" where
  "timer_kept tc tc' \<longleftrightarrow> tc_explicit_billed_cpu_time tc' = tc_explicit_billed_cpu_time tc \<and>
     tc_pseudo_start tc' = tc_pseudo_start tc \<and> tc_start tc' = tc_start tc \<and> tc_block_deadline tc' = tc_block_deadline tc \<and>
     tc_max_transaction_time_subjective tc' = tc_max_transaction_time_subjective tc \<and>
     (- (2 ^ 63) \<le> tc_deadline tc \<longrightarrow> - (2 ^ 63) \<le> tc_deadline tc')"

lemma timer_kept_trans: "timer_kept tc tc1 \<Longrightarrow> timer_kept tc1 tc2 \<Longrightarrow> timer_kept tc tc2"
  by (simp add: timer_kept_def)

lemma timer_kept_steps:
  "timer_kept tc (limit_net l tc)" "limit_cpu c tc = Inr tc' \<Longrightarrow> timer_kept tc tc'"
  "timer_kept tc (note_greylist b tc)" "init_eager_net_limit env b tc = Inr tc' \<Longrightarrow> timer_kept tc tc'"
  "deadline_of_accounts b tc = Inr tc' \<Longrightarrow> timer_kept tc tc'" "timer_kept tc (tc\<lparr>tc_bill_to_accounts := as\<rparr>)"
  by (auto simp: timer_kept_def limit_net_def limit_cpu_def note_greylist_def init_eager_net_limit_def deadline_of_accounts_def
      Let_def result_simps split: if_splits)

lemma init_objective_timer:
  assumes "init_objective_limits env rl trx tc = Inr tc'"
  shows "tc_explicit_billed_cpu_time tc' = tc_explicit_billed_cpu_time tc" "tc_pseudo_start tc' = tc_pseudo_start tc"
    "tc_start tc' = tc_start tc" "tc_max_transaction_time_subjective tc' = tc_max_transaction_time_subjective tc"
    "tc_block_deadline tc' = (if tc_block_deadline tc = maximum_time then tc_start tc + hours_of_a_year else tc_block_deadline tc)"
    "- (2 ^ 63) \<le> tc_deadline tc'"
proof -
  obtain t0 t1 t2 where t: "init_block_limits rl tc = Inr t0"
    "limit_cpu (uint (cfg_max_transaction_cpu_usage env)) (limit_net (ucast (cfg_max_transaction_net_usage env)) t0) = Inr t1"
    "t2 = (if 0 < ucast (max_net_usage_words trx) * (8 :: u64) then limit_net (ucast (max_net_usage_words trx) * 8) t1 else t1)"
    "(if max_cpu_usage_ms trx > 0 then limit_cpu (uint (max_cpu_usage_ms trx) * 1000) t2 else Inr t2) = Inr tc'"
    using assms by (rule init_objective_limitsE)
  have "timer_kept t0 t1" using timer_kept_steps(1) timer_kept_steps(2) [OF t(2)] by (rule timer_kept_trans)
  moreover have "timer_kept t1 t2" using timer_kept_steps(1) by (simp add: t(3) timer_kept_def)
  moreover have "timer_kept t2 tc'"
    using t(4) timer_kept_steps(2) by (cases "max_cpu_usage_ms trx > 0") (simp_all add: timer_kept_def)
  ultimately have "timer_kept t0 tc'" by (meson timer_kept_trans)
  with t(1) show "tc_explicit_billed_cpu_time tc' = tc_explicit_billed_cpu_time tc" "tc_pseudo_start tc' = tc_pseudo_start tc"
    "tc_start tc' = tc_start tc" "tc_max_transaction_time_subjective tc' = tc_max_transaction_time_subjective tc"
    "tc_block_deadline tc' = (if tc_block_deadline tc = maximum_time then tc_start tc + hours_of_a_year else tc_block_deadline tc)"
    "- (2 ^ 63) \<le> tc_deadline tc'"
    by (auto simp: timer_kept_def init_block_limits_def Let_def result_simps split: if_splits)
qed

lemma deadline_of_subjective_timer:
  assumes "deadline_of_subjective env t = Inr t'"
  shows "tc_explicit_billed_cpu_time t' = tc_explicit_billed_cpu_time t" "tc_pseudo_start t' = tc_pseudo_start t"
    "tc_block_deadline t' = tc_block_deadline t" "- (2 ^ 63) \<le> tc_deadline t \<longrightarrow> - (2 ^ 63) \<le> tc_deadline t'"
    "override_chain_cpu_limits env \<Longrightarrow> tc_deadline t' = tc_start t +
       (if tc_max_transaction_time_subjective t = maximum_time then hours_of_a_year else tc_max_transaction_time_subjective t)"
proof -
  show "tc_explicit_billed_cpu_time t' = tc_explicit_billed_cpu_time t" "tc_pseudo_start t' = tc_pseudo_start t"
    "tc_block_deadline t' = tc_block_deadline t" "- (2 ^ 63) \<le> tc_deadline t \<longrightarrow> - (2 ^ 63) \<le> tc_deadline t'"
    using assms by (auto simp: deadline_of_subjective_def Let_def result_simps split: if_splits)
  assume ov: "override_chain_cpu_limits env"
  with assms obtain x where "t' = t\<lparr>tc_max_transaction_time_subjective := x,
      tc_deadline := tc_start t + x, tc_billing_timer_exception_code := Tx_cpu_code\<rparr>"
    "x = (if tc_max_transaction_time_subjective t = maximum_time then hours_of_a_year else tc_max_transaction_time_subjective t)"
    by (simp add: deadline_of_subjective_def Let_def rbind_eq_Inr_iff to_int64_eq_Inr_iff)
  then show "tc_deadline t' = tc_start t +
      (if tc_max_transaction_time_subjective t = maximum_time then hours_of_a_year else tc_max_transaction_time_subjective t)"
    by simp
qed

lemma init_deadline_timer:
  assumes "init_deadline env b tc = Inr tc'" "\<not> tc_explicit_billed_cpu_time tc" "- (2 ^ 63) \<le> tc_deadline tc" "- (2 ^ 63) \<le> tc_block_deadline tc"
  shows "\<not> tc_explicit_billed_cpu_time tc'" "tc_pseudo_start tc' = tc_pseudo_start tc"
    "tc_block_deadline tc' = tc_block_deadline tc" "- (2 ^ 63) \<le> tc_deadline tc'"
    "if override_chain_cpu_limits env
     then tc_deadline tc' = tc_start tc +
       (if tc_max_transaction_time_subjective tc = maximum_time then hours_of_a_year else tc_max_transaction_time_subjective tc)
     else tc_deadline tc' \<le> tc_block_deadline tc'"
proof -
  obtain t0 t1 t2 where t: "init_eager_net_limit env b (note_greylist b tc) = Inr t0" "deadline_of_accounts b t0 = Inr t1"
    "deadline_of_subjective env t1 = Inr t2" "tc' = choose_exception_code (deadline_of_block env t2)"
    using assms(1) by (rule init_deadlineE)
  have "timer_kept tc t1"
    using timer_kept_steps(3) timer_kept_steps(4) [OF t(1)] timer_kept_steps(5) [OF t(2)] by (meson timer_kept_trans)
  with deadline_of_subjective_timer [OF t(3)] assms(2-4)
  show "\<not> tc_explicit_billed_cpu_time tc'" "tc_pseudo_start tc' = tc_pseudo_start tc"
    "tc_block_deadline tc' = tc_block_deadline tc" "- (2 ^ 63) \<le> tc_deadline tc'"
    "if override_chain_cpu_limits env
     then tc_deadline tc' = tc_start tc +
       (if tc_max_transaction_time_subjective tc = maximum_time then hours_of_a_year else tc_max_transaction_time_subjective tc)
     else tc_deadline tc' \<le> tc_block_deadline tc'"
    by (auto simp: t(4) timer_kept_def choose_exception_code_def deadline_of_block_def)
qed

lemma init_end_timer:
  assumes "init_net_usage u tc = Inr tc1" "init_timer env expired tc1 = Inr tc2"
  shows "tc_explicit_billed_cpu_time tc2 = tc_explicit_billed_cpu_time tc" "tc_pseudo_start tc2 = tc_pseudo_start tc"
    "tc_block_deadline tc2 = tc_block_deadline tc" "tc_deadline tc2 = tc_deadline tc"
  using assms by (auto simp: init_net_usage_def init_timer_def add_net_usage_def Let_def result_simps split: if_splits)

lemma init_timer_running:
  assumes "trx_init env trx u expired tc rl = Inr (tc', rl')" "\<not> tc_explicit_billed_cpu_time tc" "0 \<le> tc_start tc" "0 \<le> tc_block_deadline tc"
  shows "\<not> tc_explicit_billed_cpu_time tc'" "tc_pseudo_start tc' = tc_pseudo_start tc" "- (2 ^ 63) \<le> tc_deadline tc'"
    "tc_block_deadline tc' = (if tc_block_deadline tc = maximum_time then tc_start tc + hours_of_a_year else tc_block_deadline tc)"
    "if override_chain_cpu_limits env
     then tc_deadline tc' = tc_start tc +
       (if tc_max_transaction_time_subjective tc = maximum_time then hours_of_a_year else tc_max_transaction_time_subjective tc)
     else tc_deadline tc' \<le> tc_block_deadline tc'"
proof -
  obtain t0 tc0 tc1 tc2 tc3 b where s: "init_objective_limits env rl trx tc = Inr t0"
    "tc0 = t0\<lparr>tc_bill_to_accounts := billed_accounts env trx (tc_bill_to_accounts t0)\<rparr>" "init_deadline env b tc0 = Inr tc1"
    "init_net_usage u tc1 = Inr tc2" "init_timer env expired tc2 = Inr tc3" "tc' = tc3\<lparr>tc_is_initialized := True\<rparr>"
    using assms(1) by (rule initE)
  note o = init_objective_timer [OF s(1)] and e = init_end_timer [OF s(4,5)]
  have "- (2 ^ 63) \<le> tc_block_deadline t0" using o(5) assms(3,4) by (simp add: hours_of_a_year_def)
  with o assms(2) have "\<not> tc_explicit_billed_cpu_time tc0" "- (2 ^ 63) \<le> tc_deadline tc0" "- (2 ^ 63) \<le> tc_block_deadline tc0"
    by (simp_all add: s(2))
  note d = init_deadline_timer [OF s(3) this]
  show "\<not> tc_explicit_billed_cpu_time tc'" "tc_pseudo_start tc' = tc_pseudo_start tc" "- (2 ^ 63) \<le> tc_deadline tc'"
    "tc_block_deadline tc' = (if tc_block_deadline tc = maximum_time then tc_start tc + hours_of_a_year else tc_block_deadline tc)"
    using d(1-4) o e by (simp_all add: s(2,6))
  show "if override_chain_cpu_limits env
     then tc_deadline tc' = tc_start tc +
       (if tc_max_transaction_time_subjective tc = maximum_time then hours_of_a_year else tc_max_transaction_time_subjective tc)
     else tc_deadline tc' \<le> tc_block_deadline tc'"
    using d(5) o e by (simp add: s(2,6))
qed

text \<open>
  C23: time for which the billing timer is paused is not billed, and the arithmetic on times does not overflow. After the
  initialization of a context whose CPU time is not given explicitly, for any number of pauses at clock readings that do
  not decrease from the start on and are below \<open>2\<^sup>6\<^sup>2\<close> microseconds, pausing and resuming return, and so does the update of
  the CPU time: it is the time since the start less that of the pauses, or the minimum. The deadline moves by the length
  of the pauses, but not beyond that of the block unless the CPU limits are overridden. A deadline of the block and a time
  of a transaction that are given are below \<open>2\<^sup>6\<^sup>2\<close> too; for the maximal values, which stand for none, the
  initialization sets values that leave room for the pauses.
\<close>

theorem paused_time_not_billed:
  assumes "trx_init env trx u expired tc rl = Inr (tc0, rl0)" "\<not> tc_explicit_billed_cpu_time tc"
    and "tc_pseudo_start tc = tc_start tc" "0 < tc_start tc"
    and "sorted (tc_start tc # concat (map (\<lambda>(p, r). [p, r]) ps) @ [now])" "now < 2 ^ 62"
    and "0 \<le> tc_block_deadline tc" "tc_block_deadline tc = maximum_time \<or> tc_block_deadline tc < 2 ^ 62"
    and "tc_max_transaction_time_subjective tc = maximum_time \<or> tc_max_transaction_time_subjective tc < 2 ^ 62"
  shows "\<exists>tc1 tc2. run_pauses env ps tc0 = Inr tc1 \<and> update_billed_cpu_time env now tc1 = Inr tc2 \<and>
    tc_billed_cpu_time_us tc2 =
      max (now - tc_start tc - (\<Sum>(p, r)\<leftarrow>ps. r - p)) (uint (cfg_min_transaction_cpu_usage env)) \<and>
    tc_deadline tc1 =
      (if override_chain_cpu_limits env then tc_deadline tc0 + (\<Sum>(p, r)\<leftarrow>ps. r - p)
       else min (tc_deadline tc0 + (\<Sum>(p, r)\<leftarrow>ps. r - p)) (tc_block_deadline tc0))"
proof -
  have s: "0 \<le> tc_start tc" using assms(4) by simp
  note i = init_timer_running [OF assms(1,2) s assms(7)]
  have clock: "sorted (tc_start tc # readings ps @ [now])" using assms(5) by (simp add: readings_def)
  note total = paused_total_bounds [OF clock]
  have "tc_start tc \<le> now" using clock by simp
  have block: "- (2 ^ 63) \<le> tc_block_deadline tc0" "tc_block_deadline tc0 + (now - tc_start tc) < 2 ^ 63"
    using i(4) s assms(6-8) \<open>tc_start tc \<le> now\<close> by (auto simp: hours_of_a_year_def split: if_splits)
  have d: "tc_deadline tc0 + (now - tc_start tc) < 2 ^ 63"
    using i(5) block(2) assms(6,9) by (cases "override_chain_cpu_limits env") (auto simp: hours_of_a_year_def split: if_splits)
  have "override_chain_cpu_limits env \<or> tc_deadline tc0 \<le> tc_block_deadline tc0" using i(5) by (auto split: if_splits)
  with run_pauses_timer [OF i(1) _ _ clock assms(6) i(3) block(1) d] i(2) assms(3,4)
  obtain tc1 where tc1: "run_pauses env ps tc0 = Inr tc1" "\<not> tc_explicit_billed_cpu_time tc1"
    "tc_pseudo_start tc1 = tc_start tc + paused_total ps"
    "tc_deadline tc1 = (if override_chain_cpu_limits env then tc_deadline tc0 + paused_total ps
       else min (tc_deadline tc0 + paused_total ps) (tc_block_deadline tc0))"
    by auto
  have "to_int64 (now - tc_pseudo_start tc1) = Inr (now - tc_start tc - paused_total ps)"
    using tc1(3) total s assms(6) by (simp add: to_int64_def)
  then show ?thesis using tc1 by (auto simp: update_billed_cpu_time_def paused_total_def)
qed

section \<open>Duplicate transactions\<close>

text \<open>
  The table of recent transactions at a time of the pending block, and the ids of the transactions that were accepted so
  far, the last one first. The expiration of a transaction is part of what its id is the digest of; it is the function
  \<open>expires\<close> of the id. The time of a block is not before that of the previous one, and at the start of a block the
  expired entries are removed. Transactions are accepted with checks and recording.
\<close>

inductive accept_run :: "('k, 's) fc_lib \<Rightarrow> (digest_type \<Rightarrow> u32) \<Rightarrow> time_point \<Rightarrow> transaction_object list \<Rightarrow> digest_type list \<Rightarrow> bool"
  for fc expires where
  start: "accept_run fc expires t [] []"
| block: "accept_run fc expires t rows accepted \<Longrightarrow> t \<le> t' \<Longrightarrow>
    accept_run fc expires t' (clear_expired_input_transactions t' rows) accepted"
| input: "accept_run fc expires t rows accepted \<Longrightarrow> pending_block_time (env :: 'k trx_env) = t \<Longrightarrow> \<not> skip_trx_checks env \<Longrightarrow>
    db_transactions db = rows \<Longrightarrow> expiration trx = expires i \<Longrightarrow>
    init_for_input_trx_common fc env i trx u False expired tc db = Inr (tc', db') \<Longrightarrow>
    accept_run fc expires t (db_transactions db') (i # accepted)"

lemma init_common_records:
  assumes "init_for_input_trx_common fc env i trx u False expired tc db = Inr (tc', db')" "\<not> skip_trx_checks env"
  shows "validate_expiration env trx = Inr ()" "record_transaction i (expiration trx) (db_transactions db) = Inr (db_transactions db')"
proof -
  show "validate_expiration env trx = Inr ()"
    using assms by (simp add: init_for_input_trx_common_def Let_def rbind_eq_Inr_iff)
  show "record_transaction i (expiration trx) (db_transactions db) = Inr (db_transactions db')"
    using assms by (auto simp: init_for_input_trx_common_def Let_def rbind_eq_Inr_iff)
qed

text \<open>Every accepted transaction is in the table or has expired.\<close>

definition remembered :: "(digest_type \<Rightarrow> u32) \<Rightarrow> time_point \<Rightarrow> transaction_object list \<Rightarrow> digest_type list \<Rightarrow> bool" where
  "remembered expires t rows accepted \<longleftrightarrow>
     (\<forall>r \<in> set rows. to_expiration r = expires (to_trx_id r)) \<and>
     (\<forall>i \<in> set accepted. (\<exists>r \<in> set rows. to_trx_id r = i) \<or> time_of_sec (expires i) < t)"

lemma clear_expired_rows:
  "set (clear_expired_input_transactions t rows) \<subseteq> set rows"
  "r \<in> set rows \<Longrightarrow> r \<notin> set (clear_expired_input_transactions t rows) \<Longrightarrow> time_of_sec (to_expiration r) < t"
  by (induction t rows rule: clear_expired_input_transactions.induct) (auto split: if_splits)

lemma remembered_block:
  assumes "remembered expires t rows accepted" "t \<le> t'"
  shows "remembered expires t' (clear_expired_input_transactions t' rows) accepted"
  unfolding remembered_def
proof (intro conjI ballI)
  show "to_expiration r = expires (to_trx_id r)" if "r \<in> set (clear_expired_input_transactions t' rows)" for r
    using that assms(1) clear_expired_rows(1) by (fastforce simp: remembered_def)
  show "(\<exists>r \<in> set (clear_expired_input_transactions t' rows). to_trx_id r = i) \<or> time_of_sec (expires i) < t'"
    if i: "i \<in> set accepted" for i
  proof (cases "time_of_sec (expires i) < t")
    case True
    then show ?thesis using assms(2) by simp
  next
    case False
    then obtain r where r: "r \<in> set rows" "to_trx_id r = i" using assms(1) i by (auto simp: remembered_def)
    then have "to_expiration r = expires i" using assms(1) by (auto simp: remembered_def)
    then show ?thesis using r clear_expired_rows(2) [OF r(1), of t'] by auto
  qed
qed

lemma accept_run_remembered:
  assumes "accept_run fc expires t rows accepted"
  shows "remembered expires t rows accepted \<and> distinct accepted"
  using assms
proof induction
  case (start t)
  then show ?case by (simp add: remembered_def)
next
  case (block t rows accepted t')
  then show ?case using remembered_block by blast
next
  case (input t rows accepted env db trx i u expired tc tc' db')
  note ok = init_common_records [OF input.hyps(6,3)]
  have "t \<le> time_of_sec (expires i)" using ok(1) input.hyps(2,5) by (simp add: validate_expiration_def result_simps)
  moreover have new: "\<not> (\<exists>r \<in> set rows. to_trx_id r = i)"
    and rows: "db_transactions db' = insert_upper to_expiration \<lparr>to_expiration = expires i, to_trx_id = i\<rparr> rows"
    using ok(2) input.hyps(4,5) by (auto simp: record_transaction_def split: if_splits)
  ultimately have "i \<notin> set accepted" using input.IH by (force simp: remembered_def)
  then show ?case using input.IH by (auto simp: remembered_def rows)
qed

text \<open>
  C6: no transaction is accepted twice. The entry of a transaction is removed only when the time of the pending block is
  after its expiration, and from then on it is rejected as expired.
\<close>

theorem no_transaction_accepted_twice:
  assumes "accept_run fc expires t rows accepted"
  shows "distinct accepted"
  using accept_run_remembered [OF assms] by blast

section \<open>A sample transaction\<close>

definition sample_input :: transaction where
  "sample_input = sample_transaction\<lparr>expiration := 946684910,
     actions := [\<lparr>act_account = system_account_name, act_name = 7,
       act_authorization = [\<lparr>actor = system_account_name, permission = active_name\<rparr>], act_data = []\<rparr>]\<rparr>"

definition sample_trx_db :: "nat trx_db" where
  "sample_trx_db = \<lparr>db_native = sample_native, db_transactions = [], db_summaries = [1 \<mapsto> sample_reference]\<rparr>"

definition sample_context :: transaction_context where
  "sample_context = (new_transaction_context 946684900000000)\<lparr>tc_max_transaction_time_subjective := maximum_time,
     tc_published := 946684900000000, tc_is_input := True\<rparr>"

text \<open>The stages of the initialization of the sample.\<close>

lemma initI:
  assumes "\<not> tc_is_initialized tc" "init_objective_limits env rl trx tc = Inr tc0" "\<not> tc_explicit_billed_cpu_time tc0"
    and "tc1 = tc0\<lparr>tc_bill_to_accounts := billed_accounts env trx (tc_bill_to_accounts tc0)\<rparr>"
    and "update_account_usage (tc_bill_to_accounts tc1) (timestamp_of_time_point (pending_block_time env)) rl = Inr rl'"
    and "max_bandwidth_billed_accounts_can_pay env False rl' (tc_bill_to_accounts tc1) = Inr b"
    and "init_deadline env b tc1 = Inr tc2" "\<not> tc_explicit_billed_cpu_time tc2" "estimate_limit b tc2 = Inr l"
    and "validate_account_cpu_usage_estimate env (tc_billed_cpu_time_us tc2) l tc2 = Inr ()"
    and "init_net_usage u tc2 = Inr tc3" "init_timer env expired tc3 = Inr tc4"
  shows "trx_init env trx u expired tc rl = Inr (tc4\<lparr>tc_is_initialized := True\<rparr>, rl')"
  using assms by (simp add: trx_init_def)

definition sample_tc0 :: transaction_context where
  "sample_tc0 = projr (init_objective_limits sample_trx_env (ns_resources sample_native) sample_input sample_context)"

definition sample_tc1 :: transaction_context where
  "sample_tc1 = sample_tc0\<lparr>tc_bill_to_accounts := [system_account_name]\<rparr>"

definition sample_rl :: resource_db where
  "sample_rl = projr (update_account_usage [system_account_name] 200 (ns_resources sample_native))"

definition sample_bandwidth :: bandwidth where
  "sample_bandwidth = \<lparr>account_net_limit = large_number_no_overflow, account_cpu_limit = large_number_no_overflow,
     greylisted_net = False, greylisted_cpu = False\<rparr>"

definition sample_tc2 :: transaction_context where
  "sample_tc2 = projr (init_deadline sample_trx_env sample_bandwidth sample_tc1)"

definition sample_estimate :: int where
  "sample_estimate = projr (estimate_limit sample_bandwidth sample_tc2)"

definition sample_tc3 :: transaction_context where
  "sample_tc3 = projr (init_net_usage 100 sample_tc2)"

definition sample_tc4 :: transaction_context where
  "sample_tc4 = sample_tc3\<lparr>tc_timer := Some (tc_deadline sample_tc3), tc_is_initialized := True\<rparr>"

lemma sample_usage_updated: "\<not> isl (update_account_usage [system_account_name] 200 (ns_resources sample_native))"
  by code_simp

lemma sample_bandwidth_value: "max_bandwidth_billed_accounts_can_pay sample_trx_env False sample_rl [system_account_name] = Inr sample_bandwidth"
  by code_simp

lemma sample_objective: "\<not> isl (init_objective_limits sample_trx_env (ns_resources sample_native) sample_input sample_context)"
  by code_simp

lemma sample_deadline: "\<not> isl (init_deadline sample_trx_env sample_bandwidth sample_tc1)"
  by code_simp

lemma sample_estimated: "\<not> isl (estimate_limit sample_bandwidth sample_tc2)"
  by code_simp

lemma sample_net_added: "\<not> isl (init_net_usage 100 sample_tc2)"
  by code_simp

lemma sample_estimate_fits: "\<not> isl (validate_account_cpu_usage_estimate sample_trx_env (tc_billed_cpu_time_us sample_tc2) sample_estimate sample_tc2)"
  by code_simp

lemma sample_time_not_given: "\<not> tc_explicit_billed_cpu_time sample_tc0" "\<not> tc_explicit_billed_cpu_time sample_tc2"
  by code_simp+

lemma sample_billed: "billed_accounts sample_trx_env sample_input (tc_bill_to_accounts sample_tc0) = [system_account_name]"
  by code_simp

lemma sample_slot: "timestamp_of_time_point (pending_block_time sample_trx_env) = 200"
  by code_simp

lemma sample_checked: "\<not> skip_trx_checks sample_trx_env"
  by code_simp

lemma isr_Inr: "\<not> isl r \<Longrightarrow> r = Inr (projr r)"
  by (simp add: sum.collapse(2))

lemma isr_unitE: "\<not> isl (r :: (chain_exception, unit) result) \<Longrightarrow> (r = Inr () \<Longrightarrow> P) \<Longrightarrow> P"
  by (cases r) auto

lemmas sample_stages = sample_objective [THEN isr_Inr, folded sample_tc0_def] sample_usage_updated [THEN isr_Inr, folded sample_rl_def]
  sample_deadline [THEN isr_Inr, folded sample_tc2_def] sample_estimated [THEN isr_Inr, folded sample_estimate_def]
  sample_net_added [THEN isr_Inr, folded sample_tc3_def]

lemma sample_init:
  "trx_init sample_trx_env sample_input 100 False sample_context (ns_resources sample_native) = Inr (sample_tc4, sample_rl)"
proof -
  have timer: "init_timer sample_trx_env False sample_tc3 = Inr (sample_tc3\<lparr>tc_timer := Some (tc_deadline sample_tc3)\<rparr>)"
    using sample_checked by (simp add: init_timer_def checktime_def)
  have "sample_tc1 = sample_tc0\<lparr>tc_bill_to_accounts := billed_accounts sample_trx_env sample_input (tc_bill_to_accounts sample_tc0)\<rparr>"
    unfolding sample_billed sample_tc1_def ..
  moreover have "tc_bill_to_accounts sample_tc1 = [system_account_name]" "\<not> tc_is_initialized sample_context"
    by (simp_all add: sample_tc1_def sample_context_def new_transaction_context_def)
  moreover have "validate_account_cpu_usage_estimate sample_trx_env (tc_billed_cpu_time_us sample_tc2) sample_estimate sample_tc2 = Inr ()"
    using sample_estimate_fits by (rule isr_unitE)
  ultimately show ?thesis
    unfolding sample_tc4_def
    using initI [OF _ sample_stages(1) sample_time_not_given(1) _ _ _ sample_stages(3) sample_time_not_given(2) sample_stages(4)
        _ sample_stages(5) timer] sample_stages(2) sample_bandwidth_value sample_slot
    by simp
qed

lemma sample_finalize: "\<not> isl (finalize sample_trx_env sample_input 946684900000500 sample_tc4 sample_native)"
  by code_simp

theorem billed_within_limits_witness:
  "\<exists>tc2 s2. finalize sample_trx_env sample_input 946684900000500 sample_tc4 sample_native = Inr (tc2, s2) \<and>
     unat (tc_net_usage tc2) = ceil_div (unat (tc_net_usage sample_tc4)) 8 * 8 \<and>
     tc_net_usage tc2 \<le> trx_net_limit sample_trx_env (ns_resources sample_native) sample_input"
proof -
  obtain tc2 s2 where f: "finalize sample_trx_env sample_input 946684900000500 sample_tc4 sample_native = Inr (tc2, s2)"
    using sample_finalize by (metis surj_pair sum.collapse(2))
  have "tc_net_usage sample_context = 0" "\<not> tc_explicit_net_usage sample_context"
    by (simp_all add: sample_context_def new_transaction_context_def)
  with billed_within_limits [OF sample_init _ trx_run.start f] f show ?thesis by blast
qed

theorem paused_time_not_billed_witness:
  "\<exists>tc1 tc2. run_pauses sample_trx_env [(946684900000100, 946684900000200), (946684900000300, 946684900000310)] sample_tc4 = Inr tc1 \<and>
     update_billed_cpu_time sample_trx_env 946684900000500 tc1 = Inr tc2 \<and> tc_billed_cpu_time_us tc2 = 390"
proof -
  have c: "\<not> tc_explicit_billed_cpu_time sample_context" "tc_start sample_context = 946684900000000"
    "tc_pseudo_start sample_context = 946684900000000" "tc_block_deadline sample_context = maximum_time"
    "tc_max_transaction_time_subjective sample_context = maximum_time" "0 \<le> maximum_time"
    by (simp_all add: sample_context_def new_transaction_context_def maximum_time_def)
  have "cfg_min_transaction_cpu_usage sample_trx_env = 100" by code_simp
  with paused_time_not_billed [OF sample_init, of "[(946684900000100, 946684900000200), (946684900000300, 946684900000310)]"
      946684900000500] c show ?thesis by auto
qed

theorem no_transaction_accepted_twice_witness:
  "\<exists>rows. accept_run sample_fc (\<lambda>_. 946684910) 946684900000000 rows [digest_of 9] \<and> distinct [digest_of 9]"
proof -
  have v: "\<not> isl (validate_expiration sample_trx_env sample_input)" "\<not> isl (validate_tapos sample_fc [1 \<mapsto> sample_reference] sample_input)"
    "\<not> isl (validate_referenced_accounts sample_trx_env sample_native sample_input False)" "\<not> is_producing_block sample_trx_env"
    "pending_block_time sample_trx_env = 946684900000000" "expiration sample_input = 946684910"
    by code_simp+
  have "sample_context\<lparr>tc_published := 946684900000000, tc_is_input := True\<rparr> = sample_context"
    by (simp add: sample_context_def new_transaction_context_def)
  then have "init_for_input_trx_common sample_fc sample_trx_env (digest_of 9) sample_input 100 False False sample_context sample_trx_db =
      Inr (sample_tc4, sample_trx_db\<lparr>db_native := sample_native\<lparr>ns_resources := sample_rl\<rparr>,
        db_transactions := [\<lparr>to_expiration = 946684910, to_trx_id = digest_of 9\<rparr>]\<rparr>)"
    using v sample_init sample_checked
    by (auto simp: init_for_input_trx_common_def sample_trx_db_def record_transaction_def insert_upper_def Let_def elim!: isr_unitE)
  from accept_run.input [OF accept_run.start [of sample_fc "\<lambda>_. 946684910" 946684900000000] v(5) sample_checked _ _ this]
  have "accept_run sample_fc (\<lambda>_. 946684910) 946684900000000 [\<lparr>to_expiration = 946684910, to_trx_id = digest_of 9\<rparr>] [digest_of 9]"
    using v(6) by (simp add: sample_trx_db_def)
  with no_transaction_accepted_twice [OF this] show ?thesis by blast
qed

end
