(* ===== verification/Unapplied_Transaction_Queue.thy ===== *)
theory Unapplied_Transaction_Queue
  imports Ordered_Index "HOL-Library.Multiset"
begin

text \<open>
  The queue of transactions that are waiting for execution (\<^verbatim>\<open>unapplied_transaction_queue.hpp\<close>). The container has three
  indices over the same rows: the unique one by transaction id, and the ordered ones by type and by expiry, of which each
  is a list of the rows in its order. Calls of the stored functions \<^verbatim>\<open>next\<close> and of the call-back of \<^verbatim>\<open>clear_expired\<close> are
  collected as events in the order in which they are made. The size of a row in memory, a constant of the compiler, is the
  argument \<open>row_size\<close>, and the readings of the clock in \<^verbatim>\<open>clear_expired\<close> are a function of the number of the reading.
\<close>

section \<open>Rows\<close>

datatype trx_enum_type = Unknown | Persisted | Forked | Aborted | Incoming_persisted | Incoming

primrec trx_enum_value :: "trx_enum_type \<Rightarrow> nat" where
  "trx_enum_value Unknown = 0"
| "trx_enum_value Persisted = 1"
| "trx_enum_value Forked = 2"
| "trx_enum_value Aborted = 3"
| "trx_enum_value Incoming_persisted = 4"
| "trx_enum_value Incoming = 5"

lemma trx_enum_value_inject: "trx_enum_value s = trx_enum_value t \<longleftrightarrow> s = t"
  by (cases s; cases t) simp_all

instantiation trx_enum_type :: linorder
begin

definition less_eq_trx_enum_type :: "trx_enum_type \<Rightarrow> trx_enum_type \<Rightarrow> bool" where
  "less_eq_trx_enum_type s t \<longleftrightarrow> trx_enum_value s \<le> trx_enum_value t"

definition less_trx_enum_type :: "trx_enum_type \<Rightarrow> trx_enum_type \<Rightarrow> bool" where
  "less_trx_enum_type s t \<longleftrightarrow> trx_enum_value s < trx_enum_value t"

instance
  by standard (auto simp: less_eq_trx_enum_type_def less_trx_enum_type_def trx_enum_value_inject)

end

text \<open>A pointer to metadata with what the queue reads through it; \<open>tm_pointer\<close> is the address.\<close>

record transaction_metadata =
  tm_pointer :: nat
  tm_id :: nat
  tm_expiration :: time_point
  tm_estimated_size :: u32

record unapplied_transaction =
  trx_meta :: transaction_metadata
  expiry :: time_point
  trx_type :: trx_enum_type
  return_failure_trace :: bool
  has_next :: bool

definition row_id :: "unapplied_transaction \<Rightarrow> nat" where
  "row_id r = tm_id (trx_meta r)"

datatype queue_event = Callback nat trx_enum_type | Next nat chain_exception

record unapplied_transaction_queue =
  by_type :: "unapplied_transaction list"
  by_expiry :: "unapplied_transaction list"
  max_transaction_queue_size :: u64
  size_in_bytes :: u64
  incoming_count :: u64

definition empty_queue :: unapplied_transaction_queue where
  "empty_queue = \<lparr>by_type = [], by_expiry = [], max_transaction_queue_size = 1024 * 1024 * 1024, size_in_bytes = 0,
     incoming_count = 0\<rparr>"

section \<open>The container\<close>

definition find_trx :: "nat \<Rightarrow> unapplied_transaction_queue \<Rightarrow> unapplied_transaction option" where
  "find_trx i q = find (\<lambda>r. row_id r = i) (by_type q)"

definition queue_insert :: "unapplied_transaction \<Rightarrow> unapplied_transaction_queue \<Rightarrow> bool \<times> unapplied_transaction_queue" where
  "queue_insert r q =
     (if find_trx (row_id r) q \<noteq> None then (False, q)
      else (True, q\<lparr>by_type := insert_upper trx_type r (by_type q), by_expiry := insert_upper expiry r (by_expiry q)\<rparr>))"

definition drop_row :: "nat \<Rightarrow> unapplied_transaction list \<Rightarrow> unapplied_transaction list" where
  "drop_row i rs = filter (\<lambda>r. row_id r \<noteq> i) rs"

definition queue_erase :: "nat \<Rightarrow> unapplied_transaction_queue \<Rightarrow> unapplied_transaction_queue" where
  "queue_erase i q = q\<lparr>by_type := drop_row i (by_type q), by_expiry := drop_row i (by_expiry q)\<rparr>"

text \<open>
  Changing the type of a row to \<open>Persisted\<close>, which is only done to rows of a later type, moves it behind the persisted
  rows in the index by type, also when it could stay because it is there already.
\<close>

definition make_persisted :: "unapplied_transaction \<Rightarrow> unapplied_transaction_queue \<Rightarrow> unapplied_transaction_queue" where
  "make_persisted r q =
     (let r' = r\<lparr>trx_type := Persisted\<rparr> in
      q\<lparr>by_type := insert_upper trx_type r' (drop_row (row_id r) (by_type q)),
        by_expiry := map (\<lambda>s. if row_id s = row_id r then r' else s) (by_expiry q)\<rparr>)"

section \<open>Operations\<close>

definition is_incoming :: "trx_enum_type \<Rightarrow> bool" where
  "is_incoming t \<longleftrightarrow> t = Incoming \<or> t = Incoming_persisted"

definition calc_size :: "u64 \<Rightarrow> transaction_metadata \<Rightarrow> u64" where
  "calc_size row_size m = row_size + ucast (tm_estimated_size m)"

definition added :: "u64 \<Rightarrow> unapplied_transaction \<Rightarrow> unapplied_transaction_queue \<Rightarrow>
    unapplied_transaction_queue \<times> (chain_exception, unit) result" where
  "added row_size r q =
     (let size = calc_size row_size (trx_meta r) in
      if is_incoming (trx_type r) then
        let q = q\<lparr>incoming_count := incoming_count q + 1\<rparr> in
        if size_in_bytes q + size < max_transaction_queue_size q
        then (q\<lparr>size_in_bytes := size_in_bytes q + size\<rparr>, Inr ())
        else (q, Inl (Trx_error Tx_resource_exhaustion))
      else (q\<lparr>size_in_bytes := size_in_bytes q + size\<rparr>, Inr ()))"

definition removed :: "u64 \<Rightarrow> unapplied_transaction \<Rightarrow> unapplied_transaction_queue \<Rightarrow> unapplied_transaction_queue" where
  "removed row_size r q =
     (let q = (if is_incoming (trx_type r) then q\<lparr>incoming_count := incoming_count q - 1\<rparr> else q) in
      q\<lparr>size_in_bytes := size_in_bytes q - calc_size row_size (trx_meta r)\<rparr>)"

definition set_max_transaction_queue_size :: "u64 \<Rightarrow> unapplied_transaction_queue \<Rightarrow> unapplied_transaction_queue" where
  "set_max_transaction_queue_size v q = q\<lparr>max_transaction_queue_size := v\<rparr>"

definition queue_empty :: "unapplied_transaction_queue \<Rightarrow> bool" where
  "queue_empty q \<longleftrightarrow> by_type q = []"

definition queue_size :: "unapplied_transaction_queue \<Rightarrow> nat" where
  "queue_size q = length (by_type q)"

definition queue_clear :: "unapplied_transaction_queue \<Rightarrow> unapplied_transaction_queue" where
  "queue_clear q = q\<lparr>by_type := [], by_expiry := []\<rparr>"

definition incoming_size :: "unapplied_transaction_queue \<Rightarrow> u64" where
  "incoming_size q = incoming_count q"

definition get_trx :: "nat \<Rightarrow> unapplied_transaction_queue \<Rightarrow> transaction_metadata option" where
  "get_trx i q = map_option trx_meta (find_trx i q)"

function clear_expired :: "u64 \<Rightarrow> time_point \<Rightarrow> time_point \<Rightarrow> (nat \<Rightarrow> time_point) \<Rightarrow> nat \<Rightarrow> unapplied_transaction_queue \<Rightarrow>
    bool \<times> unapplied_transaction_queue \<times> queue_event list" where
  "clear_expired row_size pending_block_time deadline now k q =
     (case by_expiry q of
        [] \<Rightarrow> (True, q, [])
      | r # _ \<Rightarrow>
          if pending_block_time < expiry r then (True, q, [])
          else if deadline \<le> now k then (False, q, [])
          else
            let (ok, q', events) = clear_expired row_size pending_block_time deadline now (k + 1)
              (queue_erase (row_id r) (removed row_size r q)) in
            (ok, q', Callback (row_id r) (trx_type r) #
               (if has_next r then [Next (row_id r) (Trx_error Expired_tx_exception)] else []) @ events))"
  by pat_completeness auto
termination
  by (relation "measure (\<lambda>(_, _, _, _, _, q). length (by_expiry q))")
    (auto simp: queue_erase_def removed_def drop_row_def Let_def length_filter_le le_imp_less_Suc)

declare clear_expired.simps [simp del]

text \<open>A receipt of a block holds the packed transaction or, for a deferred one, only its id.\<close>

datatype receipt_trx = Receipt_id nat | Receipt_packed nat

fun clear_applied_loop :: "u64 \<Rightarrow> receipt_trx list \<Rightarrow> unapplied_transaction_queue \<Rightarrow> unapplied_transaction_queue \<times> queue_event list" where
  "clear_applied_loop row_size [] q = (q, [])"
| "clear_applied_loop row_size (Receipt_id i # receipts) q = clear_applied_loop row_size receipts q"
| "clear_applied_loop row_size (Receipt_packed i # receipts) q =
     (case find_trx i q of
        None \<Rightarrow> clear_applied_loop row_size receipts q
      | Some r \<Rightarrow>
          let (q', events) = clear_applied_loop row_size receipts (queue_erase i (removed row_size r q)) in
          (q', (if has_next r then [Next i (Trx_error Tx_duplicate)] else []) @ events))"

definition clear_applied :: "u64 \<Rightarrow> receipt_trx list \<Rightarrow> unapplied_transaction_queue \<Rightarrow> unapplied_transaction_queue \<times> queue_event list" where
  "clear_applied row_size receipts q = (if queue_empty q then (q, []) else clear_applied_loop row_size receipts q)"

definition add_row :: "u64 \<Rightarrow> unapplied_transaction \<Rightarrow> unapplied_transaction_queue \<Rightarrow>
    unapplied_transaction_queue \<times> (chain_exception, unit) result" where
  "add_row row_size r q = (let (inserted, q) = queue_insert r q in if inserted then added row_size r q else (q, Inr ()))"

definition new_row :: "trx_enum_type \<Rightarrow> transaction_metadata \<Rightarrow> unapplied_transaction" where
  "new_row t m = \<lparr>trx_meta = m, expiry = tm_expiration m, trx_type = t, return_failure_trace = False, has_next = False\<rparr>"

text \<open>The branch is given by the transactions of its blocks, in reverse order of the blocks.\<close>

definition add_forked :: "u64 \<Rightarrow> transaction_metadata list list \<Rightarrow> unapplied_transaction_queue \<Rightarrow> unapplied_transaction_queue" where
  "add_forked row_size forked_branch q = fold (\<lambda>m q. fst (add_row row_size (new_row Forked m) q)) (concat (rev forked_branch)) q"

definition add_aborted :: "u64 \<Rightarrow> transaction_metadata list \<Rightarrow> unapplied_transaction_queue \<Rightarrow> unapplied_transaction_queue" where
  "add_aborted row_size aborted_trxs q = fold (\<lambda>m q. fst (add_row row_size (new_row Aborted m) q)) aborted_trxs q"

definition add_persisted :: "u64 \<Rightarrow> transaction_metadata \<Rightarrow> unapplied_transaction_queue \<Rightarrow> unapplied_transaction_queue" where
  "add_persisted row_size m q =
     (case find_trx (tm_id m) q of
        None \<Rightarrow> fst (add_row row_size (new_row Persisted m) q)
      | Some r \<Rightarrow>
          if trx_type r \<noteq> Persisted then
            make_persisted r (if is_incoming (trx_type r) then q\<lparr>incoming_count := incoming_count q - 1\<rparr> else q)
          else q)"

definition add_incoming :: "u64 \<Rightarrow> transaction_metadata \<Rightarrow> bool \<Rightarrow> bool \<Rightarrow> bool \<Rightarrow> unapplied_transaction_queue \<Rightarrow>
    unapplied_transaction_queue \<times> (chain_exception, queue_event list) result" where
  "add_incoming row_size m persist_until_expired failure_trace nxt q =
     (case find_trx (tm_id m) q of
        None \<Rightarrow>
          (case add_row row_size \<lparr>trx_meta = m, expiry = tm_expiration m,
                trx_type = (if persist_until_expired then Incoming_persisted else Incoming),
                return_failure_trace = failure_trace, has_next = nxt\<rparr> q of
             (q', Inr _) \<Rightarrow> (q', Inr [])
           | (q', Inl e) \<Rightarrow> (q', Inl e))
      | Some r \<Rightarrow>
          if tm_pointer (trx_meta r) = tm_pointer m then (q, Inr [])
          else (q, Inr (if nxt then [Next (tm_id m) (Trx_error Tx_duplicate)] else [])))"

text \<open>The ranges of the index by type that the iterators delimit.\<close>

definition unapplied_range :: "unapplied_transaction_queue \<Rightarrow> unapplied_transaction list" where
  "unapplied_range q = takeWhile (\<lambda>r. trx_type r \<le> Aborted) (by_type q)"

definition persisted_range :: "unapplied_transaction_queue \<Rightarrow> unapplied_transaction list" where
  "persisted_range q = takeWhile (\<lambda>r. trx_type r \<le> Persisted) (dropWhile (\<lambda>r. trx_type r < Persisted) (by_type q))"

definition incoming_range :: "unapplied_transaction_queue \<Rightarrow> unapplied_transaction list" where
  "incoming_range q = dropWhile (\<lambda>r. trx_type r < Incoming_persisted) (by_type q)"

text \<open>Erasing through an iterator returns the following position, here the rows from it on.\<close>

definition erase :: "u64 \<Rightarrow> unapplied_transaction \<Rightarrow> unapplied_transaction_queue \<Rightarrow> unapplied_transaction_queue \<times> unapplied_transaction list" where
  "erase row_size r q =
     (queue_erase (row_id r) (removed row_size r q), tl (dropWhile (\<lambda>s. row_id s \<noteq> row_id r) (by_type q)))"

section \<open>The order of the rows\<close>

definition rows_ok :: "unapplied_transaction_queue \<Rightarrow> bool" where
  "rows_ok q \<longleftrightarrow>
     mset (by_type q) = mset (by_expiry q) \<and> distinct (map row_id (by_type q)) \<and>
     sorted (map trx_type (by_type q)) \<and> sorted (map expiry (by_expiry q)) \<and>
     (\<forall>r \<in> set (by_type q). expiry r = tm_expiration (trx_meta r))"

definition total_size :: "u64 \<Rightarrow> unapplied_transaction multiset \<Rightarrow> u64" where
  "total_size row_size M = (\<Sum>r\<in>#M. calc_size row_size (trx_meta r))"

definition counts_ok :: "u64 \<Rightarrow> unapplied_transaction_queue \<Rightarrow> bool" where
  "counts_ok row_size q \<longleftrightarrow>
     size_in_bytes q = total_size row_size (mset (by_type q)) \<and>
     incoming_count q = of_nat (size (filter_mset (\<lambda>r. is_incoming (trx_type r)) (mset (by_type q))))"

lemma mset_insert_upper [simp]: "mset (insert_upper f x xs) = add_mset x (mset xs)"
proof -
  have "mset xs = mset (takeWhile (\<lambda>y. f y \<le> f x) xs) + mset (dropWhile (\<lambda>y. f y \<le> f x) xs)"
    by (metis mset_append takeWhile_dropWhile_id)
  then show ?thesis by (simp add: insert_upper_def)
qed

lemma mset_drop_row:
  assumes "distinct (map row_id rs)" "r \<in> set rs"
  shows "mset rs = add_mset r (mset (drop_row (row_id r) rs))"
  using assms
proof (induction rs)
  case (Cons s rs)
  have "drop_row (row_id r) rs = rs" if "row_id r \<notin> row_id ` set rs"
    using that by (simp add: drop_row_def filter_id_conv) (metis image_eqI)
  with Cons show ?case by (cases "s = r") (auto simp: drop_row_def)
qed simp

lemma rows_ok_distinct_by_expiry:
  assumes "rows_ok q"
  shows "distinct (map row_id (by_expiry q))"
proof -
  have "mset (map row_id (by_expiry q)) = mset (map row_id (by_type q))" using assms by (simp add: rows_ok_def)
  then show ?thesis using assms by (metis mset_eq_imp_distinct_iff rows_ok_def)
qed

lemma set_by_expiry: "rows_ok q \<Longrightarrow> set (by_expiry q) = set (by_type q)"
  by (metis mset_eq_setD rows_ok_def)

lemma find_trx_Some:
  assumes "find_trx i q = Some r"
  shows "r \<in> set (by_type q)" "row_id r = i"
  using assms by (auto simp: find_trx_def find_Some_iff)

lemma find_trx_None: "find_trx i q = None \<longleftrightarrow> i \<notin> row_id ` set (by_type q)"
  by (auto simp: find_trx_def find_None_iff)

section \<open>Steps\<close>

text \<open>The counters do not occur in the container.\<close>

lemma removed_simps [simp]:
  "by_type (removed row_size r q) = by_type q" "by_expiry (removed row_size r q) = by_expiry q"
  "max_transaction_queue_size (removed row_size r q) = max_transaction_queue_size q"
  by (simp_all add: removed_def Let_def)

lemma added_simps [simp]:
  "by_type (fst (added row_size r q)) = by_type q" "by_expiry (fst (added row_size r q)) = by_expiry q"
  by (simp_all add: added_def Let_def)

definition erase_row :: "u64 \<Rightarrow> unapplied_transaction \<Rightarrow> unapplied_transaction_queue \<Rightarrow> unapplied_transaction_queue" where
  "erase_row row_size r q = queue_erase (row_id r) (removed row_size r q)"

lemma erase_row_simps [simp]:
  "by_type (erase_row row_size r q) = drop_row (row_id r) (by_type q)"
  "by_expiry (erase_row row_size r q) = drop_row (row_id r) (by_expiry q)"
  by (simp_all add: erase_row_def queue_erase_def)

lemma sorted_drop_row: "sorted (map f rs) \<Longrightarrow> sorted (map f (drop_row i rs))"
  by (auto simp: drop_row_def sorted_filter)

lemma distinct_drop_row: "distinct (map row_id rs) \<Longrightarrow> distinct (map row_id (drop_row i rs))"
  by (auto simp: drop_row_def distinct_map_filter)

lemma erase_row_rows:
  assumes "rows_ok q" "r \<in> set (by_type q)"
  shows "rows_ok (erase_row row_size r q)"
proof -
  have d: "distinct (map row_id (by_type q))" "distinct (map row_id (by_expiry q))" "r \<in> set (by_expiry q)"
    "mset (by_type q) = mset (by_expiry q)"
    using assms rows_ok_distinct_by_expiry [OF assms(1)] set_by_expiry [OF assms(1)] by (auto simp: rows_ok_def)
  have "mset (drop_row (row_id r) (by_type q)) = mset (drop_row (row_id r) (by_expiry q))"
    using mset_drop_row [OF d(1) assms(2)] mset_drop_row [OF d(2,3)] d(4) by (metis add_mset_remove_trivial)
  moreover have "set (drop_row (row_id r) (by_type q)) \<subseteq> set (by_type q)" by (auto simp: drop_row_def)
  ultimately show ?thesis
    using assms(1) unfolding rows_ok_def erase_row_simps by (blast intro: sorted_drop_row distinct_drop_row)
qed

lemma erase_row_counts:
  assumes "rows_ok q" "r \<in> set (by_type q)" "counts_ok row_size q"
  shows "counts_ok row_size (erase_row row_size r q)"
proof -
  have m: "mset (by_type q) = add_mset r (mset (drop_row (row_id r) (by_type q)))"
    using assms by (intro mset_drop_row) (simp_all add: rows_ok_def)
  show ?thesis
    using assms(3) by (auto simp: counts_ok_def m total_size_def erase_row_def queue_erase_def removed_def Let_def)
qed

lemma add_row_new:
  assumes "rows_ok q" "find_trx (row_id r) q = None" "expiry r = tm_expiration (trx_meta r)"
  shows "rows_ok (fst (add_row row_size r q))"
    "snd (add_row row_size r q) = Inr () \<Longrightarrow> counts_ok row_size q \<Longrightarrow> counts_ok row_size (fst (add_row row_size r q))"
    "mset (by_type (fst (add_row row_size r q))) = add_mset r (mset (by_type q))"
proof -
  define q' where "q' = q\<lparr>by_type := insert_upper trx_type r (by_type q), by_expiry := insert_upper expiry r (by_expiry q)\<rparr>"
  have a: "add_row row_size r q = added row_size r q'"
    using assms(2) by (simp add: add_row_def queue_insert_def q'_def)
  have "distinct (map row_id (insert_upper trx_type r (by_type q)))"
  proof -
    have "mset (map row_id (insert_upper trx_type r (by_type q))) = mset (row_id r # map row_id (by_type q))" by simp
    from mset_eq_imp_distinct_iff [OF this] show ?thesis
      using assms(1,2) by (simp add: rows_ok_def find_trx_None)
  qed
  moreover have "set (insert_upper trx_type r (by_type q)) = insert r (set (by_type q))"
    by (metis mset_insert_upper set_mset_add_mset_insert set_mset_mset)
  ultimately have "rows_ok q'"
    using assms(1,3) by (simp add: rows_ok_def q'_def sorted_insert_upper)
  then show "rows_ok (fst (add_row row_size r q))" by (simp add: a rows_ok_def)
  show "mset (by_type (fst (add_row row_size r q))) = add_mset r (mset (by_type q))" by (simp add: a q'_def)
  show "counts_ok row_size (fst (add_row row_size r q))" if "snd (add_row row_size r q) = Inr ()" "counts_ok row_size q"
    using that unfolding a
    by (auto simp: added_def Let_def counts_ok_def q'_def total_size_def split: if_splits)
qed

lemma add_row_old: "find_trx (row_id r) q \<noteq> None \<Longrightarrow> add_row row_size r q = (q, Inr ())"
  by (simp add: add_row_def queue_insert_def)

lemma add_row_unbounded: "\<not> is_incoming (trx_type r) \<Longrightarrow> snd (add_row row_size r q) = Inr ()"
  by (simp add: add_row_def added_def queue_insert_def Let_def)

lemma make_persisted_rows:
  assumes "rows_ok q" "r \<in> set (by_type q)"
  shows "rows_ok (make_persisted r q)"
    "mset (by_type (make_persisted r q)) = add_mset (r\<lparr>trx_type := Persisted\<rparr>) (mset (drop_row (row_id r) (by_type q)))"
proof -
  define r' where "r' = r\<lparr>trx_type := Persisted\<rparr>"
  have r': "row_id r' = row_id r" "expiry r' = expiry r" "trx_meta r' = trx_meta r" by (simp_all add: r'_def row_id_def)
  let ?swap = "\<lambda>s. if row_id s = row_id r then r' else s"
  show m: "mset (by_type (make_persisted r q)) = add_mset (r\<lparr>trx_type := Persisted\<rparr>) (mset (drop_row (row_id r) (by_type q)))"
    by (simp add: make_persisted_def Let_def)
  have t: "mset (by_type q) = add_mset r (mset (drop_row (row_id r) (by_type q)))"
    using assms by (intro mset_drop_row) (simp_all add: rows_ok_def)
  have "image_mset ?swap (mset (drop_row (row_id r) (by_type q))) = mset (drop_row (row_id r) (by_type q))"
    by (intro multiset.map_ident_strong) (auto simp: drop_row_def)
  then have "image_mset ?swap (mset (by_type q)) = mset (by_type (make_persisted r q))"
    unfolding m t by (simp add: r'_def)
  moreover have "mset (by_expiry q) = mset (by_type q)" using assms(1) by (simp add: rows_ok_def)
  ultimately have e: "mset (by_expiry (make_persisted r q)) = mset (by_type (make_persisted r q))"
    by (simp add: make_persisted_def Let_def flip: r'_def)
  have i: "map row_id (map ?swap (by_expiry q)) = map row_id (by_expiry q)" by (auto simp: r')
  have "\<forall>s \<in> set (by_expiry q). row_id s = row_id r \<longrightarrow> s = r"
    using assms rows_ok_distinct_by_expiry set_by_expiry by (metis distinct_map inj_onD)
  then have x: "map expiry (map ?swap (by_expiry q)) = map expiry (by_expiry q)" by (auto simp: r')
  have b: "by_expiry (make_persisted r q) = map ?swap (by_expiry q)"
    "by_type (make_persisted r q) = insert_upper trx_type r' (drop_row (row_id r) (by_type q))"
    by (simp_all add: make_persisted_def Let_def r'_def)
  have "mset (map row_id (by_type (make_persisted r q))) = mset (map row_id (by_expiry (make_persisted r q)))"
    unfolding mset_map e ..
  then have "distinct (map row_id (by_type (make_persisted r q)))"
    using rows_ok_distinct_by_expiry [OF assms(1)] mset_eq_imp_distinct_iff i unfolding b(1) by metis
  moreover have "sorted (map trx_type (by_type (make_persisted r q)))" "sorted (map expiry (by_expiry (make_persisted r q)))"
    using assms(1) by (simp_all only: b x rows_ok_def) (blast intro: sorted_insert_upper sorted_drop_row)
  moreover have "set (by_type (make_persisted r q)) \<subseteq> insert r' (set (by_type q))"
  proof -
    have "set_mset (mset (by_type (make_persisted r q))) \<subseteq> insert r' (set (by_type q))"
      unfolding m by (auto simp: r'_def drop_row_def)
    then show ?thesis by simp
  qed
  moreover have "\<forall>s \<in> insert r' (set (by_type q)). expiry s = tm_expiration (trx_meta s)"
    using assms by (auto simp: rows_ok_def r')
  ultimately show "rows_ok (make_persisted r q)"
    unfolding rows_ok_def using e by fastforce
qed

section \<open>Reachable queues\<close>

text \<open>
  The states of the queue, with a flag that is lost when the queue is cleared as a whole or an incoming transaction is
  rejected for its size.
\<close>

inductive queue_run :: "u64 \<Rightarrow> bool \<Rightarrow> unapplied_transaction_queue \<Rightarrow> bool" for row_size where
  start: "queue_run row_size True empty_queue"
| limit: "queue_run row_size c q \<Longrightarrow> queue_run row_size c (set_max_transaction_queue_size v q)"
| persisted: "queue_run row_size c q \<Longrightarrow> queue_run row_size c (add_persisted row_size m q)"
| forked: "queue_run row_size c q \<Longrightarrow> queue_run row_size c (add_forked row_size branch q)"
| aborted: "queue_run row_size c q \<Longrightarrow> queue_run row_size c (add_aborted row_size ms q)"
| incoming: "queue_run row_size c q \<Longrightarrow> add_incoming row_size m p f n q = (q', res) \<Longrightarrow> queue_run row_size (c \<and> \<not> isl res) q'"
| expired: "queue_run row_size c q \<Longrightarrow> clear_expired row_size pending_time deadline now k q = (ok, q', events) \<Longrightarrow>
    queue_run row_size c q'"
| applied: "queue_run row_size c q \<Longrightarrow> clear_applied row_size receipts q = (q', events) \<Longrightarrow> queue_run row_size c q'"
| erased: "queue_run row_size c q \<Longrightarrow> r \<in> set (by_type q) \<Longrightarrow> erase row_size r q = (q', rest) \<Longrightarrow> queue_run row_size c q'"
| cleared: "queue_run row_size c q \<Longrightarrow> queue_run row_size False (queue_clear q)"

text \<open>What every state satisfies.\<close>

definition trx_queue_ok :: "u64 \<Rightarrow> bool \<Rightarrow> unapplied_transaction_queue \<Rightarrow> bool" where
  "trx_queue_ok row_size c q \<longleftrightarrow> rows_ok q \<and> (c \<longrightarrow> counts_ok row_size q)"

lemma trx_queue_ok_erase_row: "trx_queue_ok row_size c q \<Longrightarrow> r \<in> set (by_type q) \<Longrightarrow> trx_queue_ok row_size c (erase_row row_size r q)"
  by (simp add: trx_queue_ok_def erase_row_rows erase_row_counts)

lemma trx_queue_ok_add_row:
  assumes "trx_queue_ok row_size c q" "expiry r = tm_expiration (trx_meta r)" "snd (add_row row_size r q) = Inr ()"
  shows "trx_queue_ok row_size c (fst (add_row row_size r q))"
proof (cases "find_trx (row_id r) q = None")
  case True
  with assms add_row_new [of q r row_size] show ?thesis by (auto simp: trx_queue_ok_def)
next
  case False
  with assms(1) show ?thesis by (simp add: add_row_old)
qed

lemma new_row_simps [simp]:
  "trx_meta (new_row t m) = m" "expiry (new_row t m) = tm_expiration m" "trx_type (new_row t m) = t" "row_id (new_row t m) = tm_id m"
  by (simp_all add: new_row_def row_id_def)

lemma trx_queue_ok_add_rows:
  assumes "trx_queue_ok row_size c q" "\<not> is_incoming t"
  shows "trx_queue_ok row_size c (fold (\<lambda>m q. fst (add_row row_size (new_row t m) q)) ms q)"
  using assms
proof (induction ms arbitrary: q)
  case (Cons m ms)
  have "trx_queue_ok row_size c (fst (add_row row_size (new_row t m) q))"
    using Cons.prems by (intro trx_queue_ok_add_row add_row_unbounded) simp_all
  with Cons show ?case by simp
qed simp

lemma trx_queue_ok_make_persisted:
  assumes "trx_queue_ok row_size c q" "find_trx i q = Some r" "trx_type r \<noteq> Persisted"
  shows "trx_queue_ok row_size c (make_persisted r (if is_incoming (trx_type r) then q\<lparr>incoming_count := incoming_count q - 1\<rparr> else q))"
proof -
  define q1 where "q1 = (if is_incoming (trx_type r) then q\<lparr>incoming_count := incoming_count q - 1\<rparr> else q)"
  have q1: "by_type q1 = by_type q" "by_expiry q1 = by_expiry q" "size_in_bytes q1 = size_in_bytes q"
    "incoming_count q1 = incoming_count q - (if is_incoming (trx_type r) then 1 else 0)"
    by (simp_all add: q1_def)
  have r: "r \<in> set (by_type q)" by (rule find_trx_Some(1) [OF assms(2)])
  have ok: "rows_ok q1" "rows_ok q" using assms(1) by (simp_all add: trx_queue_ok_def rows_ok_def q1)
  note p = make_persisted_rows [OF ok(1), unfolded q1, OF r]
  have t: "mset (by_type q) = add_mset r (mset (drop_row (row_id r) (by_type q)))"
    using ok r by (intro mset_drop_row) (simp_all add: rows_ok_def)
  have "counts_ok row_size (make_persisted r q1)" if "counts_ok row_size q"
  proof -
    have "size_in_bytes (make_persisted r q1) = size_in_bytes q" "incoming_count (make_persisted r q1) = incoming_count q1"
      by (simp_all add: make_persisted_def Let_def q1)
    with that show ?thesis
      unfolding counts_ok_def p(2) q1(4) t by (simp add: total_size_def is_incoming_def)
  qed
  with p(1) assms(1) show ?thesis by (simp add: trx_queue_ok_def flip: q1_def)
qed

lemma trx_queue_ok_persisted:
  assumes "trx_queue_ok row_size c q"
  shows "trx_queue_ok row_size c (add_persisted row_size m q)"
proof (cases "find_trx (tm_id m) q")
  case None
  have "trx_queue_ok row_size c (fst (add_row row_size (new_row Persisted m) q))"
    using assms by (intro trx_queue_ok_add_row add_row_unbounded) (simp_all add: is_incoming_def)
  with None show ?thesis by (simp add: add_persisted_def)
next
  case (Some r)
  then show ?thesis using assms trx_queue_ok_make_persisted [OF assms Some] by (simp add: add_persisted_def)
qed

lemma trx_queue_ok_incoming:
  assumes "trx_queue_ok row_size c q" "add_incoming row_size m p f n q = (q', res)"
  shows "trx_queue_ok row_size (c \<and> \<not> isl res) q'"
proof (cases "find_trx (tm_id m) q")
  case (Some r)
  with assms show ?thesis by (auto simp: add_incoming_def trx_queue_ok_def split: if_splits)
next
  case None
  let ?r = "\<lparr>trx_meta = m, expiry = tm_expiration m, trx_type = (if p then Incoming_persisted else Incoming),
    return_failure_trace = f, has_next = n\<rparr>"
  have id: "row_id ?r = tm_id m" "expiry ?r = tm_expiration (trx_meta ?r)" by (simp_all add: row_id_def)
  obtain res0 where a: "add_row row_size ?r q = (q', res0)" "isl res \<longleftrightarrow> isl res0"
    using assms(2) None by (auto simp: add_incoming_def split: prod.splits sum.splits)
  have "rows_ok q'" using add_row_new(1) [of q ?r row_size] assms(1) None id a by (simp add: trx_queue_ok_def)
  moreover have "counts_ok row_size q'" if "\<not> isl res" c
    using that add_row_new(2) [of q ?r row_size] assms(1) None id a by (cases res0) (auto simp: trx_queue_ok_def)
  ultimately show ?thesis by (simp add: trx_queue_ok_def)
qed

lemma trx_queue_ok_expired:
  assumes "trx_queue_ok row_size c q" "clear_expired row_size pending_time deadline now k q = (ok, q', events)"
  shows "trx_queue_ok row_size c q'"
  using assms
proof (induction row_size pending_time deadline now k q arbitrary: ok events rule: clear_expired.induct)
  case (1 row_size pending_time deadline now k q)
  show ?case
  proof (cases "by_expiry q")
    case Nil
    with 1 show ?thesis by (simp add: clear_expired.simps [of _ _ _ _ _ q])
  next
    case (Cons r rs)
    have "r \<in> set (by_type q)" using Cons 1(2) set_by_expiry by (fastforce simp: trx_queue_ok_def)
    with 1 Cons trx_queue_ok_erase_row [of row_size c q r] show ?thesis
      by (auto simp: clear_expired.simps [of _ _ _ _ _ q] erase_row_def split: if_splits prod.splits)
  qed
qed

lemma trx_queue_ok_applied_loop:
  "trx_queue_ok row_size c q \<Longrightarrow> clear_applied_loop row_size receipts q = (q', events) \<Longrightarrow> trx_queue_ok row_size c q'"
proof (induction row_size receipts q arbitrary: events rule: clear_applied_loop.induct)
  case (3 row_size i receipts q)
  show ?case
  proof (cases "find_trx i q")
    case None
    with 3 show ?thesis by simp
  next
    case (Some r)
    note r = find_trx_Some [OF Some]
    show ?thesis
      using 3(2) [OF Some] 3(3,4) trx_queue_ok_erase_row [OF 3(3) r(1)] Some
      by (auto simp: erase_row_def r(2) split: prod.splits)
  qed
qed simp_all

lemma queue_run_ok:
  assumes "queue_run row_size c q"
  shows "trx_queue_ok row_size c q"
  using assms
proof induction
  case start
  show ?case by (simp add: trx_queue_ok_def rows_ok_def counts_ok_def empty_queue_def total_size_def)
next
  case (applied c q receipts q' events)
  then show ?case using trx_queue_ok_applied_loop by (auto simp: clear_applied_def split: if_splits)
next
  case (erased c q r q' rest)
  then show ?case using trx_queue_ok_erase_row by (auto simp: erase_def erase_row_def)
next
  case (expired c q pending_time deadline now k ok q' events)
  then show ?case by (blast intro: trx_queue_ok_expired)
next
  case (incoming c q m p f n q' res)
  then show ?case by (blast intro: trx_queue_ok_incoming)
next
  case (forked c q branch)
  then show ?case by (simp add: add_forked_def trx_queue_ok_add_rows is_incoming_def)
next
  case (aborted c q ms)
  then show ?case by (simp add: add_aborted_def trx_queue_ok_add_rows is_incoming_def)
next
  case (persisted c q m)
  then show ?case by (simp add: trx_queue_ok_persisted)
qed (simp_all add: set_max_transaction_queue_size_def queue_clear_def trx_queue_ok_def rows_ok_def counts_ok_def)

section \<open>Clearing expired transactions\<close>

text \<open>What is reported for a row that has expired.\<close>

definition expiry_events :: "unapplied_transaction \<Rightarrow> queue_event list" where
  "expiry_events r = Callback (row_id r) (trx_type r) # (if has_next r then [Next (row_id r) (Trx_error Expired_tx_exception)] else [])"

lemma drop_row_hd:
  assumes "distinct (map row_id (r # rs))"
  shows "drop_row (row_id r) (r # rs) = rs"
proof -
  have "row_id r \<notin> row_id ` set rs" using assms by simp
  then have "\<forall>s \<in> set rs. row_id s \<noteq> row_id r" by (metis image_eqI)
  then show ?thesis by (simp add: drop_row_def filter_id_conv)
qed

lemma drop_row_insert_upper:
  assumes "\<forall>s \<in> set rs. row_id s \<noteq> row_id r"
  shows "drop_row (row_id r) (insert_upper f r rs) = rs"
proof -
  have "drop_row (row_id r) (insert_upper f r rs) = drop_row (row_id r) (takeWhile (\<lambda>y. f y \<le> f r) rs @ dropWhile (\<lambda>y. f y \<le> f r) rs)"
    by (simp add: drop_row_def insert_upper_def del: takeWhile_dropWhile_id)
  also have "\<dots> = rs" using assms by (simp add: drop_row_def filter_id_conv)
  finally show ?thesis .
qed

lemma clear_expired_step:
  assumes "rows_ok q" "by_expiry q = r # rs"
  shows "rows_ok (erase_row row_size r q)" "by_expiry (erase_row row_size r q) = rs"
    "by_type (erase_row row_size r q) = filter (\<lambda>s. s \<noteq> r) (by_type q)"
proof -
  have r: "r \<in> set (by_type q)" using assms set_by_expiry by fastforce
  then show "rows_ok (erase_row row_size r q)" by (rule erase_row_rows [OF assms(1)])
  show "by_expiry (erase_row row_size r q) = rs"
    using drop_row_hd rows_ok_distinct_by_expiry [OF assms(1)] assms(2) by simp
  have "row_id s \<noteq> row_id r \<longleftrightarrow> s \<noteq> r" if "s \<in> set (by_type q)" for s
    using that r assms(1) by (auto simp: rows_ok_def distinct_map dest: inj_onD)
  then show "by_type (erase_row row_size r q) = filter (\<lambda>s. s \<noteq> r) (by_type q)"
    by (auto simp: drop_row_def intro: filter_cong)
qed

lemma clear_expired_exact:
  assumes "rows_ok q" "clear_expired row_size pending_time deadline now k q = (ok, q', events)"
  shows "\<exists>n. by_expiry q' = drop n (by_expiry q) \<and>
    by_type q' = filter (\<lambda>r. r \<notin> set (take n (by_expiry q))) (by_type q) \<and>
    events = concat (map expiry_events (take n (by_expiry q))) \<and>
    (\<forall>r \<in> set (take n (by_expiry q)). expiry r \<le> pending_time) \<and> (\<forall>i < n. now (k + i) < deadline) \<and>
    (if ok then \<forall>r \<in> set (by_expiry q'). pending_time < expiry r
     else by_expiry q' \<noteq> [] \<and> expiry (hd (by_expiry q')) \<le> pending_time \<and> deadline \<le> now (k + n))"
  using assms
proof (induction row_size pending_time deadline now k q arbitrary: ok events rule: clear_expired.induct)
  case (1 row_size pending_time deadline now k q)
  note run = 1(3) [unfolded clear_expired.simps [of _ _ _ _ _ q]]
  show ?case
  proof (cases "by_expiry q")
    case Nil
    with run show ?thesis by (intro exI [of _ 0]) simp
  next
    case (Cons r rs)
    have later: "\<forall>s \<in> set rs. expiry r \<le> expiry s" using 1(2) Cons by (simp add: rows_ok_def)
    consider "pending_time < expiry r" | "expiry r \<le> pending_time" "deadline \<le> now k"
      | "expiry r \<le> pending_time" "now k < deadline" by fastforce
    then show ?thesis
    proof cases
      case 1
      with run Cons later show ?thesis by (intro exI [of _ 0]) auto
    next
      case 2
      with run Cons show ?thesis by (intro exI [of _ 0]) auto
    next
      case 3
      note step = clear_expired_step [OF 1(2) Cons, of row_size]
      obtain ev where rest: "clear_expired row_size pending_time deadline now (k + 1) (erase_row row_size r q) = (ok, q', ev)"
        and ev: "events = expiry_events r @ ev"
        using run Cons 3 by (auto simp: erase_row_def expiry_events_def split: prod.splits)
      have "\<not> pending_time < expiry r" "\<not> deadline \<le> now k" using 3 by simp_all
      from 1(1) [OF Cons this, folded erase_row_def, OF step(1) rest]
      obtain n where n: "by_expiry q' = drop n rs" "by_type q' = filter (\<lambda>s. s \<notin> set (take n rs)) (filter (\<lambda>s. s \<noteq> r) (by_type q))"
        "ev = concat (map expiry_events (take n rs))" "\<forall>s \<in> set (take n rs). expiry s \<le> pending_time"
        "\<forall>i < n. now (k + 1 + i) < deadline"
        "if ok then \<forall>s \<in> set (by_expiry q'). pending_time < expiry s
         else by_expiry q' \<noteq> [] \<and> expiry (hd (by_expiry q')) \<le> pending_time \<and> deadline \<le> now (k + 1 + n)"
        unfolding step(2,3) by blast
      have "now (k + i) < deadline" if "i < Suc n" for i
        using that n(5) 3(2) by (cases i) auto
      with n 3 Cons ev show ?thesis
        by (intro exI [of _ "Suc n"]) (auto simp: intro!: filter_cong)
    qed
  qed
qed

section \<open>Properties\<close>

text \<open>
  C15: in every reachable state the indices by type and by expiry hold the same rows, with different transaction ids, each
  in its order, so that the iteration over the queue visits the persisted, forked and aborted transactions before the
  incoming ones. As long as no incoming transaction was rejected and the queue was not cleared as a whole, the number of
  bytes is the sum of the sizes of the rows, and the number of incoming transactions is that of the rows.
\<close>

theorem queue_consistent:
  assumes "queue_run row_size c q"
  shows "mset (by_type q) = mset (by_expiry q) \<and> distinct (map row_id (by_type q)) \<and>
    by_type q = unapplied_range q @ incoming_range q \<and> sorted (map trx_type (by_type q)) \<and> sorted (map expiry (by_expiry q)) \<and>
    (c \<longrightarrow> size_in_bytes q = (\<Sum>r\<leftarrow>by_type q. calc_size row_size (trx_meta r)) \<and>
       incoming_size q = of_nat (length (filter (\<lambda>r. is_incoming (trx_type r)) (by_type q))))"
proof -
  have ok: "trx_queue_ok row_size c q" by (rule queue_run_ok [OF assms])
  have "(\<lambda>t :: trx_enum_type. t \<le> Aborted) = (\<lambda>t. t < Incoming_persisted)"
  proof
    fix t show "(t \<le> Aborted) = (t < Incoming_persisted)"
      by (cases t) (simp_all add: less_eq_trx_enum_type_def less_trx_enum_type_def)
  qed
  then have "by_type q = unapplied_range q @ incoming_range q"
    by (simp add: unapplied_range_def incoming_range_def fun_eq_iff)
  moreover have "total_size row_size (mset (by_type q)) = (\<Sum>r\<leftarrow>by_type q. calc_size row_size (trx_meta r))"
    by (simp add: total_size_def flip: sum_mset_sum_list)
  moreover have "size (filter_mset (\<lambda>r. is_incoming (trx_type r)) (mset (by_type q))) =
      length (filter (\<lambda>r. is_incoming (trx_type r)) (by_type q))"
    by (metis mset_filter size_mset)
  ultimately show ?thesis
    using ok by (simp add: trx_queue_ok_def rows_ok_def counts_ok_def incoming_size_def)
qed

text \<open>
  C26: \<^verbatim>\<open>clear_expired\<close> removes the expired transactions in the order of their expiry and nothing else, reports each of them
  once and in that order, and stops at the first reading of the clock that is not before the deadline. It returns
  \<^verbatim>\<open>true\<close> when no expired transaction is left, and \<^verbatim>\<open>false\<close> when the deadline came before that.
\<close>

theorem clear_expired_removes_expired:
  assumes "queue_run row_size c q" "clear_expired row_size pending_block_time deadline now 0 q = (ok, q', events)"
  shows "\<exists>n. by_expiry q' = drop n (by_expiry q) \<and>
    by_type q' = filter (\<lambda>r. r \<notin> set (take n (by_expiry q))) (by_type q) \<and>
    events = concat (map expiry_events (take n (by_expiry q))) \<and>
    (\<forall>r \<in> set (take n (by_expiry q)). expiry r \<le> pending_block_time) \<and> (\<forall>i < n. now i < deadline) \<and>
    (if ok then \<forall>r \<in> set (by_expiry q'). pending_block_time < expiry r
     else by_expiry q' \<noteq> [] \<and> expiry (hd (by_expiry q')) \<le> pending_block_time \<and> deadline \<le> now n)"
proof -
  have "rows_ok q" using queue_run_ok [OF assms(1)] by (simp add: trx_queue_ok_def)
  from clear_expired_exact [OF this assms(2)] show ?thesis unfolding add_0 .
qed

text \<open>
  C40: an incoming transaction that does not fit is reported as rejected, but it stays in the queue without being counted
  in its size. Removing it later, as is done when it has been executed or has expired, leaves the rows as they were
  before and subtracts its size nevertheless, modulo \<open>2\<^sup>6\<^sup>4\<close>.
\<close>

theorem rejected_incoming_stays:
  assumes "queue_run row_size c q" "find_trx (tm_id m) q = None"
    and "\<not> size_in_bytes q + calc_size row_size m < max_transaction_queue_size q"
  shows "\<exists>q' r q'' rest. add_incoming row_size m p f n q = (q', Inl (Trx_error Tx_resource_exhaustion)) \<and>
    get_trx (tm_id m) q' = Some m \<and> find_trx (tm_id m) q' = Some r \<and> erase row_size r q' = (q'', rest) \<and>
    by_type q'' = by_type q \<and> size_in_bytes q'' = size_in_bytes q - calc_size row_size m \<and> incoming_count q'' = incoming_count q"
proof -
  let ?r = "\<lparr>trx_meta = m, expiry = tm_expiration m, trx_type = (if p then Incoming_persisted else Incoming),
    return_failure_trace = f, has_next = n\<rparr>"
  define q' where "q' = q\<lparr>by_type := insert_upper trx_type ?r (by_type q), by_expiry := insert_upper expiry ?r (by_expiry q),
    incoming_count := incoming_count q + 1\<rparr>"
  have id: "row_id ?r = tm_id m" by (simp add: row_id_def)
  have in_r: "is_incoming (trx_type ?r)" by (simp add: is_incoming_def)
  have new: "\<forall>s \<in> set (by_type q). row_id s \<noteq> tm_id m" using assms(2) by (metis find_trx_None image_eqI)
  have "add_row row_size ?r q = (q', Inl (Trx_error Tx_resource_exhaustion))"
    using assms(2,3) id in_r by (simp add: add_row_def queue_insert_def added_def Let_def q'_def)
  then have 1: "add_incoming row_size m p f n q = (q', Inl (Trx_error Tx_resource_exhaustion))"
    using assms(2) by (simp add: add_incoming_def)
  have drop: "drop_row (tm_id m) (insert_upper trx_type ?r (by_type q)) = by_type q"
    using new drop_row_insert_upper [of "by_type q" ?r trx_type] unfolding id by blast
  have 2: "find_trx (tm_id m) q' = Some ?r"
  proof -
    have "find_trx (tm_id m) q' \<noteq> None"
      using id by (auto simp: find_trx_None q'_def insert_upper_def)
    then obtain s where s: "find_trx (tm_id m) q' = Some s" by auto
    have "s \<in> set (by_type q') \<and> row_id s = tm_id m" using find_trx_Some [OF s] by simp
    then have "s = ?r" using new by (auto simp: q'_def insert_upper_def dest: set_takeWhileD set_dropWhileD)
    with s show ?thesis by simp
  qed
  have "by_type (fst (erase row_size ?r q')) = by_type q"
    using drop id by (simp add: erase_def queue_erase_def q'_def)
  moreover have "size_in_bytes (fst (erase row_size ?r q')) = size_in_bytes q - calc_size row_size m"
    "incoming_count (fst (erase row_size ?r q')) = incoming_count q"
    using in_r by (simp_all add: erase_def queue_erase_def removed_def Let_def q'_def)
  ultimately show ?thesis using 1 2 by (metis get_trx_def option.simps(9) prod.collapse unapplied_transaction.select_convs(1))
qed

section \<open>A sample queue\<close>

definition sample_trx :: "nat \<Rightarrow> transaction_metadata" where
  "sample_trx i = \<lparr>tm_pointer = i, tm_id = i, tm_expiration = 10 * int i, tm_estimated_size = 50\<rparr>"

definition sample_queue :: unapplied_transaction_queue where
  "sample_queue = add_persisted 100 (sample_trx 2) (add_aborted 100 [sample_trx 3] (add_forked 100 [[sample_trx 2], [sample_trx 1]] empty_queue))"

lemma sample_queue_run: "queue_run 100 True sample_queue"
  unfolding sample_queue_def by (rule queue_run.persisted queue_run.aborted queue_run.forked queue_run.start)+

theorem queue_consistent_witness:
  "map row_id (by_type sample_queue) = [2, 1, 3] \<and> map row_id (by_expiry sample_queue) = [1, 2, 3] \<and> size_in_bytes sample_queue = 450 \<and>
   size_in_bytes sample_queue = (\<Sum>r\<leftarrow>by_type sample_queue. calc_size 100 (trx_meta r))"
proof -
  have "map row_id (by_type sample_queue) = [2, 1, 3]" "map row_id (by_expiry sample_queue) = [1, 2, 3]"
    "size_in_bytes sample_queue = 450" by code_simp+
  with queue_consistent [OF sample_queue_run] show ?thesis by blast
qed

theorem clear_expired_removes_expired_witness:
  "\<exists>q' events. clear_expired 100 20 1000 int 0 sample_queue = (True, q', events) \<and>
     (\<exists>n. by_expiry q' = drop n (by_expiry sample_queue) \<and> events = concat (map expiry_events (take n (by_expiry sample_queue)))) \<and>
     map row_id (by_type q') = [3]"
proof -
  obtain q' events where r: "clear_expired 100 20 1000 int 0 sample_queue = (True, q', events)" "map row_id (by_type q') = [3]"
  proof -
    have "fst (clear_expired 100 20 1000 int 0 sample_queue) \<and>
      map row_id (by_type (fst (snd (clear_expired 100 20 1000 int 0 sample_queue)))) = [3]" by code_simp
    then show ?thesis by (cases "clear_expired 100 20 1000 int 0 sample_queue") (auto intro: that)
  qed
  from clear_expired_removes_expired [OF sample_queue_run r(1)]
  obtain n where "by_expiry q' = drop n (by_expiry sample_queue)" "events = concat (map expiry_events (take n (by_expiry sample_queue)))"
    by blast
  then have "\<exists>n. by_expiry q' = drop n (by_expiry sample_queue) \<and> events = concat (map expiry_events (take n (by_expiry sample_queue)))"
    by (intro exI [of _ n] conjI)
  with r show ?thesis by (intro exI [of _ q'] exI [of _ events] conjI)
qed

theorem rejected_incoming_stays_witness:
  "\<exists>q'' r q' rest. add_incoming 100 (sample_trx 7) False False True (set_max_transaction_queue_size 500 sample_queue) =
      (q', Inl (Trx_error Tx_resource_exhaustion)) \<and>
     find_trx 7 q' = Some r \<and> erase 100 r q' = (q'', rest) \<and> size_in_bytes q'' = 300"
proof -
  let ?q = "set_max_transaction_queue_size 500 sample_queue"
  have 1: "queue_run 100 True ?q" by (rule queue_run.limit [OF sample_queue_run])
  have 2: "tm_id (sample_trx 7) = 7" "find_trx 7 ?q = None" "\<not> size_in_bytes ?q + calc_size 100 (sample_trx 7) < max_transaction_queue_size ?q"
    "size_in_bytes ?q - calc_size 100 (sample_trx 7) = 300" by code_simp+
  from rejected_incoming_stays [OF 1, of "sample_trx 7", unfolded 2(1,4), OF 2(2,3)] show ?thesis by blast
qed

end
